(* ===== verification/Prelude.thy ===== *)
theory Prelude
  imports Main "HOL-Library.Word" "HOL-Library.Multiset"
begin

text \<open>
  Shared vocabulary of the development: the machine types of the Go sources, byte slices and the
  big-endian codec of \<^verbatim>\<open>encoding/binary\<close>, the wrap-around of \<^verbatim>\<open>int64\<close>, and two generic
  interfaces (a stepped system with an invariant, and a fixed-width wire codec) that the components
  interpret on their own definitions.
\<close>

unbundle bit_operations_syntax

section \<open>Types\<close>

type_synonym u8 = "8 word"
type_synonym u16 = "16 word"
type_synonym u32 = "32 word"
type_synonym u64 = "64 word"
type_synonym byte = "8 word"
type_synonym bytes = "byte list"

text \<open>Durations and instants of package \<^verbatim>\<open>time\<close> are 64-bit signed nanosecond counts, kept as
  \<open>int\<close> with the wrap-around written out where the code can reach it.\<close>

type_synonym duration = int
type_synonym instant = int

abbreviation millisecond :: duration where "millisecond \<equiv> 1000000"
abbreviation second :: duration where "second \<equiv> 1000000000"

definition max_i64 :: int where "max_i64 = 2 ^ 63 - 1"
definition min_i64 :: int where "min_i64 = - (2 ^ 63)"

definition i64 :: "int \<Rightarrow> int" where
  "i64 x = (x + 2 ^ 63) mod 2 ^ 64 - 2 ^ 63"

text \<open>\<^verbatim>\<open>Time.Sub\<close> saturates at the ends of the duration range.\<close>

definition time_Sub :: "instant \<Rightarrow> instant \<Rightarrow> duration" where
  "time_Sub a b = max min_i64 (min max_i64 (a - b))"

named_theorems wire_defs \<open>unfolding of the wire format definitions\<close>
named_theorems len_simps \<open>lengths of encoded fields\<close>
named_theorems inv_intros \<open>invariant preservation\<close>

section \<open>Text\<close>

text \<open>Strings whose characters matter are lists of code points (valid UTF-8). \<^verbatim>\<open>strings.TrimSpace\<close>,
  \<^verbatim>\<open>strings.Fields\<close>, \<^verbatim>\<open>strings.Split\<close> and \<^verbatim>\<open>unicode.IsControl\<close> are written out for all of Unicode.\<close>

type_synonym rune = nat
type_synonym gostring = "rune list"

definition IsSpace :: "rune \<Rightarrow> bool" where
  "IsSpace r \<longleftrightarrow> (0x09 \<le> r \<and> r \<le> 0x0d) \<or> r = 0x20 \<or> r = 0x85 \<or> r = 0xa0 \<or> r = 0x1680 \<or>
     (0x2000 \<le> r \<and> r \<le> 0x200a) \<or> r = 0x2028 \<or> r = 0x2029 \<or> r = 0x202f \<or> r = 0x205f \<or> r = 0x3000"

definition IsControl :: "rune \<Rightarrow> bool" where
  "IsControl r \<longleftrightarrow> r < 0x20 \<or> (0x7f \<le> r \<and> r < 0xa0)"

definition TrimSpace :: "gostring \<Rightarrow> gostring" where
  "TrimSpace s = rev (dropWhile IsSpace (rev (dropWhile IsSpace s)))"

fun split_at :: "(rune \<Rightarrow> bool) \<Rightarrow> gostring \<Rightarrow> gostring list" where
  "split_at sep [] = [[]]"
| "split_at sep (r # rs) =
     (if sep r then [] # split_at sep rs
      else case split_at sep rs of [] \<Rightarrow> [[r]] | w # ws \<Rightarrow> (r # w) # ws)"

definition strings_Split :: "gostring \<Rightarrow> rune \<Rightarrow> gostring list" where
  "strings_Split s sep = split_at (\<lambda>r. r = sep) s"

definition strings_Fields :: "gostring \<Rightarrow> gostring list" where
  "strings_Fields s = filter (\<lambda>w. w \<noteq> []) (split_at IsSpace s)"

text \<open>Text of ASCII literals.\<close>

definition runes :: "string \<Rightarrow> gostring" where "runes s = map of_char s"

section \<open>Slices\<close>

definition sub_slice :: "nat \<Rightarrow> nat \<Rightarrow> 'a list \<Rightarrow> 'a list" where
  "sub_slice i j xs = take (j - i) (drop i xs)"

definition put_at :: "nat \<Rightarrow> 'a list \<Rightarrow> 'a list \<Rightarrow> 'a list" where
  "put_at i ys xs = take i xs @ take (length xs - i) ys @ drop (i + length ys) xs"

section \<open>Big-endian integers\<close>

definition put_be :: "nat \<Rightarrow> 'a::len word \<Rightarrow> bytes" where
  "put_be n v = map (\<lambda>i. ucast (drop_bit (8 * (n - 1 - i)) v)) [0..<n]"

definition get_be :: "bytes \<Rightarrow> 'a::len word" where
  "get_be bs = foldl (\<lambda>acc b. push_bit 8 acc OR ucast b) 0 bs"

section \<open>Lemmas on slices\<close>

lemma length_sub_slice [simp]: "j \<le> length xs \<Longrightarrow> length (sub_slice i j xs) = j - i"
  by (simp add: sub_slice_def)

lemma nth_sub_slice: "j \<le> length xs \<Longrightarrow> k < j - i \<Longrightarrow> sub_slice i j xs ! k = xs ! (i + k)"
  by (simp add: sub_slice_def)

lemma length_put_at [simp]: "i \<le> length xs \<Longrightarrow> length (put_at i ys xs) = length xs"
  by (auto simp: put_at_def)

lemma nth_put_at:
  assumes "i + length ys \<le> length xs" and "k < length xs"
  shows "put_at i ys xs ! k = (if i \<le> k \<and> k < i + length ys then ys ! (k - i) else xs ! k)"
  using assms by (auto simp: put_at_def nth_append)

lemma take_take_append [simp]: "take n (take n xs @ ys) = take n (xs @ ys)"
  by (cases "n \<le> length xs") auto

lemma sub_slice_eqI:
  assumes "j \<le> length xs" and "length ys = j - i" and "\<And>k. k < j - i \<Longrightarrow> xs ! (i + k) = ys ! k"
  shows "sub_slice i j xs = ys"
  using assms by (auto intro!: nth_equalityI simp: nth_sub_slice)

lemma sub_slice_put_at:
  assumes "i + length ys \<le> length xs" and "i \<le> j"
  shows "sub_slice i (i + length ys) (put_at i ys xs) = ys"
  using assms by (intro sub_slice_eqI) (auto simp: nth_put_at)

section \<open>Lemmas on the big-endian codec\<close>

lemma length_put_be [simp, len_simps]: "length (put_be n v) = n"
  by (simp add: put_be_def)

lemma nth_put_be: "i < n \<Longrightarrow> put_be n v ! i = ucast (drop_bit (8 * (n - 1 - i)) v)"
  by (simp add: put_be_def)

lemma get_be_Nil [simp]: "get_be [] = 0"
  by (simp add: get_be_def)

lemma get_be_snoc: "get_be (bs @ [b]) = push_bit 8 (get_be bs) OR ucast b"
  by (simp add: get_be_def)

lemma bit_get_be:
  "bit (get_be bs :: 'a::len word) i \<longleftrightarrow>
     i < LENGTH('a) \<and> i < 8 * length bs \<and> bit (rev bs ! (i div 8)) (i mod 8)"
proof (induction bs arbitrary: i rule: rev_induct)
  case Nil
  then show ?case by simp
next
  case (snoc b bs)
  show ?case
  proof (cases "i < 8")
    case True
    then show ?thesis
      by (auto simp: get_be_snoc bit_or_iff bit_push_bit_iff bit_ucast_iff)
  next
    case False
    then have "i div 8 = Suc ((i - 8) div 8)" and "i mod 8 = (i - 8) mod 8"
      by (simp_all add: le_div_geq le_mod_geq)
    with False show ?thesis
      using bit_imp_le_length [of b i]
      by (auto simp: get_be_snoc bit_or_iff bit_push_bit_iff bit_ucast_iff snoc.IH)
  qed
qed

lemma get_be_put_be [simp]:
  fixes v :: "'a::len word"
  assumes "LENGTH('a) \<le> 8 * n"
  shows "get_be (put_be n v) = v"
proof (rule bit_word_eqI)
  fix i assume i: "i < LENGTH('a)"
  then have q: "i div 8 < n" using assms by linarith
  have "rev (put_be n v) ! (i div 8) = put_be n v ! (n - 1 - i div 8)"
    using q by (simp add: rev_nth)
  also have "\<dots> = ucast (drop_bit (8 * (i div 8)) v)"
    using q by (simp add: nth_put_be)
  finally show "bit (get_be (put_be n v) :: 'a word) i = bit v i"
    using i assms by (simp add: bit_get_be bit_ucast_iff bit_drop_bit_eq)
qed

lemma put_be_get_be:
  assumes "8 * length bs \<le> LENGTH('a::len)"
  shows "put_be (length bs) (get_be bs :: 'a word) = bs"
proof (rule nth_equalityI)
  show "length (put_be (length bs) (get_be bs :: 'a word)) = length bs" by simp
  fix i assume "i < length (put_be (length bs) (get_be bs :: 'a word))"
  then have i: "i < length bs" by simp
  show "put_be (length bs) (get_be bs :: 'a word) ! i = bs ! i"
  proof (rule bit_word_eqI)
    fix k assume "k < LENGTH(8)"
    then have k: "k < 8" by simp
    let ?j = "8 * (length bs - 1 - i) + k"
    have "?j < 8 * length bs" and "?j div 8 = length bs - 1 - i" and "?j mod 8 = k"
      using i k by simp_all
    moreover have "rev bs ! (length bs - 1 - i) = bs ! i"
      using i by (simp add: rev_nth)
    ultimately show "bit (put_be (length bs) (get_be bs :: 'a word) ! i) k = bit (bs ! i) k"
      using i k assms by (simp add: nth_put_be bit_ucast_iff bit_drop_bit_eq bit_get_be)
  qed
qed

section \<open>Lemmas on int64\<close>

lemma i64_id: "min_i64 \<le> x \<Longrightarrow> x \<le> max_i64 \<Longrightarrow> i64 x = x"
  by (simp add: i64_def min_i64_def max_i64_def)

lemma i64_range: "min_i64 \<le> i64 x \<and> i64 x \<le> max_i64"
proof -
  have "0 \<le> (x + 2 ^ 63) mod 2 ^ 64" and "(x + 2 ^ 63) mod 2 ^ 64 < (2::int) ^ 64"
    by simp_all
  then show ?thesis by (simp add: i64_def min_i64_def max_i64_def)
qed

section \<open>Successors of machine words\<close>

lemma word_lt_succ: "x \<noteq> - 1 \<Longrightarrow> x < x + 1" for x :: "'a::len word"
  by (metis inc_less_eq_triv_imp linorder_not_less)

lemma word_lt_succ_iff: "y \<noteq> - 1 \<Longrightarrow> x < y + 1 \<longleftrightarrow> x \<le> y" for x y :: "'a::len word"
  by (metis inc_less_eq_iff linorder_not_less)

section \<open>Stepped systems\<close>

text \<open>A component driven by a list of events, with an invariant every admissible event keeps.\<close>

locale step_system =
  fixes step :: "'s \<Rightarrow> 'e \<Rightarrow> 's"
    and inv :: "'s \<Rightarrow> bool"
    and ok :: "'e \<Rightarrow> bool"
  assumes inv_step: "inv s \<Longrightarrow> ok e \<Longrightarrow> inv (step s e)"
begin

lemma inv_run: "inv s \<Longrightarrow> list_all ok es \<Longrightarrow> inv (foldl step s es)"
  by (induction es arbitrary: s) (auto intro: inv_step)

end

section \<open>Fixed-width codecs\<close>

text \<open>The contract the three headers of the wire format share: writing needs the fixed width,
  touches only that prefix, and reading gives the value back.\<close>

locale fixed_codec =
  fixes marshal :: "bytes \<Rightarrow> 'h \<Rightarrow> 'e + bytes"
    and unmarshal :: "bytes \<Rightarrow> 'e + ('h \<times> nat)"
    and width :: nat
    and wf :: "'h \<Rightarrow> bool"
    and short :: 'e
  assumes marshal_short: "length dst < width \<Longrightarrow> marshal dst x = Inl short"
    and unmarshal_short: "length src < width \<Longrightarrow> unmarshal src = Inl short"
    and marshal_total: "width \<le> length dst \<Longrightarrow> wf x \<Longrightarrow>
          \<exists>pre. length pre = width \<and> marshal dst x = Inr (pre @ drop width dst)"
    and unmarshal_local: "width \<le> length src \<Longrightarrow> \<exists>x. wf x \<and> unmarshal src = Inr (x, width)"
    and unmarshal_prefix: "width \<le> length src \<Longrightarrow> take width src = take width src' \<Longrightarrow>
          width \<le> length src' \<Longrightarrow> unmarshal src = unmarshal src'"
    and roundtrip: "wf x \<Longrightarrow> marshal dst x = Inr out \<Longrightarrow> unmarshal out = Inr (x, width)"
begin

text \<open>Encoding into a fresh buffer of exactly the width, followed by any payload.\<close>

lemma roundtrip_append:
  assumes "wf x" and "marshal dst x = Inr out" and "length dst = width"
  shows "unmarshal (out @ rest) = Inr (x, width)"
proof -
  from assms obtain pre where "length pre = width" and "out = pre"
    using marshal_total [of dst x] by auto
  then have "unmarshal (out @ rest) = unmarshal out"
    by (intro unmarshal_prefix) auto
  with roundtrip assms(1,2) show ?thesis by simp
qed

lemma marshal_inj:
  assumes "wf x" and "wf y" and "marshal dst x = Inr out" and "marshal dst y = Inr out"
  shows "x = y"
  using roundtrip [OF assms(1,3)] roundtrip [OF assms(2,4)] by simp

lemma unmarshal_iff_long: "(\<exists>x n. unmarshal src = Inr (x, n)) \<longleftrightarrow> width \<le> length src"
  using unmarshal_local unmarshal_short by (metis linorder_not_less old.sum.distinct(1))

end

end
