(* ===== verification/Float64.thy ===== *)
theory Float64
  imports Prelude Complex_Main
begin

text \<open>
  Binary64 arithmetic as Go's \<^verbatim>\<open>float64\<close> performs it. A finite float is the rational number it denotes,
  and every operation rounds its exact result once by \<open>fl64\<close>, to nearest with ties to even, subnormal
  numbers included. The code modelled here stays far from the overflow threshold, so infinities and NaN
  are not represented. Conversion to \<^verbatim>\<open>int64\<close> truncates; out of range its result depends on the
  processor, and \<open>goarch\<close> says which.
\<close>

section \<open>Rounding\<close>

text \<open>Rounding to the nearest integer, ties to even.\<close>

definition rne :: "rat \<Rightarrow> int" where
  "rne x = (let f = \<lfloor>x\<rfloor>; r = x - of_int f
            in if r < 1 / 2 then f else if r > 1 / 2 then f + 1 else if even f then f else f + 1)"

text \<open>The number of bits of an integer, and the exponent of the leading bit of a positive rational.\<close>

function blen :: "int \<Rightarrow> int" where
  "blen a = (if a \<le> 0 then 0 else 1 + blen (a div 2))"
  by auto
termination by (relation "measure nat") auto

declare blen.simps [simp del]

definition ilog :: "rat \<Rightarrow> int" where
  "ilog x = (let (a, b) = quotient_of x; k = blen a - blen b
             in if x < 2 powi k then k - 1 else k)"

definition ulp_exp :: "rat \<Rightarrow> int" where
  "ulp_exp x = max (ilog x - 52) (- 1074)"

definition fl_pos :: "rat \<Rightarrow> rat" where
  "fl_pos x = of_int (rne (x / 2 powi ulp_exp x)) * 2 powi ulp_exp x"

definition fl64 :: "rat \<Rightarrow> rat" where
  "fl64 x = (if x = 0 then 0 else if x > 0 then fl_pos x else - fl_pos (- x))"

section \<open>Conversions\<close>

datatype goarch = AMD64 | ARM64

definition trunc :: "rat \<Rightarrow> int" where
  "trunc x = (if x \<ge> 0 then \<lfloor>x\<rfloor> else \<lceil>x\<rceil>)"

text \<open>\<^verbatim>\<open>int64(f)\<close>: on amd64 every value out of range becomes the smallest integer, on arm64 the conversion
  saturates.\<close>

definition f2i64 :: "goarch \<Rightarrow> rat \<Rightarrow> int" where
  "f2i64 ar x =
     (let t = trunc x
      in if min_i64 \<le> t \<and> t \<le> max_i64 then t
         else case ar of AMD64 \<Rightarrow> min_i64 | ARM64 \<Rightarrow> (if t > max_i64 then max_i64 else min_i64))"

definition i2f :: "int \<Rightarrow> rat" where "i2f n = fl64 (of_int n)"

text \<open>\<^verbatim>\<open>Duration.Seconds\<close>: whole seconds plus the remaining nanoseconds, each converted to a float.\<close>

definition Seconds :: "duration \<Rightarrow> rat" where
  "Seconds d =
     (let sec = (if d \<ge> 0 then d div second else - ((- d) div second));
          nsec = d - sec * second
      in fl64 (i2f sec + fl64 (i2f nsec / 1000000000)))"

section \<open>Lemmas on rounding\<close>

lemma rne_bounds: "\<lfloor>x\<rfloor> \<le> rne x" "rne x \<le> \<lfloor>x\<rfloor> + 1"
  by (auto simp: rne_def Let_def)

lemma rne_mono: "x \<le> y \<Longrightarrow> rne x \<le> rne y"
proof -
  assume le: "x \<le> y"
  show ?thesis
  proof (cases "\<lfloor>x\<rfloor> = \<lfloor>y\<rfloor>")
    case True
    with le show ?thesis by (auto simp: rne_def Let_def)
  next
    case False
    with floor_mono [OF le] have "\<lfloor>x\<rfloor> + 1 \<le> \<lfloor>y\<rfloor>" by linarith
    with rne_bounds [of x] rne_bounds [of y] show ?thesis by linarith
  qed
qed

lemma rne_of_int [simp]: "rne (of_int n) = n"
  by (simp add: rne_def)

lemma rne_nonneg: "0 \<le> x \<Longrightarrow> 0 \<le> rne x"
  using rne_bounds(1) [of x] by linarith

lemma powi_pos [simp]: "(0::rat) < 2 powi k" by simp

lemma blen_nonneg: "0 \<le> blen a"
proof (induction a rule: blen.induct)
  case (1 a)
  then show ?case by (subst blen.simps) auto
qed

lemma blen_bounds:
  assumes "0 < a"
  shows "2 ^ nat (blen a - 1) \<le> a \<and> a < 2 ^ nat (blen a) \<and> 0 < blen a"
  using assms
proof (induction a rule: blen.induct)
  case (1 a)
  show ?case
  proof (cases "a = 1")
    case True
    then show ?thesis by (simp add: blen.simps [of 1] blen.simps [of 0])
  next
    case False
    then have pos: "0 < a div 2" using 1(2) by auto
    then have IH: "2 ^ nat (blen (a div 2) - 1) \<le> a div 2" "a div 2 < 2 ^ nat (blen (a div 2))" "0 < blen (a div 2)"
      using 1 by auto
    obtain n where n: "blen (a div 2) = int n + 1"
      using IH(3) by (metis add.commute zless_iff_Suc_zadd add_0 of_nat_Suc)
    have "blen a = int n + 2" using 1(2) n by (subst blen.simps) simp
    moreover have "2 ^ Suc n \<le> a" "a < 2 ^ Suc (Suc n)" using IH(1,2) n by (auto simp: nat_add_distrib)
    ultimately show ?thesis by (simp add: nat_add_distrib)
  qed
qed

lemma blen_rat:
  assumes "0 < a"
  shows "(2::rat) powi (blen a - 1) \<le> of_int a" and "of_int a < (2::rat) powi blen a"
proof -
  note b = blen_bounds [OF assms]
  then have "(of_int (2 ^ nat (blen a - 1)) :: rat) \<le> of_int a" "(of_int a :: rat) < of_int (2 ^ nat (blen a))"
    by (simp_all only: of_int_le_iff of_int_less_iff)
  with b show "(2::rat) powi (blen a - 1) \<le> of_int a" "of_int a < (2::rat) powi blen a"
    by (simp_all add: power_int_def)
qed

lemma ilog_bounds:
  assumes "0 < x"
  shows "2 powi ilog x \<le> x" and "x < 2 powi (ilog x + 1)"
proof -
  obtain a b where q: "quotient_of x = (a, b)" by fastforce
  have b: "0 < b" and x: "x = of_int a / of_int b"
    using quotient_of_denom_pos [OF q] quotient_of_div [OF q] by auto
  then have a: "0 < a" using assms by (simp add: zero_less_divide_iff)
  define k where "k = blen a - blen b"
  note fa = blen_rat [OF a] and fb = blen_rat [OF b]
  have "2 powi (k - 1) < x"
  proof -
    have "2 powi (blen a - 1) / 2 powi blen b < of_int a / (of_int b :: rat)"
      using fa(1) fb(2) b a by (intro frac_less2) auto
    then show ?thesis by (simp add: x k_def power_int_diff)
  qed
  moreover have "x < 2 powi (k + 1)"
  proof -
    have "of_int a / (of_int b :: rat) < 2 powi blen a / 2 powi (blen b - 1)"
      using fa(2) fb(1) b a by (intro frac_less) auto
    then show ?thesis by (simp add: x k_def power_int_diff power_int_add)
  qed
  moreover have "ilog x = (if x < 2 powi k then k - 1 else k)"
    by (simp add: ilog_def q k_def)
  ultimately show "2 powi ilog x \<le> x" "x < 2 powi (ilog x + 1)" by (auto split: if_splits)
qed

lemma powi_less: "(2::rat) powi a < 2 powi b \<Longrightarrow> a < b"
  using power_int_increasing [of b a "2::rat"] by fastforce

lemma ilog_unique:
  assumes "2 powi k \<le> x" and "x < 2 powi (k + 1)"
  shows "ilog x = k"
proof -
  have pos: "0 < x" using assms(1) powi_pos [of k] by linarith
  note b = ilog_bounds [OF pos]
  have "(2::rat) powi k < 2 powi (ilog x + 1)" "(2::rat) powi ilog x < 2 powi (k + 1)"
    using assms b by linarith+
  then have "k < ilog x + 1" "ilog x < k + 1" by (simp_all only: powi_less)
  then show ?thesis by simp
qed

lemma ilog_mono: "0 < x \<Longrightarrow> x \<le> y \<Longrightarrow> ilog x \<le> ilog y"
proof -
  assume xy: "0 < x" "x \<le> y"
  then have "(2::rat) powi ilog x < 2 powi (ilog y + 1)"
    using ilog_bounds(1) [of x] ilog_bounds(2) [of y] by linarith
  then have "ilog x < ilog y + 1" by (rule powi_less)
  then show ?thesis by simp
qed

lemma ulp_exp_mono: "0 < x \<Longrightarrow> x \<le> y \<Longrightarrow> ulp_exp x \<le> ulp_exp y"
  using ilog_mono [of x y] by (simp add: ulp_exp_def)

text \<open>A float with 53 bits of precision at exponent \<open>e\<close>.\<close>

definition rep64 :: "rat \<Rightarrow> bool" where
  "rep64 x \<longleftrightarrow> (\<exists>m e. x = of_int m * 2 powi e \<and> \<bar>m\<bar> \<le> 2 ^ 53 \<and> - 1074 \<le> e)"

lemma powi_nat: "0 \<le> k \<Longrightarrow> (2::rat) powi k = of_int (2 ^ nat k)"
  by (simp add: power_int_def)

lemma grid_refine:
  assumes "e \<le> e'" shows "\<exists>n. of_int m * (2::rat) powi e' = of_int n * 2 powi e"
proof -
  have "(2::rat) powi e' = 2 powi (e' - e) * 2 powi e" by (simp add: power_int_diff)
  also have "2 powi (e' - e) = (of_int (2 ^ nat (e' - e)) :: rat)" using assms by (intro powi_nat) simp
  finally show ?thesis by (intro exI [of _ "m * 2 ^ nat (e' - e)"]) simp
qed

lemma rep64_grid:
  assumes "rep64 x" and "0 < x"
  obtains n where "x = of_int n * 2 powi ulp_exp x"
proof -
  obtain m e where x: "x = of_int m * 2 powi e" and m: "\<bar>m\<bar> \<le> 2 ^ 53" and e: "- 1074 \<le> e"
    using assms(1) by (auto simp: rep64_def)
  show ?thesis
  proof (cases "ulp_exp x \<le> e")
    case True
    with grid_refine [OF True, of m] x that show ?thesis by auto
  next
    case False
    then have i: "ilog x - 52 > e" using e by (simp add: ulp_exp_def)
    have "(2::rat) powi (e + 53) \<le> 2 powi ilog x" using i by (intro power_int_increasing) auto
    then have lo: "2 powi (e + 53) \<le> x" using ilog_bounds(1) [OF assms(2)] by linarith
    have "of_int m \<le> (of_int (2 ^ 53) :: rat)" using m by (simp only: of_int_le_iff)
    then have "x \<le> of_int (2 ^ 53) * 2 powi e" unfolding x by (rule mult_right_mono) simp
    then have "x \<le> 2 powi (e + 53)" by (simp add: power_int_add)
    with lo have "x = 2 powi (e + 53)" by (rule antisym [rotated])
    moreover from this have "ilog x = e + 53" by (intro ilog_unique) (auto simp: power_int_add)
    ultimately show ?thesis
      using that [of "2 ^ 52"] e by (simp add: ulp_exp_def power_int_add power_int_diff)
  qed
qed

lemma fl_pos_rep: "rep64 x \<Longrightarrow> 0 < x \<Longrightarrow> fl_pos x = x"
proof -
  assume r: "rep64 x" "0 < x"
  then obtain n where n: "x = of_int n * 2 powi ulp_exp x" by (rule rep64_grid)
  then have "x / 2 powi ulp_exp x = of_int n" by (metis nonzero_mult_div_cancel_right powi_pos less_irrefl)
  then show ?thesis using n by (simp add: fl_pos_def)
qed

lemma fl_pos_nonneg: "0 < x \<Longrightarrow> 0 \<le> fl_pos x"
  by (simp add: fl_pos_def rne_nonneg)

text \<open>Rounding stays inside the binade.\<close>

lemma fl_pos_binade:
  assumes "0 < x"
  shows "fl_pos x \<le> 2 powi (ulp_exp x + 53)" and "ulp_exp x = ilog x - 52 \<Longrightarrow> 2 powi ilog x \<le> fl_pos x"
proof -
  let ?e = "ulp_exp x"
  have "ilog x + 1 \<le> ?e + 53" by (simp add: ulp_exp_def)
  then have "(2::rat) powi (ilog x + 1) \<le> 2 powi (?e + 53)" by (rule power_int_increasing) simp
  then have "x < 2 powi (?e + 53)" using ilog_bounds(2) [OF assms] by linarith
  then have "x / 2 powi ?e \<le> of_int (2 ^ 53)"
    by (simp add: power_int_add divide_le_eq)
  then have "rne (x / 2 powi ?e) \<le> 2 ^ 53" using rne_mono rne_of_int by metis
  then have "of_int (rne (x / 2 powi ?e)) \<le> (of_int (2 ^ 53) :: rat)" by (simp only: of_int_le_iff)
  then show "fl_pos x \<le> 2 powi (?e + 53)"
    unfolding fl_pos_def by (simp add: power_int_add mult_right_mono)
  show "2 powi ilog x \<le> fl_pos x" if e: "?e = ilog x - 52"
  proof -
    have "of_int (2 ^ 52) \<le> x / 2 powi ?e"
      using ilog_bounds(1) [OF assms] by (simp add: e power_int_diff le_divide_eq)
    then have "2 ^ 52 \<le> rne (x / 2 powi ?e)" using rne_mono rne_of_int by metis
    then have "(of_int (2 ^ 52) :: rat) \<le> of_int (rne (x / 2 powi ?e))" by (simp only: of_int_le_iff)
    then have "of_int (2 ^ 52) * 2 powi ?e \<le> fl_pos x" unfolding fl_pos_def by (intro mult_right_mono) auto
    then show ?thesis by (simp add: e power_int_diff)
  qed
qed

lemma fl_pos_mono:
  assumes "0 < x" and "x \<le> y"
  shows "fl_pos x \<le> fl_pos y"
proof (cases "ulp_exp x = ulp_exp y")
  case True
  then have "rne (x / 2 powi ulp_exp x) \<le> rne (y / 2 powi ulp_exp y)"
    using assms by (intro rne_mono) (simp add: divide_right_mono)
  with True show ?thesis unfolding fl_pos_def by (simp add: mult_right_mono)
next
  case False
  then have lt: "ulp_exp x < ulp_exp y" using ulp_exp_mono [OF assms] by simp
  then have ey: "ulp_exp y = ilog y - 52" by (auto simp: ulp_exp_def)
  have "fl_pos x \<le> 2 powi (ulp_exp x + 53)" using fl_pos_binade(1) [OF assms(1)] .
  also have "\<dots> \<le> 2 powi ilog y" using lt ey by (intro power_int_increasing) auto
  also have "\<dots> \<le> fl_pos y" using fl_pos_binade(2) [OF _ ey] assms by simp
  finally show ?thesis .
qed

section \<open>The rounding function\<close>

lemma fl64_0 [simp]: "fl64 0 = 0" by (simp add: fl64_def)

lemma fl64_minus: "fl64 (- x) = - fl64 x"
  by (simp add: fl64_def)

lemma fl64_nonneg: "0 \<le> x \<Longrightarrow> 0 \<le> fl64 x"
  using fl_pos_nonneg by (auto simp: fl64_def)

lemma fl64_nonpos: "x \<le> 0 \<Longrightarrow> fl64 x \<le> 0"
  using fl64_nonneg [of "- x"] by (simp add: fl64_minus)

lemma fl64_mono: "x \<le> y \<Longrightarrow> fl64 x \<le> fl64 y"
proof -
  assume le: "x \<le> y"
  consider "0 < x" | "x \<le> 0" "0 \<le> y" | "y < 0" by linarith
  then show ?thesis
  proof cases
    case 1
    with le show ?thesis using fl_pos_mono [of x y] by (simp add: fl64_def)
  next
    case 2
    with fl64_nonneg [of y] fl64_nonpos [of x] show ?thesis by linarith
  next
    case 3
    with le show ?thesis using fl_pos_mono [of "- y" "- x"] by (simp add: fl64_def)
  qed
qed

lemma rep64_minus: "rep64 x \<Longrightarrow> rep64 (- x)"
proof -
  assume "rep64 x"
  then obtain m e where "x = of_int m * 2 powi e" "\<bar>m\<bar> \<le> 2 ^ 53" "- 1074 \<le> e" by (auto simp: rep64_def)
  then show ?thesis unfolding rep64_def by (intro exI [of _ "- m"] exI [of _ e]) simp
qed

lemma fl64_rep: "rep64 x \<Longrightarrow> fl64 x = x"
  using fl_pos_rep [of x] fl_pos_rep [of "- x"] rep64_minus [of x] by (auto simp: fl64_def)

lemma rep64_fl64: "rep64 (fl64 x)"
proof -
  have pos: "rep64 (fl_pos y)" if "0 < y" for y
  proof -
    have "rne (y / 2 powi ulp_exp y) \<le> 2 ^ 53"
    proof -
      have "of_int (rne (y / 2 powi ulp_exp y)) * 2 powi ulp_exp y \<le> of_int (2 ^ 53) * (2::rat) powi ulp_exp y"
        using fl_pos_binade(1) [OF that] by (simp add: fl_pos_def power_int_add mult.commute)
      then have "of_int (rne (y / 2 powi ulp_exp y)) \<le> (of_int (2 ^ 53) :: rat)"
        by (rule mult_right_le_imp_le) simp
      then show ?thesis by (simp only: of_int_le_iff)
    qed
    moreover have "0 \<le> rne (y / 2 powi ulp_exp y)" using that by (intro rne_nonneg) simp
    ultimately show ?thesis
      unfolding rep64_def fl_pos_def
      by (intro exI [of _ "rne (y / 2 powi ulp_exp y)"] exI [of _ "ulp_exp y"]) (simp add: ulp_exp_def)
  qed
  have "rep64 0" unfolding rep64_def by (intro exI [of _ 0]) auto
  with pos show ?thesis using rep64_minus by (auto simp: fl64_def)
qed

lemma fl64_idem [simp]: "fl64 (fl64 x) = fl64 x"
  by (simp add: fl64_rep rep64_fl64)

lemma rep64_of_int: "\<bar>n\<bar> \<le> 2 ^ 53 \<Longrightarrow> rep64 (of_int n)"
  unfolding rep64_def by (intro exI [of _ n] exI [of _ 0]) simp

lemma fl64_of_int: "\<bar>n\<bar> \<le> 2 ^ 53 \<Longrightarrow> fl64 (of_int n) = of_int n"
  by (simp add: fl64_rep rep64_of_int)

lemma fl64_1 [simp]: "fl64 1 = 1"
  using fl64_of_int [of 1] by simp

lemma fl64_le_rep: "x \<le> y \<Longrightarrow> rep64 y \<Longrightarrow> fl64 x \<le> y"
  using fl64_mono [of x y] fl64_rep [of y] by simp

lemma fl64_ge_rep: "y \<le> x \<Longrightarrow> rep64 y \<Longrightarrow> y \<le> fl64 x"
  using fl64_mono [of y x] fl64_rep [of y] by simp

lemma i2f_mono: "m \<le> n \<Longrightarrow> i2f m \<le> i2f n"
  by (simp add: i2f_def fl64_mono)

lemma i2f_0 [simp]: "i2f 0 = 0" by (simp add: i2f_def)

lemma i2f_nonneg: "0 \<le> n \<Longrightarrow> 0 \<le> i2f n"
  by (simp add: i2f_def fl64_nonneg)

lemma i2f_exact: "\<bar>n\<bar> \<le> 2 ^ 53 \<Longrightarrow> i2f n = of_int n"
  by (simp add: i2f_def fl64_of_int)

lemma rep64_i2f: "rep64 (i2f n)"
  by (simp add: i2f_def rep64_fl64)

lemma f2i64_range: "min_i64 \<le> f2i64 ar x \<and> f2i64 ar x \<le> max_i64"
  by (auto simp: f2i64_def Let_def min_i64_def max_i64_def split: goarch.splits)

lemma Seconds_nonneg: "0 \<le> d \<Longrightarrow> 0 \<le> Seconds d"
proof -
  assume "0 \<le> d"
  then have "0 \<le> d div second" "0 \<le> d - d div second * second"
    by (simp_all add: pos_imp_zdiv_nonneg_iff minus_div_mult_eq_mod)
  then show ?thesis
    using \<open>0 \<le> d\<close> by (simp add: Seconds_def Let_def fl64_nonneg i2f_nonneg)
qed

end
