(* ===== verification/Cc.thy ===== *)
theory Cc
  imports Float64
begin

text \<open>
  Per-path congestion control, \<^verbatim>\<open>core/cc/cc.go\<close>: a ring of delivery-rate samples whose maximum, times the
  minimum round-trip time and a fixed gain, is the congestion window. The ring is shown to hold the most
  recent samples, and the window to stay within its bounds.
\<close>

section \<open>State and operations\<close>

definition Gain :: rat where "Gain = 2"
definition btlBwWindow :: nat where "btlBwWindow = 10"
definition minCWND :: int where "minCWND = 8 * 1500"
definition maxCWND :: int where "maxCWND = 64 * 1024 * 1024"
definition initialCWND :: int where "initialCWND = 4 * 1024 * 1024"

record Controller =
  cc_samples :: "rat list"
  cc_filled :: nat
  cc_next :: nat
  cc_cwnd :: int

definition NewController :: Controller where
  "NewController = \<lparr> cc_samples = replicate btlBwWindow 0, cc_filled = 0, cc_next = 0, cc_cwnd = initialCWND \<rparr>"

text \<open>The loop both \<^verbatim>\<open>Sample\<close> and \<^verbatim>\<open>DeliveryRate\<close> run over the first \<open>filled\<close> entries.\<close>

fun max_loop :: "rat list \<Rightarrow> nat \<Rightarrow> nat \<Rightarrow> rat \<Rightarrow> rat" where
  "max_loop samples i 0 btlBw = btlBw"
| "max_loop samples i (Suc k) btlBw =
     max_loop samples (Suc i) k (if samples ! i > btlBw then samples ! i else btlBw)"

definition bps_of :: "int \<Rightarrow> duration \<Rightarrow> rat" where
  "bps_of bytesDelivered elapsed = fl64 (i2f bytesDelivered / Seconds elapsed)"

definition Sample :: "goarch \<Rightarrow> int \<Rightarrow> duration \<Rightarrow> duration \<Rightarrow> Controller \<Rightarrow> Controller" where
  "Sample ar bytesDelivered elapsed rtProp c =
     (if elapsed \<le> 0 \<or> rtProp \<le> 0 then c
      else let bps = bps_of bytesDelivered elapsed;
               c = c\<lparr>cc_samples := (cc_samples c)[cc_next c := bps]\<rparr>;
               c = c\<lparr>cc_next := (cc_next c + 1) mod btlBwWindow\<rparr>;
               c = (if cc_filled c < btlBwWindow then c\<lparr>cc_filled := cc_filled c + 1\<rparr> else c);
               btlBw = max_loop (cc_samples c) 0 (cc_filled c) 0;
               cwnd = f2i64 ar (fl64 (fl64 (btlBw * Seconds rtProp) * Gain));
               cwnd = (if cwnd < minCWND then minCWND else cwnd);
               cwnd = (if cwnd > maxCWND then maxCWND else cwnd)
           in c\<lparr>cc_cwnd := cwnd\<rparr>)"

definition CWND :: "Controller \<Rightarrow> int" where "CWND c = cc_cwnd c"

definition DeliveryRate :: "Controller \<Rightarrow> rat" where
  "DeliveryRate c = max_loop (cc_samples c) 0 (cc_filled c) 0"

section \<open>The ring\<close>

text \<open>An observation: bytes delivered, elapsed time, minimum round-trip time.\<close>

type_synonym obs = "int \<times> duration \<times> duration"

definition cc_step :: "goarch \<Rightarrow> Controller \<Rightarrow> obs \<Rightarrow> Controller" where
  "cc_step ar c ob = (case ob of (b, el, rt) \<Rightarrow> Sample ar b el rt c)"

definition rates :: "obs list \<Rightarrow> rat list" where
  "rates obs = [bps_of b el. (b, el, rt) \<leftarrow> obs, 0 < el \<and> 0 < rt]"

definition recent :: "nat \<Rightarrow> 'a list \<Rightarrow> 'a list" where
  "recent n xs = drop (length xs - n) xs"

text \<open>After the rates \<open>xs\<close>, entry \<open>j mod 10\<close> holds the \<open>j\<close>-th rate for each of the ten most recent \<open>j\<close>.\<close>

definition ring_inv :: "rat list \<Rightarrow> Controller \<Rightarrow> bool" where
  "ring_inv xs c \<longleftrightarrow> length (cc_samples c) = 10 \<and> cc_filled c = min 10 (length xs) \<and>
     cc_next c = length xs mod 10 \<and>
     (\<forall>j < length xs. length xs \<le> j + 10 \<longrightarrow> cc_samples c ! (j mod 10) = xs ! j)"

lemma Max_insert_max: "finite S \<Longrightarrow> Max (insert (max a b) S) = Max (insert a (insert b S))" for a :: "'a::linorder"
  by (cases "S = {}") (auto simp: max.assoc)

lemma max_loop_eq: "max_loop xs i k b = Max (insert b ((!) xs ` {i..<i + k}))"
proof (induction k arbitrary: i b)
  case (Suc k)
  have "{i..<i + Suc k} = insert i {Suc i..<Suc i + k}" by auto
  moreover have "(if xs ! i > b then xs ! i else b) = max b (xs ! i)" by (simp add: max_def)
  ultimately show ?case by (simp only: max_loop.simps Suc.IH image_insert) (simp add: Max_insert_max del: Max_insert)
qed simp

lemma set_recent: "set (recent n xs) = (!) xs ` {j. j < length xs \<and> length xs \<le> j + n}"
proof -
  have "set (recent n xs) = (!) xs ` {length xs - n..<length xs}"
  proof -
    have "recent n xs = map ((!) xs) [length xs - n..<length xs]"
      by (rule nth_equalityI) (simp_all add: recent_def)
    then show ?thesis by simp
  qed
  also have "{length xs - n..<length xs} = {j. j < length xs \<and> length xs \<le> j + n}" by auto
  finally show ?thesis .
qed

lemma residue_recent: "i < min 10 k \<Longrightarrow> \<exists>j. j < k \<and> k \<le> j + 10 \<and> j mod 10 = i" for i k :: nat
  by (rule exI [of _ "i + 10 * ((k - 1 - i) div 10)"]) auto

lemma ring_image:
  assumes "ring_inv xs c"
  shows "(!) (cc_samples c) ` {0..<cc_filled c} = set (recent 10 xs)"
proof -
  have "(!) (cc_samples c) ` {0..<cc_filled c} = (\<lambda>j. cc_samples c ! (j mod 10)) ` {j. j < length xs \<and> length xs \<le> j + 10}"
  proof -
    have "{0..<cc_filled c} = (\<lambda>j. j mod 10) ` {j. j < length xs \<and> length xs \<le> j + 10}"
      using assms residue_recent [of _ "length xs"]
      by (fastforce simp: ring_inv_def image_iff)
    then show ?thesis by (simp add: image_image)
  qed
  also have "\<dots> = (!) xs ` {j. j < length xs \<and> length xs \<le> j + 10}"
    using assms by (intro image_cong) (auto simp: ring_inv_def)
  finally show ?thesis by (simp add: set_recent)
qed

lemma ring_inv_new: "ring_inv [] NewController"
  by (simp add: ring_inv_def NewController_def btlBwWindow_def)

lemma ring_inv_Sample:
  assumes "ring_inv xs c" and "0 < el" and "0 < rt"
  shows "ring_inv (xs @ [bps_of b el]) (Sample ar b el rt c)"
proof -
  have "cc_samples (Sample ar b el rt c) = (cc_samples c)[length xs mod 10 := bps_of b el]"
    "cc_next (Sample ar b el rt c) = (length xs mod 10 + 1) mod 10"
    "cc_filled (Sample ar b el rt c) = min 10 (length xs + 1)"
    using assms by (auto simp: Sample_def Let_def ring_inv_def btlBwWindow_def)
  moreover have "(cc_samples c)[length xs mod 10 := bps_of b el] ! (j mod 10) = (xs @ [bps_of b el]) ! j"
    if "j < Suc (length xs)" "Suc (length xs) \<le> j + 10" for j
  proof (cases "j = length xs")
    case True
    then show ?thesis using assms(1) by (simp add: ring_inv_def)
  next
    case False
    then have "j < length xs" "length xs < j + 10" using that by simp_all
    then have "j mod 10 \<noteq> length xs mod 10"
      using mod_eq_dvd_iff_nat [of j "length xs" 10] dvd_imp_le [of 10 "length xs - j"] by auto
    with False that assms(1) show ?thesis by (simp add: ring_inv_def nth_append)
  qed
  ultimately show ?thesis using assms(1) by (simp add: ring_inv_def mod_Suc_eq)
qed

lemma ring_run: "ring_inv (rates obs) (foldl (cc_step ar) NewController obs)"
proof (induction obs rule: rev_induct)
  case Nil
  then show ?case by (simp add: rates_def ring_inv_new)
next
  case (snoc ob obs)
  obtain b el rt where ob: "ob = (b, el, rt)" by (cases ob)
  show ?case
  proof (cases "0 < el \<and> 0 < rt")
    case True
    then have "rates (obs @ [ob]) = rates obs @ [bps_of b el]" by (simp add: rates_def ob)
    with True ring_inv_Sample [OF snoc] show ?thesis by (simp add: cc_step_def ob)
  next
    case False
    then have "rates (obs @ [ob]) = rates obs" by (auto simp: rates_def ob)
    moreover have "Sample ar b el rt c = c" for c using False by (auto simp: Sample_def)
    ultimately show ?thesis using snoc by (simp add: cc_step_def ob)
  qed
qed

definition cwnd_ok :: "Controller \<Rightarrow> bool" where
  "cwnd_ok c \<longleftrightarrow> minCWND \<le> cc_cwnd c \<and> cc_cwnd c \<le> maxCWND"

interpretation ccw: step_system "cc_step ar" cwnd_ok "\<lambda>_. True" for ar
  by unfold_locales (auto simp: cc_step_def Sample_def Let_def cwnd_ok_def minCWND_def maxCWND_def split: prod.splits)

lemma cwnd_ok_new: "cwnd_ok NewController"
  by (simp add: cwnd_ok_def NewController_def initialCWND_def minCWND_def maxCWND_def)

section \<open>Properties\<close>

text \<open>C28. The delivery-rate estimate is the maximum of zero and the ten most recent usable samples, whatever came
  before: a stalled path's old rate ages out after ten more samples.\<close>

theorem delivery_rate_windowed_max:
  "DeliveryRate (foldl (cc_step ar) NewController obs) = Max (insert 0 (set (recent 10 (rates obs))))"
  using ring_image [OF ring_run] by (simp only: DeliveryRate_def max_loop_eq add_0)

text \<open>Whatever samples are fed, wild ones included, the congestion window stays between 12000 bytes and
  64 MiB, so no path is ever starved to zero and none is unbounded.\<close>

theorem cwnd_bounded:
  "12000 \<le> CWND (foldl (cc_step ar) NewController obs) \<and>
   CWND (foldl (cc_step ar) NewController obs) \<le> 67108864"
  using ccw.inv_run [OF cwnd_ok_new, of obs ar]
  by (simp add: list_all_iff cwnd_ok_def CWND_def minCWND_def maxCWND_def)

end
