(* ===== verification/Sched.thy ===== *)
theory Sched
  imports Float64
begin

text \<open>
  The scheduler ladder, package \<^verbatim>\<open>core/sched\<close>: round robin, weighted by goodput, minimum round-trip time
  with congestion window, and head-of-line aware. A path is the snapshot a scheduler reads through the
  \<^verbatim>\<open>Path\<close> interface during one call. The contract all four promise their callers is the locale
  \<open>scheduler\<close>; the first three are also \<open>work_conserving\<close>.
\<close>

section \<open>Paths\<close>

datatype state = StateJoining | StateActive | StateDegraded | StateDead

datatype role = RoleBond | RoleBackup | RoleDisabled

fun State_String :: "state \<Rightarrow> string" where
  "State_String StateJoining = ''JOINING''"
| "State_String StateActive = ''ACTIVE''"
| "State_String StateDegraded = ''DEGRADED''"
| "State_String StateDead = ''DEAD''"

fun Role_String :: "role \<Rightarrow> string" where
  "Role_String RoleBond = ''BOND''"
| "Role_String RoleBackup = ''BACKUP''"
| "Role_String RoleDisabled = ''DISABLED''"

record spath =
  sp_ID :: u8
  sp_State :: state
  sp_Role :: role
  sp_InFlight :: int
  sp_CWND :: int
  sp_RTTMin :: duration
  sp_Goodput :: rat

definition sendable :: "spath \<Rightarrow> bool" where
  "sendable p \<longleftrightarrow> sp_State p = StateActive \<and> sp_Role p = RoleBond \<and> sp_InFlight p < sp_CWND p"

definition eligiblePaths :: "spath list \<Rightarrow> spath list" where
  "eligiblePaths paths =
     filter (\<lambda>p. sp_State p = StateActive \<and> sp_Role p = RoleBond \<and> sp_InFlight p < sp_CWND p) paths"

definition activeBondPaths :: "spath list \<Rightarrow> spath list" where
  "activeBondPaths paths = filter (\<lambda>p. sp_State p = StateActive \<and> sp_Role p = RoleBond) paths"

section \<open>Tier 1: round robin\<close>

record RoundRobin =
  rr_cursor :: nat

definition NewRoundRobin :: RoundRobin where "NewRoundRobin = \<lparr> rr_cursor = 0 \<rparr>"

text \<open>The rotation shared by tiers 1 and 4: the first path from the cursor on that passes the test, with the
  advanced cursor. \<open>k\<close> counts the iterations left.\<close>

fun rotate_loop :: "(spath \<Rightarrow> bool) \<Rightarrow> spath list \<Rightarrow> nat \<Rightarrow> nat \<Rightarrow> nat \<Rightarrow> (spath \<times> nat) option" where
  "rotate_loop ok paths cursor i 0 = None"
| "rotate_loop ok paths cursor i (Suc k) =
     (let n = length paths; idx = (cursor + i) mod n; p = paths ! idx
      in if ok p then Some (p, if idx + 1 \<ge> n then 0 else idx + 1)
         else rotate_loop ok paths cursor (i + 1) k)"

definition RoundRobin_Next :: "RoundRobin \<Rightarrow> spath list \<Rightarrow> int \<Rightarrow> spath option \<times> RoundRobin" where
  "RoundRobin_Next r paths sz =
     (let n = length paths
      in if n = 0 then (None, r)
         else case rotate_loop (\<lambda>p. sp_State p = StateActive \<and> sp_Role p = RoleBond \<and> sp_InFlight p < sp_CWND p)
                     paths (rr_cursor r) 0 n of
                Some (p, cursor) \<Rightarrow> (Some p, r\<lparr>rr_cursor := cursor\<rparr>)
              | None \<Rightarrow> (None, r))"

section \<open>Tier 2: weighted by goodput\<close>

record WeightedGoodput =
  wg_currentWeight :: "u8 \<rightharpoonup> rat"

definition NewWeightedGoodput :: WeightedGoodput where
  "NewWeightedGoodput = \<lparr> wg_currentWeight = Map.empty \<rparr>"

definition map_get :: "(u8 \<rightharpoonup> rat) \<Rightarrow> u8 \<Rightarrow> rat" where
  "map_get m k = (case m k of None \<Rightarrow> 0 | Some v \<Rightarrow> v)"

fun min_goodput :: "spath list \<Rightarrow> rat \<Rightarrow> rat" where
  "min_goodput [] minGoodput = minGoodput"
| "min_goodput (p # ps) minGoodput =
     (let g = sp_Goodput p
      in min_goodput ps (if g > 0 \<and> (minGoodput = 0 \<or> g < minGoodput) then g else minGoodput))"

definition weightOf :: "rat \<Rightarrow> spath \<Rightarrow> rat" where
  "weightOf minGoodput p =
     (let g = sp_Goodput p in if minGoodput \<le> 0 \<or> g \<le> 0 then 1 else fl64 (g / minGoodput))"

fun wg_loop :: "rat \<Rightarrow> spath list \<Rightarrow> (u8 \<rightharpoonup> rat) \<Rightarrow> rat \<Rightarrow> spath option \<Rightarrow> rat \<Rightarrow>
    (u8 \<rightharpoonup> rat) \<times> rat \<times> spath option" where
  "wg_loop mg [] w totalWeight best bestCW = (w, totalWeight, best)"
| "wg_loop mg (p # ps) w totalWeight best bestCW =
     (let wt = weightOf mg p;
          cw = fl64 (map_get w (sp_ID p) + wt);
          w = w(sp_ID p \<mapsto> cw);
          totalWeight = fl64 (totalWeight + wt)
      in if best = None \<or> cw > bestCW then wg_loop mg ps w totalWeight (Some p) cw
         else wg_loop mg ps w totalWeight best bestCW)"

definition WeightedGoodput_Next :: "WeightedGoodput \<Rightarrow> spath list \<Rightarrow> int \<Rightarrow> spath option \<times> WeightedGoodput" where
  "WeightedGoodput_Next s paths sz =
     (let elig = eligiblePaths paths
      in if length elig = 0 then (None, s)
         else let mg = min_goodput elig 0
              in case wg_loop mg elig (wg_currentWeight s) 0 None 0 of
                   (w, totalWeight, Some best) \<Rightarrow>
                     (Some best, s\<lparr>wg_currentWeight := w(sp_ID best \<mapsto> fl64 (map_get w (sp_ID best) - totalWeight))\<rparr>)
                 | (w, totalWeight, None) \<Rightarrow> (None, s\<lparr>wg_currentWeight := w\<rparr>))"

section \<open>Tier 3: minimum RTT with congestion window\<close>

definition unmeasuredRTT :: duration where "unmeasuredRTT = max_i64"
definition tieRTTMin :: duration where "tieRTTMin = 2 * millisecond"

definition rtt_of :: "spath \<Rightarrow> duration" where
  "rtt_of p = (if sp_RTTMin p \<le> 0 then unmeasuredRTT else sp_RTTMin p)"

fun fastest_loop :: "spath list \<Rightarrow> duration \<Rightarrow> duration" where
  "fastest_loop [] fastest = fastest"
| "fastest_loop (p # ps) fastest = fastest_loop ps (if rtt_of p < fastest then rtt_of p else fastest)"

text \<open>The constant \<^verbatim>\<open>tieRTTFactor - 1\<close> is exact until it meets a float.\<close>

definition fastestTiedSet :: "goarch \<Rightarrow> spath list \<Rightarrow> duration \<times> spath list" where
  "fastestTiedSet ar paths =
     (let fastest = fastest_loop paths unmeasuredRTT;
          window = (if fastest < unmeasuredRTT
                    then let w = f2i64 ar (fl64 (i2f fastest * fl64 (15 / 100)))
                         in if w < tieRTTMin then tieRTTMin else w
                    else 0);
          primary = filter (\<lambda>p. fastest \<ge> unmeasuredRTT \<or> rtt_of p \<le> i64 (fastest + window)) paths
      in (fastest, primary))"

definition pathIn :: "spath list \<Rightarrow> spath \<Rightarrow> bool" where
  "pathIn ps p = list_ex (\<lambda>q. sp_ID q = sp_ID p) ps"

record MinRTTCwnd =
  mr_cursor :: nat

definition NewMinRTTCwnd :: MinRTTCwnd where "NewMinRTTCwnd = \<lparr> mr_cursor = 0 \<rparr>"

definition MinRTTCwnd_Next :: "goarch \<Rightarrow> MinRTTCwnd \<Rightarrow> spath list \<Rightarrow> int \<Rightarrow> spath option \<times> MinRTTCwnd" where
  "MinRTTCwnd_Next ar m paths sz =
     (let elig = eligiblePaths paths
      in if length elig = 0 then (None, m)
         else let (_, primary) = fastestTiedSet ar elig
              in if length primary = 0 then (None, m)
                 else let n = length primary;
                          cursor = (if mr_cursor m \<ge> n then 0 else mr_cursor m)
                      in (Some (primary ! cursor), m\<lparr>mr_cursor := (cursor + 1) mod n\<rparr>))"

section \<open>Tier 4: head-of-line aware\<close>

record HoLAware =
  ha_lambda :: rat
  ha_cursor :: nat

definition NewHoLAware :: HoLAware where "NewHoLAware = \<lparr> ha_lambda = 1, ha_cursor = 0 \<rparr>"

definition hol_decay :: "HoLAware \<Rightarrow> HoLAware" where
  "hol_decay h = (let l = fl64 (ha_lambda h * fl64 (98 / 100)) in h\<lparr>ha_lambda := (if l < 1 / 2 then 1 / 2 else l)\<rparr>)"

definition hol_raise :: "HoLAware \<Rightarrow> HoLAware" where
  "hol_raise h = (let l = fl64 (ha_lambda h * fl64 (115 / 100)) in h\<lparr>ha_lambda := (if l > 4 then 4 else l)\<rparr>)"

fun slow_loop :: "spath list \<Rightarrow> spath list \<Rightarrow> spath option \<Rightarrow> duration \<Rightarrow> spath option \<times> duration" where
  "slow_loop primary [] slow slowRTT = (slow, slowRTT)"
| "slow_loop primary (p # ps) slow slowRTT =
     (if pathIn primary p then slow_loop primary ps slow slowRTT
      else if sp_InFlight p \<ge> sp_CWND p then slow_loop primary ps slow slowRTT
      else if slow = None \<or> rtt_of p < slowRTT then slow_loop primary ps (Some p) (rtt_of p)
      else slow_loop primary ps slow slowRTT)"

definition HoLAware_Next :: "goarch \<Rightarrow> HoLAware \<Rightarrow> spath list \<Rightarrow> int \<Rightarrow> spath option \<times> HoLAware" where
  "HoLAware_Next ar h paths sz =
     (let bond = activeBondPaths paths
      in if length bond = 0 then (None, h)
         else let (fastestRTT, primary) = fastestTiedSet ar bond;
                  n = length primary;
                  h = (if n > 0 \<and> ha_cursor h \<ge> n then h\<lparr>ha_cursor := 0\<rparr> else h)
              in case rotate_loop (\<lambda>p. sp_InFlight p < sp_CWND p) primary (ha_cursor h) 0 n of
                   Some (p, cursor) \<Rightarrow> (Some p, hol_decay (h\<lparr>ha_cursor := cursor\<rparr>))
                 | None \<Rightarrow>
                   (case slow_loop primary bond None unmeasuredRTT of
                      (None, _) \<Rightarrow> (None, h)
                    | (Some slow, slowRTT) \<Rightarrow>
                        if fastestRTT \<ge> unmeasuredRTT then (Some slow, hol_decay h)
                        else let projectedSlow = f2i64 ar (fl64 (ha_lambda h * i2f slowRTT))
                             in if projectedSlow \<le> fastestRTT then (Some slow, hol_decay h)
                                else (None, hol_raise h)))"

section \<open>The scheduler chosen by name\<close>

datatype scheduler = SRoundRobin RoundRobin | SWeightedGoodput WeightedGoodput
  | SMinRTTCwnd MinRTTCwnd | SHoLAware HoLAware

definition sched_New :: "string \<Rightarrow> scheduler option" where
  "sched_New name =
     (if name = '''' \<or> name = ''round-robin'' then Some (SRoundRobin NewRoundRobin)
      else if name = ''weighted-goodput'' then Some (SWeightedGoodput NewWeightedGoodput)
      else if name = ''min-rtt-cwnd'' then Some (SMinRTTCwnd NewMinRTTCwnd)
      else if name = ''hol-aware'' then Some (SHoLAware NewHoLAware)
      else None)"

fun sched_Name :: "scheduler \<Rightarrow> string" where
  "sched_Name (SRoundRobin _) = ''round-robin''"
| "sched_Name (SWeightedGoodput _) = ''weighted-goodput''"
| "sched_Name (SMinRTTCwnd _) = ''min-rtt-cwnd''"
| "sched_Name (SHoLAware _) = ''hol-aware''"

fun sched_Next :: "goarch \<Rightarrow> scheduler \<Rightarrow> spath list \<Rightarrow> int \<Rightarrow> spath option \<times> scheduler" where
  "sched_Next ar (SRoundRobin s) paths sz = (let (p, s) = RoundRobin_Next s paths sz in (p, SRoundRobin s))"
| "sched_Next ar (SWeightedGoodput s) paths sz = (let (p, s) = WeightedGoodput_Next s paths sz in (p, SWeightedGoodput s))"
| "sched_Next ar (SMinRTTCwnd s) paths sz = (let (p, s) = MinRTTCwnd_Next ar s paths sz in (p, SMinRTTCwnd s))"
| "sched_Next ar (SHoLAware s) paths sz = (let (p, s) = HoLAware_Next ar s paths sz in (p, SHoLAware s))"

section \<open>The scheduler contract\<close>

text \<open>What a sender may rely on: a chosen path is one of those offered, active, in the bond and with room in its
  congestion window.\<close>

locale path_scheduler =
  fixes nxt :: "'s \<Rightarrow> spath list \<Rightarrow> int \<Rightarrow> spath option \<times> 's"
  assumes chosen: "fst (nxt s paths sz) = Some p \<Longrightarrow> p \<in> set paths \<and> sendable p"
begin

lemma none_if_blocked: "\<not> list_ex sendable paths \<Longrightarrow> fst (nxt s paths sz) = None"
  using chosen [of s paths sz] by (cases "fst (nxt s paths sz)") (auto simp: list_ex_iff)

end

text \<open>A work-conserving scheduler never idles while a path could send, on path sets satisfying \<open>wf\<close>.\<close>

locale work_conserving = path_scheduler +
  fixes wf :: "spath list \<Rightarrow> bool"
  assumes busy: "wf paths \<Longrightarrow> p \<in> set paths \<Longrightarrow> sendable p \<Longrightarrow> fst (nxt s paths sz) \<noteq> None"
begin

lemma some_iff: "wf paths \<Longrightarrow> fst (nxt s paths sz) \<noteq> None \<longleftrightarrow> list_ex sendable paths"
  using none_if_blocked busy by (metis list_ex_iff)

end

section \<open>Rotation\<close>

lemma rotate_SomeD:
  assumes "rotate_loop ok ps c i k = Some (p, c')"
  shows "\<exists>j. i \<le> j \<and> j < i + k \<and> p = ps ! ((c + j) mod length ps) \<and> ok p \<and>
     c' = (if (c + j) mod length ps + 1 \<ge> length ps then 0 else (c + j) mod length ps + 1) \<and>
     (\<forall>j'. i \<le> j' \<longrightarrow> j' < j \<longrightarrow> \<not> ok (ps ! ((c + j') mod length ps)))"
  using assms
proof (induction k arbitrary: i)
  case (Suc k)
  show ?case
  proof (cases "ok (ps ! ((c + i) mod length ps))")
    case True
    with Suc.prems show ?thesis by (intro exI [of _ i]) (auto simp: Let_def)
  next
    case False
    with Suc.prems have "rotate_loop ok ps c (i + 1) k = Some (p, c')" by (simp add: Let_def)
    from Suc.IH [OF this] obtain j where j: "i + 1 \<le> j" "j < i + 1 + k" "p = ps ! ((c + j) mod length ps)" "ok p"
      "c' = (if (c + j) mod length ps + 1 \<ge> length ps then 0 else (c + j) mod length ps + 1)"
      "\<forall>j'. i + 1 \<le> j' \<longrightarrow> j' < j \<longrightarrow> \<not> ok (ps ! ((c + j') mod length ps))" by blast
    have "\<forall>j'. i \<le> j' \<longrightarrow> j' < j \<longrightarrow> \<not> ok (ps ! ((c + j') mod length ps))"
      using j(6) False by (metis Suc_eq_plus1 Suc_leI le_neq_implies_less)
    with j show ?thesis by (intro exI [of _ j]) auto
  qed
qed simp

lemma rotate_NoneD:
  "rotate_loop ok ps c i k = None \<Longrightarrow> i \<le> j \<Longrightarrow> j < i + k \<Longrightarrow> \<not> ok (ps ! ((c + j) mod length ps))"
proof (induction k arbitrary: i)
  case (Suc k)
  then have "\<not> ok (ps ! ((c + i) mod length ps))" and "rotate_loop ok ps c (i + 1) k = None"
    by (auto simp: Let_def split: if_splits)
  with Suc.IH [of "i + 1"] Suc.prems show ?case by (cases "j = i") auto
qed simp

lemma rotation_reaches: "idx < n \<Longrightarrow> \<exists>j < n. (c + j) mod n = idx" for c :: nat
proof (rule exI [of _ "(idx + n - c mod n) mod n"], intro conjI)
  assume i: "idx < n"
  then have c: "c mod n < n" by simp
  show "(idx + n - c mod n) mod n < n" using i by simp
  have "(c + (idx + n - c mod n) mod n) mod n = (c mod n + (idx + n - c mod n)) mod n" by presburger
  also have "c mod n + (idx + n - c mod n) = idx + n" using c by simp
  finally show "(c + (idx + n - c mod n) mod n) mod n = idx" using i by simp
qed

lemma rotate_None_all:
  assumes "rotate_loop ok ps c 0 (length ps) = None" and "p \<in> set ps"
  shows "\<not> ok p"
proof -
  obtain idx where idx: "idx < length ps" "p = ps ! idx" using assms(2) by (auto simp: in_set_conv_nth)
  then obtain j where "j < length ps" "(c + j) mod length ps = idx" using rotation_reaches by blast
  with rotate_NoneD [OF assms(1), of j] idx show ?thesis by simp
qed

lemma rotate_Some_mem:
  assumes "rotate_loop ok ps c i (length ps) = Some (p, c')"
  shows "p \<in> set ps \<and> ok p"
proof -
  have "ps \<noteq> []" using assms by auto
  with rotate_SomeD [OF assms] show ?thesis by auto
qed

section \<open>The tiers meet the contract\<close>

lemma sendable_test: "(\<lambda>p. sp_State p = StateActive \<and> sp_Role p = RoleBond \<and> sp_InFlight p < sp_CWND p) = sendable"
  by (auto simp: sendable_def)

lemma eligiblePaths_eq: "eligiblePaths ps = filter sendable ps"
  by (simp add: eligiblePaths_def sendable_test)

lemma RoundRobin_Next_eq:
  "RoundRobin_Next r ps sz = (case rotate_loop sendable ps (rr_cursor r) 0 (length ps) of
     Some (p, c) \<Rightarrow> (Some p, r\<lparr>rr_cursor := c\<rparr>) | None \<Rightarrow> (None, r))"
  by (auto simp: RoundRobin_Next_def sendable_test)

interpretation rr: work_conserving RoundRobin_Next "\<lambda>_. True"
proof
  fix s ps sz p
  show "fst (RoundRobin_Next s ps sz) = Some p \<Longrightarrow> p \<in> set ps \<and> sendable p"
    using rotate_Some_mem [of sendable ps "rr_cursor s" 0 p]
    by (auto simp: RoundRobin_Next_eq split: option.splits)
  show "p \<in> set ps \<Longrightarrow> sendable p \<Longrightarrow> fst (RoundRobin_Next s ps sz) \<noteq> None"
    using rotate_None_all [of sendable ps "rr_cursor s" p]
    by (cases "rotate_loop sendable ps (rr_cursor s) 0 (length ps)") (auto simp: RoundRobin_Next_eq)
qed

lemma wg_loop_best:
  "snd (snd (wg_loop mg ps w t b cw)) = b \<or> (\<exists>p \<in> set ps. snd (snd (wg_loop mg ps w t b cw)) = Some p)"
proof (induction ps arbitrary: w t b cw)
  case (Cons p ps)
  define cw' w' t' where "cw' = fl64 (map_get w (sp_ID p) + weightOf mg p)" and "w' = w(sp_ID p \<mapsto> cw')"
    and "t' = fl64 (t + weightOf mg p)"
  note step = this
  have "wg_loop mg (p # ps) w t b cw =
      (if b = None \<or> cw' > cw then wg_loop mg ps w' t' (Some p) cw' else wg_loop mg ps w' t' b cw)"
    by (simp add: step Let_def)
  then show ?case using Cons.IH [of w' t' "Some p" cw'] Cons.IH [of w' t' b cw] by auto
qed simp

lemma wg_loop_some: "b \<noteq> None \<or> ps \<noteq> [] \<Longrightarrow> snd (snd (wg_loop mg ps w t b cw)) \<noteq> None"
  by (induction ps arbitrary: w t b cw) (simp_all add: Let_def)

interpretation wg: work_conserving WeightedGoodput_Next "\<lambda>_. True"
proof
  fix s :: WeightedGoodput and ps sz p
  let ?e = "eligiblePaths ps"
  obtain w t b where loop: "wg_loop (min_goodput ?e 0) ?e (wg_currentWeight s) 0 None 0 = (w, t, b)"
    by (rule prod_cases3)
  note best = wg_loop_best [of "min_goodput ?e 0" ?e "wg_currentWeight s" 0 None 0, unfolded loop]
    and some = wg_loop_some [of None ?e "min_goodput ?e 0" "wg_currentWeight s" 0 0, unfolded loop]
  show "fst (WeightedGoodput_Next s ps sz) = Some p \<Longrightarrow> p \<in> set ps \<and> sendable p"
  proof -
    assume "fst (WeightedGoodput_Next s ps sz) = Some p"
    then have "b = Some p" by (auto simp: WeightedGoodput_Next_def loop Let_def split: if_splits option.splits)
    with best show ?thesis by (auto simp: eligiblePaths_eq)
  qed
  show "p \<in> set ps \<Longrightarrow> sendable p \<Longrightarrow> fst (WeightedGoodput_Next s ps sz) \<noteq> None"
  proof -
    assume "p \<in> set ps" "sendable p"
    then have "?e \<noteq> []" by (auto simp: eligiblePaths_eq filter_empty_conv)
    with some show ?thesis by (auto simp: WeightedGoodput_Next_def loop Let_def)
  qed
qed

lemma fastest_loop_eq: "fastest_loop ps f = Min (insert f (rtt_of ` set ps))"
proof (induction ps arbitrary: f)
  case (Cons p ps)
  have "(if rtt_of p < f then rtt_of p else f) = min f (rtt_of p)" by auto
  moreover have "Min (insert (min f (rtt_of p)) (rtt_of ` set ps)) = Min (insert f (insert (rtt_of p) (rtt_of ` set ps)))"
    by (cases "set ps = {}") (auto simp: min.assoc)
  ultimately show ?case by (simp add: Cons.IH del: Min_insert)
qed simp

lemma fastest_loop_mem: "fastest_loop ps f = f \<or> (\<exists>p \<in> set ps. rtt_of p = fastest_loop ps f)"
proof -
  have "fastest_loop ps f \<in> insert f (rtt_of ` set ps)" unfolding fastest_loop_eq by (rule Min_in) auto
  then show ?thesis by auto
qed

text \<open>Round-trip times below \<open>2^60\<close> nanoseconds, some 36 years, keep the tie window from overflowing.\<close>

definition rtts_ok :: "spath list \<Rightarrow> bool" where
  "rtts_ok ps \<longleftrightarrow> (\<forall>p \<in> set ps. sp_RTTMin p \<le> 2 ^ 60)"

definition tie_window :: "goarch \<Rightarrow> duration \<Rightarrow> duration" where
  "tie_window ar fastest = max tieRTTMin (f2i64 ar (fl64 (i2f fastest * fl64 (15 / 100))))"

lemma rep64_pow: "rep64 (2 ^ 60)"
  unfolding rep64_def by (intro exI [of _ 1] exI [of _ 60]) simp

lemma tie_window_bounds:
  assumes "0 \<le> f" and "f \<le> 2 ^ 60"
  shows "tieRTTMin \<le> tie_window ar f" and "tie_window ar f \<le> 2 ^ 60"
proof -
  let ?x = "fl64 (i2f f * fl64 (15 / 100))"
  have "0 \<le> i2f f" "i2f f \<le> 2 ^ 60"
    using assms i2f_nonneg fl64_le_rep [OF _ rep64_pow, of "of_int f"]
    by (auto simp: i2f_def intro!: fl64_nonneg)
  moreover have "0 \<le> fl64 (15 / 100)" "fl64 (15 / 100) \<le> 1"
    using fl64_nonneg fl64_mono [of "15 / 100" 1] by simp_all
  ultimately have "0 \<le> i2f f * fl64 (15 / 100)" "i2f f * fl64 (15 / 100) \<le> 2 ^ 60"
    using mult_mono [of "i2f f" "2 ^ 60" "fl64 (15 / 100)" 1] by simp_all
  then have "0 \<le> ?x" "?x \<le> 2 ^ 60" using fl64_nonneg fl64_le_rep [OF _ rep64_pow] by blast+
  then have "0 \<le> trunc ?x" "trunc ?x \<le> 2 ^ 60" by (simp_all add: trunc_def floor_le_iff)
  then have "f2i64 ar ?x = trunc ?x" by (simp add: f2i64_def Let_def min_i64_def max_i64_def)
  with \<open>trunc ?x \<le> 2 ^ 60\<close> show "tie_window ar f \<le> 2 ^ 60" by (simp add: tie_window_def tieRTTMin_def)
  show "tieRTTMin \<le> tie_window ar f" by (simp add: tie_window_def)
qed

lemma fastestTiedSet_eq:
  "fastestTiedSet ar ps =
     (let f = fastest_loop ps unmeasuredRTT
      in (f, if f \<ge> unmeasuredRTT then ps else filter (\<lambda>p. rtt_of p \<le> i64 (f + tie_window ar f)) ps))"
  by (simp add: fastestTiedSet_def tie_window_def Let_def max_def)

lemma rtt_of_pos: "0 < rtt_of p"
  by (simp add: rtt_of_def unmeasuredRTT_def max_i64_def)

text \<open>What the tied set contains: the fastest paths, up to the tie window.\<close>

lemma fastestTiedSet_spec:
  assumes "rtts_ok ps" and "ps \<noteq> []" and "fastestTiedSet ar ps = (f, prim)"
  shows "prim \<noteq> []" and "set prim = {p \<in> set ps. f = unmeasuredRTT \<or> rtt_of p \<le> f + tie_window ar f}"
    and "\<forall>p \<in> set ps. f \<le> rtt_of p" and "f \<le> unmeasuredRTT"
proof -
  have f: "f = fastest_loop ps unmeasuredRTT" using assms(3) by (simp add: fastestTiedSet_eq Let_def)
  show le: "f \<le> unmeasuredRTT" and min: "\<forall>p \<in> set ps. f \<le> rtt_of p"
    by (simp_all add: f fastest_loop_eq)
  have "set prim = {p \<in> set ps. f = unmeasuredRTT \<or> rtt_of p \<le> f + tie_window ar f} \<and> prim \<noteq> []"
  proof (cases "f = unmeasuredRTT")
    case True
    with assms(2,3) f show ?thesis by (auto simp: fastestTiedSet_eq Let_def)
  next
    case False
    then obtain q where q: "q \<in> set ps" "rtt_of q = f" using fastest_loop_mem [of ps unmeasuredRTT] f by auto
    with False have "rtt_of q = sp_RTTMin q" by (auto simp: rtt_of_def split: if_splits)
    then have rng: "0 \<le> f" "f \<le> 2 ^ 60" using q assms(1) rtt_of_pos [of q] by (auto simp: rtts_ok_def)
    note w = tie_window_bounds [OF rng, of ar]
    have "i64 (f + tie_window ar f) = f + tie_window ar f"
      using w rng by (intro i64_id) (simp_all add: min_i64_def max_i64_def tieRTTMin_def)
    moreover have "prim = filter (\<lambda>p. rtt_of p \<le> i64 (f + tie_window ar f)) ps"
      using assms(3) f False le by (auto simp: fastestTiedSet_eq Let_def)
    moreover have "f \<le> f + tie_window ar f" using w(1) by (simp add: tieRTTMin_def)
    moreover have "q \<in> set prim" using calculation q by simp
    moreover from this have "prim \<noteq> []" by auto
    ultimately show ?thesis using False by auto
  qed
  then show "prim \<noteq> []" "set prim = {p \<in> set ps. f = unmeasuredRTT \<or> rtt_of p \<le> f + tie_window ar f}" by simp_all
qed

lemma fastestTiedSet_subset: "fastestTiedSet ar ps = (f, prim) \<Longrightarrow> set prim \<subseteq> set ps"
  by (auto simp: fastestTiedSet_def Let_def)

interpretation mr: work_conserving "MinRTTCwnd_Next ar" rtts_ok for ar
proof
  fix s :: MinRTTCwnd and ps sz p
  obtain f prim where ft: "fastestTiedSet ar (eligiblePaths ps) = (f, prim)" by fastforce
  show "fst (MinRTTCwnd_Next ar s ps sz) = Some p \<Longrightarrow> p \<in> set ps \<and> sendable p"
  proof -
    assume "fst (MinRTTCwnd_Next ar s ps sz) = Some p"
    then have "p \<in> set prim" by (auto simp: MinRTTCwnd_Next_def ft Let_def split: if_splits)
    then show ?thesis using fastestTiedSet_subset [OF ft] by (auto simp: eligiblePaths_eq)
  qed
  show "rtts_ok ps \<Longrightarrow> p \<in> set ps \<Longrightarrow> sendable p \<Longrightarrow> fst (MinRTTCwnd_Next ar s ps sz) \<noteq> None"
  proof -
    assume "rtts_ok ps" "p \<in> set ps" "sendable p"
    then have "rtts_ok (eligiblePaths ps)" "eligiblePaths ps \<noteq> []"
      by (auto simp: rtts_ok_def eligiblePaths_eq filter_empty_conv)
    with fastestTiedSet_spec(1) [OF this ft] show ?thesis by (simp add: MinRTTCwnd_Next_def ft Let_def)
  qed
qed

lemma slow_loop_spec:
  "slow_loop prim ps slow r = (slow', r') \<Longrightarrow>
     slow' = slow \<or> (\<exists>p \<in> set ps. slow' = Some p \<and> \<not> pathIn prim p \<and> sp_InFlight p < sp_CWND p)"
  by (induction prim ps slow r rule: slow_loop.induct) (auto split: if_splits)

interpretation ha: path_scheduler "HoLAware_Next ar" for ar
proof
  fix s :: HoLAware and ps sz p
  let ?b = "activeBondPaths ps"
  obtain f prim where ft: "fastestTiedSet ar ?b = (f, prim)" by fastforce
  obtain sl r where sl: "slow_loop prim ?b None unmeasuredRTT = (sl, r)" by fastforce
  have bond: "q \<in> set ps \<and> sendable q" if "q \<in> set ?b" "sp_InFlight q < sp_CWND q" for q
    using that by (auto simp: activeBondPaths_def sendable_def)
  assume "fst (HoLAware_Next ar s ps sz) = Some p"
  then have "(\<exists>c c'. rotate_loop (\<lambda>p. sp_InFlight p < sp_CWND p) prim c 0 (length prim) = Some (p, c')) \<or> sl = Some p"
    by (auto simp: HoLAware_Next_def ft sl Let_def split: if_splits option.splits) blast+
  then show "p \<in> set ps \<and> sendable p"
    using rotate_Some_mem [of "\<lambda>p. sp_InFlight p < sp_CWND p" prim] fastestTiedSet_subset [OF ft]
      slow_loop_spec [OF sl] bond by blast
qed

interpretation sn: path_scheduler "sched_Next ar" for ar
proof
  fix s ps sz p
  assume "fst (sched_Next ar s ps sz) = Some p"
  then show "p \<in> set ps \<and> sendable p"
    using rr.chosen wg.chosen mr.chosen ha.chosen by (cases s) (simp_all add: split_beta Let_def)
qed

section \<open>Fairness of the rotation\<close>

fun rr_calls :: "nat \<Rightarrow> RoundRobin \<Rightarrow> spath list \<Rightarrow> int \<Rightarrow> spath option list" where
  "rr_calls 0 r paths sz = []"
| "rr_calls (Suc k) r paths sz = (let (p, r) = RoundRobin_Next r paths sz in p # rr_calls k r paths sz)"

lemma rr_reaches:
  assumes "j < length ps" and "sendable (ps ! j)"
  shows "(rr_cursor r + d) mod length ps = j \<Longrightarrow> d < k \<Longrightarrow> Some (ps ! j) \<in> set (rr_calls k r ps sz)"
proof (induction d arbitrary: r k rule: less_induct)
  case (less d)
  let ?n = "length ps"
  obtain k' where k: "k = Suc k'" using less.prems(2) by (cases k) auto
  have "fst (RoundRobin_Next r ps sz) \<noteq> None" using rr.busy assms nth_mem by blast
  then obtain p c where rot: "rotate_loop sendable ps (rr_cursor r) 0 ?n = Some (p, c)"
    by (auto simp: RoundRobin_Next_eq split: option.splits)
  then have nx: "RoundRobin_Next r ps sz = (Some p, r\<lparr>rr_cursor := c\<rparr>)" by (simp add: RoundRobin_Next_eq)
  obtain i where i: "p = ps ! ((rr_cursor r + i) mod ?n)"
    "c = (if (rr_cursor r + i) mod ?n + 1 \<ge> ?n then 0 else (rr_cursor r + i) mod ?n + 1)"
    "\<forall>j'. j' < i \<longrightarrow> \<not> sendable (ps ! ((rr_cursor r + j') mod ?n))"
    using rotate_SomeD [OF rot] by auto
  have "i \<le> d" using i(3) less.prems(1) assms(2) by (metis linorder_not_less)
  show ?case
  proof (cases "i = d")
    case True
    with i(1) less.prems(1) nx k show ?thesis by simp
  next
    case False
    with \<open>i \<le> d\<close> have lt: "i < d" by simp
    have n0: "0 < ?n" using assms(1) by linarith
    have "c mod ?n = (rr_cursor r + i + 1) mod ?n"
      using i(2) mod_less_divisor [OF n0, of "rr_cursor r + i"]
      by (auto simp: mod_Suc)
    then have "(c + (d - i - 1)) mod ?n = (rr_cursor r + i + 1 + (d - i - 1)) mod ?n"
      by (metis mod_add_left_eq)
    also have "rr_cursor r + i + 1 + (d - i - 1) = rr_cursor r + d" using lt by simp
    finally have "(rr_cursor (r\<lparr>rr_cursor := c\<rparr>) + (d - i - 1)) mod ?n = j" using less.prems(1) by simp
    then have "Some (ps ! j) \<in> set (rr_calls k' (r\<lparr>rr_cursor := c\<rparr>) ps sz)"
      by (rule less.IH [rotated]) (use lt less.prems(2) k in auto)
    then show ?thesis by (simp add: k nx)
  qed
qed

section \<open>The head-of-line rule\<close>

definition lambda_ok :: "HoLAware \<Rightarrow> bool" where
  "lambda_ok h \<longleftrightarrow> 1 / 2 \<le> ha_lambda h \<and> ha_lambda h \<le> 4"

lemma rep64_4: "rep64 4" and rep64_half: "rep64 (1 / 2)"
  using rep64_of_int [of 4] unfolding rep64_def by (simp_all, intro exI [of _ 1] exI [of _ "-1"]) auto

lemma lambda_ok_decay: "lambda_ok h \<Longrightarrow> lambda_ok (hol_decay h)"
proof -
  assume ok: "lambda_ok h"
  have "fl64 (98 / 100) \<le> 1" using fl64_mono [of "98 / 100" 1] by simp
  then have "ha_lambda h * fl64 (98 / 100) \<le> 4"
    using ok mult_mono [of "ha_lambda h" 4 "fl64 (98 / 100)" 1] by (simp add: lambda_ok_def fl64_nonneg)
  then have "fl64 (ha_lambda h * fl64 (98 / 100)) \<le> 4" using rep64_4 by (rule fl64_le_rep)
  then show ?thesis by (simp add: lambda_ok_def hol_decay_def Let_def)
qed

lemma lambda_ok_raise: "lambda_ok h \<Longrightarrow> lambda_ok (hol_raise h)"
proof -
  assume ok: "lambda_ok h"
  have "1 \<le> fl64 (115 / 100)" using fl64_mono [of 1 "115 / 100"] by simp
  then have "1 / 2 \<le> ha_lambda h * fl64 (115 / 100)"
    using ok mult_mono [of "1 / 2" "ha_lambda h" 1 "fl64 (115 / 100)"] by (simp add: lambda_ok_def)
  then have "1 / 2 \<le> fl64 (ha_lambda h * fl64 (115 / 100))" using rep64_half by (rule fl64_ge_rep)
  then show ?thesis by (simp add: lambda_ok_def hol_raise_def Let_def)
qed

lemma lambda_ok_cursor: "lambda_ok h \<Longrightarrow> lambda_ok (h\<lparr>ha_cursor := c\<rparr>)"
  by (simp add: lambda_ok_def)

lemmas lambda_ok_intros = lambda_ok_decay lambda_ok_raise lambda_ok_cursor

interpretation hal: step_system "\<lambda>h (ps, sz). snd (HoLAware_Next ar h ps sz)" lambda_ok "\<lambda>_. True" for ar
proof
  fix h :: HoLAware and e :: "spath list \<times> int"
  assume "lambda_ok h"
  then show "lambda_ok (case e of (ps, sz) \<Rightarrow> snd (HoLAware_Next ar h ps sz))"
    by (auto simp: HoLAware_Next_def Let_def intro!: lambda_ok_intros split: prod.splits option.splits)
qed

lemma slow_loop_rtt: "slow_loop prim ps slow r = (Some q, r') \<Longrightarrow> (slow = Some q \<and> r' = r) \<or> r' = rtt_of q"
  by (induction prim ps slow r rule: slow_loop.induct) (auto split: if_splits)

lemma HoLAware_Next_slow:
  assumes "fst (HoLAware_Next ar h ps sz) = Some p" and "fastestTiedSet ar (activeBondPaths ps) = (f, prim)"
    and "p \<notin> set prim"
  shows "(\<forall>q \<in> set prim. \<not> sp_InFlight q < sp_CWND q) \<and>
    (f \<ge> unmeasuredRTT \<or> f2i64 ar (fl64 (ha_lambda h * i2f (rtt_of p))) \<le> f)"
proof -
  let ?b = "activeBondPaths ps" and ?room = "\<lambda>p. sp_InFlight p < sp_CWND p"
  obtain sl r where sl: "slow_loop prim ?b None unmeasuredRTT = (sl, r)" by fastforce
  define c where "c = (if length prim > 0 \<and> ha_cursor h \<ge> length prim then 0 else ha_cursor h)"
  have none: "rotate_loop ?room prim c 0 (length prim) = None"
  proof (rule ccontr)
    assume "rotate_loop ?room prim c 0 (length prim) \<noteq> None"
    then obtain q c' where rot: "rotate_loop ?room prim c 0 (length prim) = Some (q, c')" by auto
    then have "q = p" using assms(1,2) by (auto simp: HoLAware_Next_def c_def Let_def split: if_splits)
    with rotate_Some_mem [OF rot] assms(3) show False by simp
  qed
  then have "sl = Some p" and cond: "f \<ge> unmeasuredRTT \<or> f2i64 ar (fl64 (ha_lambda h * i2f r)) \<le> f"
    using assms(1,2) sl by (auto simp: HoLAware_Next_def c_def Let_def split: if_splits option.splits)
  moreover have "r = rtt_of p" using slow_loop_rtt [of prim ?b None unmeasuredRTT p r] sl calculation(1) by auto
  ultimately show ?thesis using rotate_None_all [OF none] by auto
qed

section \<open>Properties\<close>

text \<open>C25. Whatever the tier and its history, a scheduler only ever picks a path that was offered to it, is active,
  belongs to the bond and has room in its congestion window.\<close>

theorem sched_contract:
  assumes "fst (sched_Next ar s paths sz) = Some p"
  shows "p \<in> set paths \<and> sp_State p = StateActive \<and> sp_Role p = RoleBond \<and> sp_InFlight p < sp_CWND p"
  using sn.chosen [OF assms] by (simp add: sendable_def)

definition ex_path :: "u8 \<Rightarrow> int \<Rightarrow> duration \<Rightarrow> spath" where
  "ex_path i fl rtt = \<lparr> sp_ID = i, sp_State = StateActive, sp_Role = RoleBond, sp_InFlight = fl, sp_CWND = 100,
     sp_RTTMin = rtt, sp_Goodput = 0 \<rparr>"

theorem sched_contract_witness:
  "fst (sched_Next AMD64 (SMinRTTCwnd NewMinRTTCwnd) [ex_path 0 100 15000000, ex_path 1 0 200000000] 100) =
     Some (ex_path 1 0 200000000) \<and> sp_InFlight (ex_path 1 0 200000000) < sp_CWND (ex_path 1 0 200000000)"
proof -
  have "fst (sched_Next AMD64 (SMinRTTCwnd NewMinRTTCwnd) [ex_path 0 100 15000000, ex_path 1 0 200000000] 100) =
     Some (ex_path 1 0 200000000)" by code_simp
  from sched_contract [OF this] this show ?thesis by simp
qed

text \<open>Tiers 1 to 3 are work conserving: they find a path exactly when one of the offered paths can send (for
  tier 3, with round-trip times below 36 years).\<close>

theorem sched_work_conserving:
  assumes "rtts_ok paths" and "sched_Name s \<noteq> ''hol-aware''"
  shows "fst (sched_Next ar s paths sz) \<noteq> None \<longleftrightarrow> list_ex sendable paths"
  using assms rr.some_iff wg.some_iff mr.some_iff by (cases s) (simp_all add: split_beta Let_def)

theorem sched_work_conserving_witness:
  "fst (sched_Next ARM64 (SWeightedGoodput NewWeightedGoodput) [ex_path 0 100 0, ex_path 1 0 0] 100) \<noteq> None"
proof -
  have ok: "rtts_ok [ex_path 0 100 0, ex_path 1 0 0]" by (simp add: rtts_ok_def ex_path_def)
  have name: "sched_Name (SWeightedGoodput NewWeightedGoodput) \<noteq> ''hol-aware''" by simp
  from sched_work_conserving [OF ok name] show ?thesis by (simp add: sendable_def ex_path_def)
qed

text \<open>C26. Round robin starves no path: a path that can send is picked within as many calls as there are paths,
  wherever the cursor stands.\<close>

theorem rr_no_starvation:
  assumes "p \<in> set paths" and "sendable p"
  shows "Some p \<in> set (rr_calls (length paths) r paths sz)"
proof -
  obtain j where j: "j < length paths" "p = paths ! j" using assms(1) by (auto simp: in_set_conv_nth)
  moreover obtain d where "d < length paths" "(rr_cursor r + d) mod length paths = j"
    using rotation_reaches [OF j(1)] by blast
  ultimately show ?thesis using rr_reaches [of j paths r d "length paths" sz] assms(2) by simp
qed

theorem rr_no_starvation_witness:
  "Some (ex_path 2 0 0) \<in> set (rr_calls 3 NewRoundRobin [ex_path 0 0 0, ex_path 1 100 0, ex_path 2 0 0] 100)"
proof -
  let ?ps = "[ex_path 0 0 0, ex_path 1 100 0, ex_path 2 0 0]"
  have "ex_path 2 0 0 \<in> set ?ps" "sendable (ex_path 2 0 0)" by (simp_all add: sendable_def ex_path_def)
  from rr_no_starvation [OF this, of NewRoundRobin 100] show ?thesis by (simp only: list.size) (simp only: numeral_3_eq_3 add_0 add_Suc_right One_nat_def add_0_right)
qed

definition fastest_rtt :: "spath list \<Rightarrow> duration" where
  "fastest_rtt paths = Min (rtt_of ` {q \<in> set paths. sendable q})"

text \<open>Tier 3 picks among the fastest: the chosen path's round-trip time is within the tie window of the minimum
  over all paths that can send, unless none of them has been measured yet.\<close>

theorem min_rtt_choice:
  assumes "rtts_ok paths" and "fst (MinRTTCwnd_Next ar m paths sz) = Some p"
  shows "fastest_rtt paths = unmeasuredRTT \<or> rtt_of p \<le> fastest_rtt paths + tie_window ar (fastest_rtt paths)"
proof -
  let ?e = "eligiblePaths paths"
  obtain f prim where ft: "fastestTiedSet ar ?e = (f, prim)" by fastforce
  have p: "p \<in> set prim" using assms(2) by (auto simp: MinRTTCwnd_Next_def ft Let_def split: if_splits)
  then have "?e \<noteq> []" using fastestTiedSet_subset [OF ft] by auto
  moreover have "rtts_ok ?e" using assms(1) by (auto simp: rtts_ok_def eligiblePaths_eq)
  ultimately have "f = unmeasuredRTT \<or> rtt_of p \<le> f + tie_window ar f"
    using fastestTiedSet_spec(2) [OF _ _ ft] p by auto
  moreover have "f = fastest_rtt paths"
  proof -
    let ?S = "rtt_of ` set ?e"
    have "f = Min (insert unmeasuredRTT ?S)"
      using ft by (simp add: fastestTiedSet_eq Let_def fastest_loop_eq del: Min_insert)
    moreover have "\<forall>x \<in> ?S. x \<le> unmeasuredRTT"
      using assms(1) by (auto simp: eligiblePaths_eq rtt_of_def rtts_ok_def unmeasuredRTT_def max_i64_def)
    moreover have "?S \<noteq> {}" using \<open>?e \<noteq> []\<close> by simp
    ultimately have "f = Min ?S" by (metis List.finite_set Min_in Min_insert finite_imageI min.absorb2)
    moreover have "set ?e = {q \<in> set paths. sendable q}" by (auto simp: eligiblePaths_eq)
    ultimately show ?thesis by (simp only: fastest_rtt_def)
  qed
  ultimately show ?thesis by simp
qed

theorem min_rtt_choice_witness:
  "rtt_of (ex_path 0 0 15000000) \<le> 14000000 + tie_window AMD64 14000000"
proof -
  let ?ps = "[ex_path 0 0 15000000, ex_path 1 0 14000000, ex_path 2 0 200000000]"
  have ok: "rtts_ok ?ps" by (simp add: rtts_ok_def ex_path_def)
  have pick: "fst (MinRTTCwnd_Next AMD64 NewMinRTTCwnd ?ps 100) = Some (ex_path 0 0 15000000)" by code_simp
  have "{q \<in> set ?ps. sendable q} = set ?ps" by (auto simp: sendable_def ex_path_def)
  then have "fastest_rtt ?ps = 14000000" by (simp only: fastest_rtt_def) (simp add: rtt_of_def ex_path_def)
  with min_rtt_choice [OF ok pick] show ?thesis by (simp add: unmeasuredRTT_def max_i64_def)
qed

text \<open>Tier 4 trades latency correctly: it takes a path outside the fastest set only when every path of that
  set is full and, if the fastest round-trip time is known, when the path's own time scaled by the strictness
  factor does not exceed it.\<close>

theorem hol_slow_path_rule:
  assumes "fst (HoLAware_Next ar h paths sz) = Some p" and "fastestTiedSet ar (activeBondPaths paths) = (f, primary)"
    and "p \<notin> set primary"
  shows "list_all (\<lambda>q. sp_InFlight q \<ge> sp_CWND q) primary \<and>
    (f \<ge> unmeasuredRTT \<or> f2i64 ar (fl64 (ha_lambda h * i2f (rtt_of p))) \<le> f)"
  using HoLAware_Next_slow [OF assms] by (auto simp: list_all_iff not_less)

theorem hol_slow_path_rule_witness:
  "f2i64 AMD64 (fl64 (ha_lambda \<lparr> ha_lambda = 1 / 2, ha_cursor = 0 \<rparr> * i2f (rtt_of (ex_path 1 0 120000000)))) \<le> 100000000"
proof -
  let ?ps = "[ex_path 0 100 100000000, ex_path 1 0 120000000]" and ?h = "\<lparr> ha_lambda = 1 / 2, ha_cursor = 0 \<rparr>"
  have "fst (HoLAware_Next AMD64 ?h ?ps 100) = Some (ex_path 1 0 120000000)" by code_simp
  moreover have "fastestTiedSet AMD64 (activeBondPaths ?ps) = (100000000, [ex_path 0 100 100000000])" by code_simp
  moreover have "ex_path 1 0 120000000 \<notin> set [ex_path 0 100 100000000]" by (simp add: ex_path_def)
  ultimately show ?thesis
    using hol_slow_path_rule [of AMD64 ?h ?ps 100 "ex_path 1 0 120000000" 100000000 "[ex_path 0 100 100000000]"]
    by (simp add: unmeasuredRTT_def max_i64_def)
qed

text \<open>The strictness factor of tier 4 stays between one half and four over any sequence of decisions,
  rounding included.\<close>

theorem hol_lambda_bounded:
  "lambda_ok (foldl (\<lambda>h (ps, sz). snd (HoLAware_Next ar h ps sz)) NewHoLAware calls)"
  by (rule hal.inv_run) (simp_all add: lambda_ok_def NewHoLAware_def list_all_iff)

lemma i2f_unmeasured: "i2f unmeasuredRTT = 2 ^ 63"
  by code_simp

lemma f2i64_overflow:
  assumes "1 \<le> l"
  shows "f2i64 AMD64 (fl64 (l * i2f unmeasuredRTT)) = min_i64" and "f2i64 ARM64 (fl64 (l * i2f unmeasuredRTT)) = max_i64"
proof -
  have "rep64 (2 ^ 63)" unfolding rep64_def by (intro exI [of _ 1] exI [of _ 63]) simp
  moreover have "2 ^ 63 \<le> l * i2f unmeasuredRTT" using assms by (simp add: i2f_unmeasured)
  ultimately have "2 ^ 63 \<le> fl64 (l * i2f unmeasuredRTT)" by (intro fl64_ge_rep)
  then have "max_i64 < trunc (fl64 (l * i2f unmeasuredRTT))"
    by (simp add: trunc_def max_i64_def less_floor_iff)
  then show "f2i64 AMD64 (fl64 (l * i2f unmeasuredRTT)) = min_i64" "f2i64 ARM64 (fl64 (l * i2f unmeasuredRTT)) = max_i64"
    by (simp_all add: f2i64_def Let_def)
qed

text \<open>With a full fast path and an alternative that was never measured, tier 4's decision depends on the
  processor: at strictness 1 or more the scaled sentinel overflows, so that on amd64 the alternative counts as
  fastest of all and is used, while on arm64 it is skipped.\<close>

theorem hol_unmeasured_overflow:
  assumes "1 \<le> ha_lambda h" and "ha_cursor h = 0"
    and "sp_State fast = StateActive" "sp_Role fast = RoleBond" "sp_InFlight fast \<ge> sp_CWND fast"
    and "0 < sp_RTTMin fast" "sp_RTTMin fast \<le> 2 ^ 60"
    and "sp_State slow = StateActive" "sp_Role slow = RoleBond" "sp_InFlight slow < sp_CWND slow"
    and "sp_RTTMin slow = 0" and "sp_ID slow \<noteq> sp_ID fast"
  shows "fst (HoLAware_Next AMD64 h [fast, slow] sz) = Some slow \<and> fst (HoLAware_Next ARM64 h [fast, slow] sz) = None"
proof -
  let ?f = "sp_RTTMin fast"
  have rtt: "rtt_of fast = ?f" "rtt_of slow = unmeasuredRTT" using assms by (simp_all add: rtt_of_def)
  have lt: "?f < unmeasuredRTT" using assms by (simp add: unmeasuredRTT_def max_i64_def)
  have tied: "fastestTiedSet ar [fast, slow] = (?f, [fast])" for ar
  proof -
    note w = tie_window_bounds [OF less_imp_le [OF assms(6)] assms(7), of ar]
    have "i64 (?f + tie_window ar ?f) = ?f + tie_window ar ?f"
      using w assms(6,7) by (intro i64_id) (simp_all add: min_i64_def max_i64_def tieRTTMin_def)
    moreover have "?f \<le> ?f + tie_window ar ?f" "\<not> unmeasuredRTT \<le> ?f + tie_window ar ?f"
      using w assms(7) by (simp_all add: tieRTTMin_def unmeasuredRTT_def max_i64_def)
    ultimately show ?thesis using lt by (simp add: fastestTiedSet_eq rtt Let_def)
  qed
  have bond: "activeBondPaths [fast, slow] = [fast, slow]" using assms by (simp add: activeBondPaths_def)
  have slow: "slow_loop [fast] [fast, slow] None unmeasuredRTT = (Some slow, unmeasuredRTT)"
    using assms rtt by (simp add: pathIn_def)
  have rot: "rotate_loop (\<lambda>p. sp_InFlight p < sp_CWND p) [fast] (ha_cursor h) 0 (length [fast]) = None"
    using assms(5) by simp
  have nx: "fst (HoLAware_Next ar h [fast, slow] sz) =
      (if f2i64 ar (fl64 (ha_lambda h * i2f unmeasuredRTT)) \<le> ?f then Some slow else None)" for ar
    using lt rot by (simp add: HoLAware_Next_def bond tied slow assms(2) Let_def del: slow_loop.simps rotate_loop.simps)
  show ?thesis
    unfolding nx f2i64_overflow [OF assms(1)] using assms(6,7) by (simp add: min_i64_def max_i64_def)
qed

theorem hol_unmeasured_overflow_witness:
  "fst (HoLAware_Next AMD64 NewHoLAware [ex_path 0 100 15000000, ex_path 1 0 0] 100) = Some (ex_path 1 0 0) \<and>
   fst (HoLAware_Next ARM64 NewHoLAware [ex_path 0 100 15000000, ex_path 1 0 0] 100) = None"
  by (rule hol_unmeasured_overflow) (simp_all add: NewHoLAware_def ex_path_def)

end
