(* ===== verification/Payload.thy ===== *)
theory Payload
  imports Prelude
begin

text \<open>
  The payloads of control packets and of the handshake response, \<^verbatim>\<open>core/bond/control.go\<close> and
  \<^verbatim>\<open>core/bond/wire.go\<close>. The CBOR library is a parameter: a pair of an encoder and a decoder per payload
  type.
\<close>

record ProbePayload =
  pb_SentAtUnixNano :: int
  pb_SentPSN :: u32

record ProbeAckPayload =
  pa_SentAtUnixNano :: int
  pa_SentPSN :: u32
  pa_RecvPSN :: u32

record PathAddPayload =
  pad_PathID :: u8

record PathDropPayload =
  pdr_PathID :: u8
  pdr_Reason :: string

record CtrlPathAddAck =
  ca_Kind :: string
  ca_PathID :: u8

record HandshakeRespPayload =
  hr_SessionIndex :: u32
  hr_TunnelIP :: string
  hr_Prefix :: int
  hr_GatewayIP :: string
  hr_DNS :: "gostring list"
  hr_MTU :: int
  hr_KeepaliveSec :: int

type_synonym 'a cbor = "('a \<Rightarrow> bytes option) \<times> (bytes \<Rightarrow> 'a option)"

end
