(* ===== verification/Path.thy ===== *)
theory Path
  imports Cc Sched Payload
begin

text \<open>
  One path of a session, \<^verbatim>\<open>core/bond/path.go\<close>: its counters, round-trip and loss estimates, congestion
  controller and lifecycle state. Instants are wall-clock nanoseconds; an unset \<^verbatim>\<open>time.Time\<close> is \<open>None\<close>. The
  socket of a path is an opaque value of the network layer and is left out; its peer address is a value
  of type \<open>'a\<close>.
\<close>

section \<open>Constants and state\<close>

definition ProbeInterval :: duration where "ProbeInterval = 200 * millisecond"
definition ProbeIdleAfter :: duration where "ProbeIdleAfter = 30 * second"
definition ProbeIdleInterval :: duration where "ProbeIdleInterval = 1 * second"
definition PathDeadTimeout :: duration where "PathDeadTimeout = 10 * second"
definition DegradeLoss :: rat where "DegradeLoss = fl64 (15 / 100)"
definition MissedProbesToDegrade :: int where "MissedProbesToDegrade = 3"
definition HealthyProbesToUndegrade :: int where "HealthyProbesToUndegrade = 3"
definition rttWindow :: duration where "rttWindow = 10 * second"
definition lossEWMAAlpha :: rat where "lossEWMAAlpha = fl64 (2 / 10)"
definition srttAlpha :: rat where "srttAlpha = 1 / 8"
definition rttVarBeta :: rat where "rttVarBeta = 1 / 4"

record Stats =
  st_TxPackets :: u64
  st_RxPackets :: u64
  st_TxBytes :: u64
  st_RxBytes :: u64
  st_RxErrors :: u64

record rttSample =
  rs_at :: instant
  rs_rtt :: duration

record 'a path =
  pt_id :: u8
  pt_role :: role
  pt_state :: state
  pt_lastProbeAckAt :: int
  pt_remoteAddr :: "'a option"
  pt_sendPSN :: u32
  pt_recvPSN :: u32
  pt_inflight :: int
  pt_cc :: Controller
  pt_srtt :: duration
  pt_rttVar :: duration
  pt_rttSamples :: "rttSample list"
  pt_lossEWMA :: rat
  pt_consecutiveMissedProbes :: int
  pt_consecutiveHealthyProbes :: int
  pt_lastProbeSentPSN :: u32
  pt_lastProbeAckedPSN :: u32
  pt_lastProbeAckedRecvPSN :: u32
  pt_lastProbeAckedTxBytes :: u64
  pt_lastProbeAckTime :: "instant option"
  pt_Stats :: Stats

definition NewPath :: "u8 \<Rightarrow> 'a path" where
  "NewPath i = \<lparr> pt_id = i, pt_role = RoleBond, pt_state = StateJoining, pt_lastProbeAckAt = 0,
     pt_remoteAddr = None, pt_sendPSN = 0, pt_recvPSN = 0, pt_inflight = 0, pt_cc = NewController,
     pt_srtt = 0, pt_rttVar = 0, pt_rttSamples = [], pt_lossEWMA = 0, pt_consecutiveMissedProbes = 0,
     pt_consecutiveHealthyProbes = 0, pt_lastProbeSentPSN = 0, pt_lastProbeAckedPSN = 0,
     pt_lastProbeAckedRecvPSN = 0, pt_lastProbeAckedTxBytes = 0, pt_lastProbeAckTime = None,
     pt_Stats = \<lparr> st_TxPackets = 0, st_RxPackets = 0, st_TxBytes = 0, st_RxBytes = 0, st_RxErrors = 0 \<rparr> \<rparr>"

section \<open>Operations\<close>

definition SetRole :: "role \<Rightarrow> 'a path \<Rightarrow> 'a path" where "SetRole r p = p\<lparr>pt_role := r\<rparr>"
definition SetActive :: "'a path \<Rightarrow> 'a path" where "SetActive p = p\<lparr>pt_state := StateActive\<rparr>"
definition SetRemoteAddr :: "'a \<Rightarrow> 'a path \<Rightarrow> 'a path" where "SetRemoteAddr a p = p\<lparr>pt_remoteAddr := Some a\<rparr>"
definition Path_CWND :: "'a path \<Rightarrow> int" where "Path_CWND p = CWND (pt_cc p)"
definition Path_Goodput :: "'a path \<Rightarrow> rat" where "Path_Goodput p = DeliveryRate (pt_cc p)"

definition NextSendPSN :: "'a path \<Rightarrow> u32 \<times> 'a path" where
  "NextSendPSN p = (let v = pt_sendPSN p + 1 in (v - 1, p\<lparr>pt_sendPSN := v\<rparr>))"

definition RecordRecv :: "instant \<Rightarrow> 'a path \<Rightarrow> u32 \<times> 'a path" where
  "RecordRecv now p =
     (let p = p\<lparr>pt_lastProbeAckAt := now\<rparr>; v = pt_recvPSN p + 1 in (v - 1, p\<lparr>pt_recvPSN := v\<rparr>))"

definition LastActivity :: "instant \<Rightarrow> 'a path \<Rightarrow> duration" where
  "LastActivity now p = (let lastAt = pt_lastProbeAckAt p in if lastAt = 0 then 0 else time_Sub now lastAt)"

definition BuildProbe :: "instant \<Rightarrow> 'a path \<Rightarrow> ProbePayload \<times> 'a path" where
  "BuildProbe now p =
     (let psn = pt_sendPSN p
      in (\<lparr> pb_SentAtUnixNano = now, pb_SentPSN = psn \<rparr>, p\<lparr>pt_lastProbeSentPSN := psn\<rparr>))"

fun min_loop :: "rttSample list \<Rightarrow> duration \<Rightarrow> duration" where
  "min_loop [] m = m"
| "min_loop (s # ss) m = min_loop ss (if rs_rtt s < m then rs_rtt s else m)"

definition minRTT :: "rttSample list \<Rightarrow> duration" where
  "minRTT samples = (case samples of [] \<Rightarrow> 0 | s # ss \<Rightarrow> min_loop ss (rs_rtt s))"

fun pruneOld :: "rttSample list \<Rightarrow> instant \<Rightarrow> rttSample list" where
  "pruneOld [] now = []"
| "pruneOld (s # ss) now = (if time_Sub now (rs_at s) > rttWindow then pruneOld ss now else s # ss)"

definition degrade :: "'a path \<Rightarrow> 'a path" where "degrade p = p\<lparr>pt_state := StateDegraded\<rparr>"

text \<open>The three parts of \<^verbatim>\<open>HandleProbeAck\<close> under the lock: round-trip estimate, loss estimate, delivery rate.\<close>

definition ack_rtt :: "goarch \<Rightarrow> duration \<Rightarrow> instant \<Rightarrow> 'a path \<Rightarrow> 'a path" where
  "ack_rtt ar rtt now p =
     (let p = (if pt_srtt p = 0 then p\<lparr>pt_srtt := rtt, pt_rttVar := rtt div 2\<rparr>
               else let diff = i64 (rtt - pt_srtt p);
                        diff = (if diff < 0 then i64 (- diff) else diff);
                        p = p\<lparr>pt_rttVar := i64 (pt_rttVar p +
                               f2i64 ar (fl64 (rttVarBeta * i2f (i64 (diff - pt_rttVar p)))))\<rparr>
                    in p\<lparr>pt_srtt := i64 (pt_srtt p + f2i64 ar (fl64 (srttAlpha * i2f (i64 (rtt - pt_srtt p)))))\<rparr>)
      in p\<lparr>pt_rttSamples := pruneOld (pt_rttSamples p @ [\<lparr> rs_at = now, rs_rtt = rtt \<rparr>]) now\<rparr>)"

definition inst_loss :: "u32 \<Rightarrow> u32 \<Rightarrow> rat" where
  "inst_loss deltaSent deltaRecv =
     (if deltaSent > 0
      then let l = fl64 (1 - fl64 (i2f (uint deltaRecv) / i2f (uint deltaSent))) in if l < 0 then 0 else l
      else 0)"

definition ewma :: "rat \<Rightarrow> rat \<Rightarrow> rat" where
  "ewma loss inst = fl64 (loss + fl64 (lossEWMAAlpha * fl64 (inst - loss)))"

definition HandleProbeAck :: "goarch \<Rightarrow> ProbeAckPayload \<Rightarrow> instant \<Rightarrow> 'a path \<Rightarrow> 'a path" where
  "HandleProbeAck ar ack now p =
     (let rtt = time_Sub now (pa_SentAtUnixNano ack)
      in if rtt < 0 then p
         else let p = ack_rtt ar rtt now p;
                  deltaSent = pa_SentPSN ack - pt_lastProbeAckedPSN p;
                  deltaRecv = pa_RecvPSN ack - pt_lastProbeAckedRecvPSN p;
                  p = p\<lparr>pt_lossEWMA := ewma (pt_lossEWMA p) (inst_loss deltaSent deltaRecv)\<rparr>;
                  p = p\<lparr>pt_lastProbeAckedPSN := pa_SentPSN ack, pt_lastProbeAckedRecvPSN := pa_RecvPSN ack\<rparr>;
                  txBytesNow = st_TxBytes (pt_Stats p);
                  p = (case pt_lastProbeAckTime p of
                         None \<Rightarrow> p
                       | Some lastAt \<Rightarrow>
                           if deltaSent > 0
                           then let deltaBytes = txBytesNow - pt_lastProbeAckedTxBytes p;
                                    delivered = f2i64 ar (fl64 (fl64 (i2f (uint deltaBytes) * i2f (uint deltaRecv)) /
                                                  i2f (uint deltaSent)))
                                in p\<lparr>pt_cc := Sample ar delivered (time_Sub now lastAt) (minRTT (pt_rttSamples p)) (pt_cc p)\<rparr>
                           else p);
                  p = p\<lparr>pt_lastProbeAckedTxBytes := txBytesNow, pt_lastProbeAckTime := Some now\<rparr>;
                  p = p\<lparr>pt_consecutiveMissedProbes := 0,
                        pt_consecutiveHealthyProbes := pt_consecutiveHealthyProbes p + 1\<rparr>;
                  loss = pt_lossEWMA p;
                  healthy = pt_consecutiveHealthyProbes p;
                  p = p\<lparr>pt_lastProbeAckAt := now\<rparr>
              in case pt_state p of
                   StateJoining \<Rightarrow> p\<lparr>pt_state := StateActive\<rparr>
                 | StateDegraded \<Rightarrow>
                     if loss \<le> DegradeLoss \<and> healthy \<ge> HealthyProbesToUndegrade
                     then p\<lparr>pt_state := StateActive\<rparr> else p
                 | StateActive \<Rightarrow> if loss > DegradeLoss then degrade p else p
                 | StateDead \<Rightarrow> p)"

definition HandleProbeMissed :: "instant \<Rightarrow> 'a path \<Rightarrow> 'a path" where
  "HandleProbeMissed now p =
     (let p = p\<lparr>pt_consecutiveMissedProbes := pt_consecutiveMissedProbes p + 1, pt_consecutiveHealthyProbes := 0\<rparr>;
          missed = pt_consecutiveMissedProbes p;
          p = (if missed \<ge> MissedProbesToDegrade \<and> pt_state p = StateActive then degrade p else p)
      in if pt_lastProbeAckAt p \<noteq> 0 \<and> time_Sub now (pt_lastProbeAckAt p) > PathDeadTimeout
         then p\<lparr>pt_state := StateDead\<rparr> else p)"

definition RTTMin :: "instant \<Rightarrow> 'a path \<Rightarrow> duration \<times> 'a path" where
  "RTTMin now p =
     (let samples = pruneOld (pt_rttSamples p) now in (minRTT samples, p\<lparr>pt_rttSamples := samples\<rparr>))"

definition Loss :: "'a path \<Rightarrow> rat" where "Loss p = pt_lossEWMA p"

text \<open>What a scheduler reads through the interface at an instant.\<close>

definition sched_view :: "instant \<Rightarrow> 'a path \<Rightarrow> spath" where
  "sched_view now p = \<lparr> sp_ID = pt_id p, sp_State = pt_state p, sp_Role = pt_role p, sp_InFlight = pt_inflight p,
     sp_CWND = Path_CWND p, sp_RTTMin = fst (RTTMin now p), sp_Goodput = Path_Goodput p \<rparr>"

section \<open>The loss estimate\<close>

definition unit_rep :: "rat \<Rightarrow> bool" where
  "unit_rep l \<longleftrightarrow> 0 \<le> l \<and> l \<le> 1 \<and> rep64 l"

lemma rep64_1: "rep64 1" using rep64_of_int [of 1] by simp

text \<open>Subtraction from one is exact on the upper half of the unit interval.\<close>

lemma rep64_one_minus:
  assumes "rep64 l" and "1 / 2 \<le> l" and "l \<le> 1"
  shows "rep64 (1 - l)"
proof -
  have pos: "0 < l" using assms(2) by linarith
  have "ilog l \<ge> -1"
  proof -
    have "(2::rat) powi (-1) < 2 powi (ilog l + 1)"
      using ilog_bounds(2) [OF pos] assms(2) by (simp add: power_int_minus)
    from powi_less [OF this] show ?thesis by simp
  qed
  then have e: "- 53 \<le> ulp_exp l" by (simp add: ulp_exp_def)
  obtain n where "l = of_int n * 2 powi ulp_exp l" using rep64_grid [OF assms(1) pos] .
  with grid_refine [OF e, of n] obtain m where m: "l = of_int m * 2 powi (- 53)" by auto
  then have "1 - l = of_int (2 ^ 53 - m) * 2 powi (- 53)" by (simp add: left_diff_distrib power_int_minus)
  moreover have "0 \<le> m" "m \<le> 2 ^ 53"
  proof -
    have "0 \<le> (of_int m :: rat)" "(of_int m :: rat) \<le> of_int (2 ^ 53)"
      using m assms(3) pos by (simp_all add: power_int_minus field_simps)
    then show "0 \<le> m" "m \<le> 2 ^ 53" by (simp_all only: of_int_le_iff of_int_0_le_iff)
  qed
  ultimately show ?thesis unfolding rep64_def by (intro exI [of _ "2 ^ 53 - m"] exI [of _ "- 53"]) simp
qed

lemma alpha_bounds: "0 \<le> lossEWMAAlpha" "lossEWMAAlpha \<le> 1 / 4" "19 / 100 \<le> lossEWMAAlpha"
  by code_simp+

lemma ewma_unit:
  assumes "unit_rep l" and "0 \<le> i" and "i \<le> 1"
  shows "unit_rep (ewma l i)"
proof -
  let ?d = "fl64 (i - l)" and ?a = lossEWMAAlpha
  have l: "0 \<le> l" "l \<le> 1" "rep64 l" using assms(1) by (auto simp: unit_rep_def)
  have "0 \<le> l + fl64 (?a * ?d)"
  proof -
    have "- l \<le> ?d" using l assms(2) rep64_minus by (intro fl64_ge_rep) auto
    then have "?a * (- l) \<le> ?a * ?d" using alpha_bounds(1) by (rule mult_left_mono)
    moreover have "- l \<le> ?a * (- l)" using alpha_bounds(2) l(1) mult_right_mono [of ?a 1 l] by simp
    ultimately have "- l \<le> fl64 (?a * ?d)" using l(3) rep64_minus by (intro fl64_ge_rep) auto
    then show ?thesis by simp
  qed
  moreover have "l + fl64 (?a * ?d) \<le> 1"
  proof (cases "1 / 2 \<le> l")
    case True
    have r: "rep64 (1 - l)" using rep64_one_minus [OF l(3) True l(2)] .
    have "?d \<le> 1 - l" using assms(3) r by (intro fl64_le_rep) auto
    then have "?a * ?d \<le> ?a * (1 - l)" using alpha_bounds(1) by (rule mult_left_mono)
    also have "\<dots> \<le> 1 - l" using alpha_bounds(2) l(2) mult_right_mono [of ?a 1 "1 - l"] by simp
    finally have "fl64 (?a * ?d) \<le> 1 - l" using r by (rule fl64_le_rep)
    then show ?thesis by simp
  next
    case False
    have "?d \<le> 1" using assms(3) l(1) rep64_1 by (intro fl64_le_rep) auto
    then have "?a * ?d \<le> 1 / 2" using alpha_bounds(1,2) mult_left_mono [of ?d 1 ?a] by simp
    then have "fl64 (?a * ?d) \<le> 1 / 2" using rep64_half by (rule fl64_le_rep)
    with False show ?thesis by simp
  qed
  ultimately show ?thesis
    unfolding unit_rep_def ewma_def using rep64_1 by (auto intro: fl64_nonneg fl64_le_rep rep64_fl64)
qed

lemma inst_loss_unit: "0 \<le> inst_loss ds dr \<and> inst_loss ds dr \<le> 1"
proof -
  have "0 \<le> fl64 (i2f (uint dr) / i2f (uint ds))"
    by (intro fl64_nonneg divide_nonneg_nonneg i2f_nonneg) auto
  then have "fl64 (1 - fl64 (i2f (uint dr) / i2f (uint ds))) \<le> 1"
    using rep64_1 by (intro fl64_le_rep) auto
  then show ?thesis by (simp add: inst_loss_def Let_def)
qed

lemma fl64_lower:
  assumes "2 powi (- 1000) \<le> x"
  shows "(1 - 1 / 2 ^ 52) * x \<le> fl64 x"
proof -
  have pos: "0 < x" using assms powi_pos [of "- 1000"] by linarith
  have "(2::rat) powi (- 1000) < 2 powi (ilog x + 1)" using assms ilog_bounds(2) [OF pos] by linarith
  from powi_less [OF this] have e: "ulp_exp x = ilog x - 52" by (simp add: ulp_exp_def)
  let ?u = "(2::rat) powi ulp_exp x"
  have "2 ^ 52 * ?u \<le> x" using ilog_bounds(1) [OF pos] by (simp add: e power_int_diff)
  then have "(1 - 1 / 2 ^ 52) * x \<le> x - ?u" by (simp add: algebra_simps)
  also have "\<dots> = (x / ?u - 1) * ?u" by (simp add: algebra_simps)
  also have "\<dots> \<le> of_int (rne (x / ?u)) * ?u"
  proof (rule mult_right_mono)
    have "x / ?u - 1 \<le> of_int \<lfloor>x / ?u\<rfloor>" by linarith
    also have "\<dots> \<le> of_int (rne (x / ?u))" using rne_bounds(1) by simp
    finally show "x / ?u - 1 \<le> of_int (rne (x / ?u))" .
  qed simp
  finally show ?thesis using pos by (simp add: fl64_def fl_pos_def)
qed

lemma ewma_quiet_eq: "unit_rep l \<Longrightarrow> ewma l 0 = fl64 (l - fl64 (lossEWMAAlpha * l))"
  using fl64_rep [of l] by (simp add: ewma_def unit_rep_def fl64_minus)

lemma rep64_frac: "0 \<le> m \<Longrightarrow> m \<le> 1024 \<Longrightarrow> rep64 (of_int m / 1024)"
  unfolding rep64_def by (intro exI [of _ m] exI [of _ "- 10"]) (simp add: power_int_minus)

text \<open>A loss-free probe shrinks the estimate by about a fifth.\<close>

lemma ewma_quiet:
  assumes "unit_rep l" and "l \<le> of_int n / 1024" and "82 * n \<le> 100 * m" and "1 \<le> m" and "m \<le> 1024"
  shows "ewma l 0 \<le> of_int m / 1024"
proof -
  let ?a = lossEWMAAlpha
  have l: "0 \<le> l" using assms(1) by (simp add: unit_rep_def)
  have "l - fl64 (?a * l) \<le> of_int m / 1024"
  proof (cases "2 powi (- 900) \<le> l")
    case True
    have "(2::rat) powi (- 1000) \<le> 19 / 100 * 2 powi (- 900)" by (simp add: power_int_minus)
    also have "\<dots> \<le> ?a * l" using alpha_bounds(3) True by (intro mult_mono) auto
    finally have "(1 - 1 / 2 ^ 52) * (?a * l) \<le> fl64 (?a * l)" by (rule fl64_lower)
    moreover have "18 / 100 * l \<le> (1 - 1 / 2 ^ 52) * (?a * l)"
    proof -
      have "18 / 100 \<le> (1 - 1 / 2 ^ 52) * (19 / 100 :: rat)" by simp
      also have "\<dots> \<le> (1 - 1 / 2 ^ 52) * ?a" using alpha_bounds(3) by (intro mult_left_mono) auto
      finally have "18 / 100 * l \<le> (1 - 1 / 2 ^ 52) * ?a * l" using l by (rule mult_right_mono)
      then show ?thesis by (simp only: mult.assoc)
    qed
    ultimately have "l - fl64 (?a * l) \<le> 82 / 100 * l" by linarith
    also have "\<dots> \<le> 82 / 100 * (of_int n / 1024)" using assms(2) by simp
    also have "\<dots> \<le> of_int m / 1024"
    proof -
      have "(of_int (82 * n) :: rat) \<le> of_int (100 * m)" using assms(3) by (simp only: of_int_le_iff)
      then show ?thesis by simp
    qed
    finally show ?thesis .
  next
    case False
    have "0 \<le> fl64 (?a * l)" using alpha_bounds(1) l by (intro fl64_nonneg) simp
    moreover have "(2::rat) powi (- 900) \<le> 1 / 1024" by (simp add: power_int_minus)
    moreover have "1 / 1024 \<le> (of_int m / 1024 :: rat)" using assms(4) by simp
    ultimately show ?thesis using False by linarith
  qed
  then show ?thesis
    unfolding ewma_quiet_eq [OF assms(1)] using rep64_frac assms(4,5) by (intro fl64_le_rep) auto
qed

lemma ewma_quiet_le: "unit_rep l \<Longrightarrow> ewma l 0 \<le> l"
proof -
  assume u: "unit_rep l"
  then have "0 \<le> fl64 (lossEWMAAlpha * l)" using alpha_bounds(1) by (auto simp: unit_rep_def intro!: fl64_nonneg)
  then show ?thesis using u unfolding ewma_quiet_eq [OF u] by (intro fl64_le_rep) (auto simp: unit_rep_def)
qed

section \<open>The lifecycle\<close>

lemma ack_rtt_fields [simp]:
  "pt_state (ack_rtt ar rtt now p) = pt_state p" "pt_lossEWMA (ack_rtt ar rtt now p) = pt_lossEWMA p"
  "pt_lastProbeAckedPSN (ack_rtt ar rtt now p) = pt_lastProbeAckedPSN p"
  "pt_lastProbeAckedRecvPSN (ack_rtt ar rtt now p) = pt_lastProbeAckedRecvPSN p"
  "pt_consecutiveHealthyProbes (ack_rtt ar rtt now p) = pt_consecutiveHealthyProbes p"
  "pt_cc (ack_rtt ar rtt now p) = pt_cc p" "pt_lastProbeAckTime (ack_rtt ar rtt now p) = pt_lastProbeAckTime p"
  "pt_Stats (ack_rtt ar rtt now p) = pt_Stats p" "pt_lastProbeAckAt (ack_rtt ar rtt now p) = pt_lastProbeAckAt p"
  by (simp_all add: ack_rtt_def Let_def)

text \<open>What an accepted acknowledgement does to the fields the lifecycle depends on.\<close>

definition ack_loss :: "ProbeAckPayload \<Rightarrow> 'a path \<Rightarrow> rat" where
  "ack_loss ack p = ewma (pt_lossEWMA p) (inst_loss (pa_SentPSN ack - pt_lastProbeAckedPSN p)
     (pa_RecvPSN ack - pt_lastProbeAckedRecvPSN p))"

definition ack_state :: "rat \<Rightarrow> int \<Rightarrow> state \<Rightarrow> state" where
  "ack_state loss healthy s =
     (case s of StateJoining \<Rightarrow> StateActive
      | StateDegraded \<Rightarrow> if loss \<le> DegradeLoss \<and> healthy \<ge> 3 then StateActive else StateDegraded
      | StateActive \<Rightarrow> if loss > DegradeLoss then StateDegraded else StateActive
      | StateDead \<Rightarrow> StateDead)"

lemma HandleProbeAck_fields:
  assumes "0 \<le> time_Sub now (pa_SentAtUnixNano ack)"
  shows "pt_lossEWMA (HandleProbeAck ar ack now p) = ack_loss ack p"
    and "pt_state (HandleProbeAck ar ack now p) =
      ack_state (ack_loss ack p) (pt_consecutiveHealthyProbes p + 1) (pt_state p)"
    and "pt_consecutiveHealthyProbes (HandleProbeAck ar ack now p) = pt_consecutiveHealthyProbes p + 1"
    and "pt_lastProbeAckedPSN (HandleProbeAck ar ack now p) = pa_SentPSN ack"
    and "pt_lastProbeAckAt (HandleProbeAck ar ack now p) = now"
    and "pt_consecutiveMissedProbes (HandleProbeAck ar ack now p) = 0"
  using assms
  by (simp_all add: HandleProbeAck_def Let_def ack_loss_def ack_state_def degrade_def HealthyProbesToUndegrade_def
      split: state.splits option.splits)

lemma HandleProbeAck_clock: "time_Sub now (pa_SentAtUnixNano ack) < 0 \<Longrightarrow> HandleProbeAck ar ack now p = p"
  by (simp add: HandleProbeAck_def)

lemma HandleProbeAck_cc:
  "pt_cc (HandleProbeAck ar ack now p) = pt_cc p \<or>
   (\<exists>b el rt. pt_cc (HandleProbeAck ar ack now p) = Sample ar b el rt (pt_cc p))"
  by (auto simp: HandleProbeAck_def Let_def degrade_def split: state.splits option.splits)

datatype path_event = PAck ProbeAckPayload instant | PMissed instant | PRecv instant | PSend | PProbe instant
  | PReadRTT instant | PActivate | PRole role

fun path_step :: "goarch \<Rightarrow> 'a path \<Rightarrow> path_event \<Rightarrow> 'a path" where
  "path_step ar p (PAck ack now) = HandleProbeAck ar ack now p"
| "path_step ar p (PMissed now) = HandleProbeMissed now p"
| "path_step ar p (PRecv now) = snd (RecordRecv now p)"
| "path_step ar p PSend = snd (NextSendPSN p)"
| "path_step ar p (PProbe now) = snd (BuildProbe now p)"
| "path_step ar p (PReadRTT now) = snd (RTTMin now p)"
| "path_step ar p PActivate = SetActive p"
| "path_step ar p (PRole r) = SetRole r p"

lemmas path_op_defs = RecordRecv_def NextSendPSN_def BuildProbe_def RTTMin_def SetActive_def SetRole_def
  HandleProbeMissed_def degrade_def Let_def

text \<open>The transitions of the lifecycle diagram.\<close>

inductive lifecycle :: "state \<Rightarrow> state \<Rightarrow> bool" where
  joined: "lifecycle StateJoining StateActive"
| degraded: "lifecycle StateActive StateDegraded"
| recovered: "lifecycle StateDegraded StateActive"
| died: "lifecycle s StateDead"

inductive_simps lifecycle_dead [simp]: "lifecycle StateDead t"

definition path_ok :: "'a path \<Rightarrow> bool" where
  "path_ok p \<longleftrightarrow> unit_rep (pt_lossEWMA p) \<and> cwnd_ok (pt_cc p) \<and> 0 \<le> pt_consecutiveHealthyProbes p \<and>
     0 \<le> pt_consecutiveMissedProbes p"

lemma path_ok_new: "path_ok (NewPath i)"
  using rep64_fl64 [of 0] by (simp add: path_ok_def NewPath_def unit_rep_def cwnd_ok_new)

lemma cwnd_ok_Sample: "cwnd_ok c \<Longrightarrow> cwnd_ok (Sample ar b el rt c)"
  using ccw.inv_step [of c ar "(b, el, rt)"] by (simp add: cc_step_def)

lemma path_ok_ack: "path_ok p \<Longrightarrow> path_ok (HandleProbeAck ar ack now p)"
proof (cases "0 \<le> time_Sub now (pa_SentAtUnixNano ack)")
  case True
  assume "path_ok p"
  then show ?thesis
    using HandleProbeAck_fields [OF True, of ar p] HandleProbeAck_cc [of ar ack now p] cwnd_ok_Sample
      ewma_unit inst_loss_unit by (auto simp: path_ok_def ack_loss_def)
next
  case False
  assume "path_ok p"
  with False show ?thesis by (simp add: HandleProbeAck_clock)
qed

lemma path_ok_step: "path_ok p \<Longrightarrow> path_ok (path_step ar p e)"
  by (cases e) (simp_all add: path_ok_ack, auto simp: path_ok_def path_op_defs)

interpretation pst: step_system "path_step ar" path_ok "\<lambda>_. True" for ar
  by unfold_locales (rule path_ok_step)

lemma step_lifecycle:
  assumes "e \<noteq> PActivate"
  shows "pt_state (path_step ar p e) = pt_state p \<or> lifecycle (pt_state p) (pt_state (path_step ar p e))"
proof (cases e)
  case (PAck ack now)
  show ?thesis
  proof (cases "0 \<le> time_Sub now (pa_SentAtUnixNano ack)")
    case True
    then show ?thesis
      by (simp add: PAck HandleProbeAck_fields ack_state_def split: state.splits)
         (auto intro: lifecycle.intros)
  next
    case False
    then show ?thesis by (simp add: PAck HandleProbeAck_clock)
  qed
next
  case (PMissed now)
  then show ?thesis by (auto simp: path_op_defs intro: lifecycle.intros)
qed (use assms in \<open>simp_all add: path_op_defs\<close>)

interpretation dead: step_system "path_step ar" "\<lambda>p. pt_state p = StateDead" "\<lambda>e. e \<noteq> PActivate" for ar
proof
  fix p :: "'a path" and e
  assume "pt_state p = StateDead" "e \<noteq> PActivate"
  with step_lifecycle [of e ar p] show "pt_state (path_step ar p e) = StateDead" by (auto simp: lifecycle.simps)
qed

section \<open>Quiet probes\<close>

type_synonym acked = "ProbeAckPayload \<times> instant"

definition ack_run :: "goarch \<Rightarrow> 'a path \<Rightarrow> acked list \<Rightarrow> 'a path" where
  "ack_run ar p acks = foldl (\<lambda>p (ack, now). HandleProbeAck ar ack now p) p acks"

text \<open>Acknowledgements in time order of probes between which no data was sent.\<close>

definition quiet :: "u32 \<Rightarrow> acked list \<Rightarrow> bool" where
  "quiet psn acks \<longleftrightarrow> list_all (\<lambda>(ack, now). pa_SentAtUnixNano ack \<le> now \<and> pa_SentPSN ack = psn) acks"

lemma time_Sub_nonneg: "b \<le> a \<Longrightarrow> 0 \<le> time_Sub a b"
  by (simp add: time_Sub_def max_i64_def)

lemma quiet_ack_loss: "pa_SentPSN ack = pt_lastProbeAckedPSN p \<Longrightarrow> ack_loss ack p = ewma (pt_lossEWMA p) 0"
  by (simp add: ack_loss_def inst_loss_def)

fun thresholds :: "nat \<Rightarrow> int" where
  "thresholds 0 = 1024"
| "thresholds (Suc k) = (82 * thresholds k + 99) div 100"

lemma thresholds_range: "1 \<le> thresholds k \<and> thresholds k \<le> 1024"
  by (induction k) auto

lemma ack_run_snoc: "ack_run ar p (acks @ [(ack, now)]) = HandleProbeAck ar ack now (ack_run ar p acks)"
  by (simp add: ack_run_def)

lemma ack_run_quiet:
  assumes "path_ok p" and "quiet (pt_lastProbeAckedPSN p) acks"
  shows "path_ok (ack_run ar p acks) \<and> pt_lastProbeAckedPSN (ack_run ar p acks) = pt_lastProbeAckedPSN p \<and>
    pt_lossEWMA (ack_run ar p acks) \<le> of_int (thresholds (length acks)) / 1024 \<and>
    int (length acks) \<le> pt_consecutiveHealthyProbes (ack_run ar p acks)"
  using assms(2)
proof (induction acks rule: rev_induct)
  case Nil
  with assms(1) show ?case by (simp add: ack_run_def path_ok_def unit_rep_def)
next
  case (snoc a acks)
  obtain ack now where a: "a = (ack, now)" by (cases a)
  let ?p = "ack_run ar p acks"
  have q: "quiet (pt_lastProbeAckedPSN p) acks" "pa_SentAtUnixNano ack \<le> now" "pa_SentPSN ack = pt_lastProbeAckedPSN p"
    using snoc.prems by (simp_all add: quiet_def a)
  note IH = snoc.IH [OF q(1)]
  note f = HandleProbeAck_fields [OF time_Sub_nonneg [OF q(2)], of ar ?p]
  have "ack_loss ack ?p = ewma (pt_lossEWMA ?p) 0" using IH q(3) by (intro quiet_ack_loss) simp
  moreover have "ewma (pt_lossEWMA ?p) 0 \<le> of_int (thresholds (Suc (length acks))) / 1024"
    by (rule ewma_quiet [of _ "thresholds (length acks)"])
       (use IH thresholds_range [of "length acks"] thresholds_range [of "Suc (length acks)"] in \<open>auto simp: path_ok_def\<close>)
  ultimately show ?case using IH f path_ok_ack [of ?p ar ack now] q(3) by (simp add: a ack_run_snoc)
qed

lemma thresholds_mono: "thresholds (k + 10) \<le> 143"
proof (induction k)
  case 0
  show ?case by code_simp
next
  case (Suc k)
  have "thresholds (Suc k + 10) = (82 * thresholds (k + 10) + 99) div 100" by (simp only: add_Suc thresholds.simps)
  also have "\<dots> \<le> (82 * 143 + 99) div 100" using Suc by (intro zdiv_mono1) simp_all
  finally show ?case by simp
qed

lemma degrade_threshold: "of_int 143 / 1024 \<le> DegradeLoss"
  by code_simp

lemma ack_run_recovers:
  assumes "path_ok p" and "pt_state p = StateActive \<or> pt_state p = StateDegraded"
    and "quiet (pt_lastProbeAckedPSN p) acks"
  shows "pt_state (ack_run ar p acks) = StateActive \<or> pt_state (ack_run ar p acks) = StateDegraded"
  using assms(3)
proof (induction acks rule: rev_induct)
  case Nil
  with assms(2) show ?case by (simp add: ack_run_def)
next
  case (snoc a acks)
  obtain ack now where a: "a = (ack, now)" by (cases a)
  have q: "quiet (pt_lastProbeAckedPSN p) acks" "pa_SentAtUnixNano ack \<le> now"
    using snoc.prems by (simp_all add: quiet_def a)
  from snoc.IH [OF q(1)] show ?case
    by (auto simp: a ack_run_snoc HandleProbeAck_fields [OF time_Sub_nonneg [OF q(2)]] ack_state_def)
qed

section \<open>Properties\<close>


text \<open>A degraded path comes back: ten timely acknowledgements in a row with no data sent in between, which is
  all an excluded path can produce, make a live path active again, however bad its loss estimate was.\<close>

theorem path_recovers:
  assumes "path_ok p" and "pt_state p = StateActive \<or> pt_state p = StateDegraded"
    and "quiet (pt_lastProbeAckedPSN p) acks" and "10 \<le> length acks"
  shows "pt_state (ack_run ar p acks) = StateActive"
proof -
  obtain acks' ack now where acks: "acks = acks' @ [(ack, now)]"
    using assms(4) by (cases acks rule: rev_cases) auto
  let ?p = "ack_run ar p acks'"
  have q: "quiet (pt_lastProbeAckedPSN p) acks'" "pa_SentAtUnixNano ack \<le> now"
    using assms(3) by (simp_all add: quiet_def acks)
  note f = HandleProbeAck_fields [OF time_Sub_nonneg [OF q(2)], of ar ?p]
  obtain k where k: "length acks = k + 10" using assms(4) by (metis add.commute le_Suc_ex)
  have "pt_lossEWMA (ack_run ar p acks) \<le> of_int (thresholds (k + 10)) / 1024"
    using ack_run_quiet [OF assms(1,3), of ar] k by simp
  also have "\<dots> \<le> of_int 143 / 1024" using thresholds_mono [of k] by (simp only: divide_right_mono of_int_le_iff)
  also have "\<dots> \<le> DegradeLoss" by (rule degrade_threshold)
  finally have "ack_loss ack ?p \<le> DegradeLoss" using f(1) by (simp add: acks ack_run_snoc)
  moreover have "3 \<le> pt_consecutiveHealthyProbes ?p + 1"
    using ack_run_quiet [OF assms(1) q(1), of ar] assms(4) by (simp add: acks)
  moreover have "pt_state ?p = StateActive \<or> pt_state ?p = StateDegraded"
    by (rule ack_run_recovers [OF assms(1,2) q(1)])
  ultimately show ?thesis using f(2) by (auto simp: acks ack_run_snoc ack_state_def)
qed

definition ex_degraded :: "unit path" where
  "ex_degraded = (NewPath 1)\<lparr>pt_state := StateDegraded, pt_lossEWMA := 1\<rparr>"

theorem path_recovers_witness:
  "pt_state (ack_run AMD64 ex_degraded
     (replicate 10 (\<lparr> pa_SentAtUnixNano = 5, pa_SentPSN = 0, pa_RecvPSN = 0 \<rparr>, 7))) = StateActive"
proof (rule path_recovers)
  show "path_ok ex_degraded"
    using path_ok_new [of 1, where 'a = unit] rep64_1 by (simp add: ex_degraded_def path_ok_def unit_rep_def NewPath_def)
  show "quiet (pt_lastProbeAckedPSN ex_degraded) (replicate 10 (\<lparr> pa_SentAtUnixNano = 5, pa_SentPSN = 0, pa_RecvPSN = 0 \<rparr>, 7))"
    by (simp add: quiet_def ex_degraded_def NewPath_def list_all_iff)
qed (simp_all add: ex_degraded_def)

text \<open>Death is final for the state machine: once a path is dead, no acknowledgement, reception, missed probe or
  send brings it back, only an explicit reactivation does.\<close>

theorem path_dead_absorbing:
  assumes "pt_state p = StateDead" and "list_all (\<lambda>e. e \<noteq> PActivate) es"
  shows "pt_state (foldl (path_step ar) p es) = StateDead"
  using dead.inv_run [OF assms] .

theorem path_dead_absorbing_witness:
  "pt_state (foldl (path_step AMD64) ((NewPath 1 :: unit path)\<lparr>pt_state := StateDead\<rparr>)
     [PRecv 3, PAck \<lparr> pa_SentAtUnixNano = 5, pa_SentPSN = 0, pa_RecvPSN = 0 \<rparr> 7, PSend]) = StateDead"
  by (rule path_dead_absorbing) simp_all

text \<open>A path whose probes were never answered never dies: however many probes it misses and however long it is
  silent, it is degraded at worst, since the death rule needs the time of a last acknowledgement.\<close>

theorem path_never_acked_never_dies:
  assumes "pt_lastProbeAckAt p = 0" and "pt_state p \<noteq> StateDead"
  shows "pt_state (foldl (path_step ar) p (map PMissed ts)) \<noteq> StateDead"
  using assms by (induction ts arbitrary: p) (auto simp: path_op_defs)

theorem path_never_acked_never_dies_witness:
  "pt_state (foldl (path_step AMD64) ((NewPath 1 :: unit path)\<lparr>pt_state := StateActive\<rparr>)
     (map PMissed [0, 200000000, 3600000000000])) \<noteq> StateDead"
  by (rule path_never_acked_never_dies) (simp_all add: NewPath_def)

text \<open>There is no hysteresis against loss: when an acknowledgement degrades an active path that had answered
  even one probe before, a single further acknowledgement with the estimate back at the threshold reactivates it.
  The counter that should demand three healthy probes is not reset when the path degrades.\<close>

theorem path_no_hysteresis:
  assumes "pt_state p = StateActive" and "1 \<le> pt_consecutiveHealthyProbes p"
    and "pa_SentAtUnixNano ack1 \<le> t1" and "pa_SentAtUnixNano ack2 \<le> t2"
    and "pt_state (HandleProbeAck ar ack1 t1 p) = StateDegraded"
    and "Loss (HandleProbeAck ar ack2 t2 (HandleProbeAck ar ack1 t1 p)) \<le> DegradeLoss"
  shows "pt_state (HandleProbeAck ar ack2 t2 (HandleProbeAck ar ack1 t1 p)) = StateActive"
  using assms HandleProbeAck_fields [OF time_Sub_nonneg [OF assms(3)], of ar p]
    HandleProbeAck_fields [OF time_Sub_nonneg [OF assms(4)], of ar "HandleProbeAck ar ack1 t1 p"]
  by (auto simp: ack_state_def Loss_def)

definition ex_flapping :: "unit path" where
  "ex_flapping = (NewPath 1)\<lparr>pt_state := StateActive, pt_lossEWMA := 9 / 64, pt_consecutiveHealthyProbes := 1\<rparr>"

theorem path_no_hysteresis_witness:
  "let a1 = \<lparr> pa_SentAtUnixNano = 0, pa_SentPSN = 10, pa_RecvPSN = 8 \<rparr>;
       a2 = \<lparr> pa_SentAtUnixNano = 5, pa_SentPSN = 10, pa_RecvPSN = 8 \<rparr>
   in pt_state (HandleProbeAck AMD64 a1 5 ex_flapping) = StateDegraded \<and>
      pt_state (HandleProbeAck AMD64 a2 9 (HandleProbeAck AMD64 a1 5 ex_flapping)) = StateActive"
proof -
  let ?a1 = "\<lparr> pa_SentAtUnixNano = 0, pa_SentPSN = 10, pa_RecvPSN = 8 \<rparr>" and
    ?a2 = "\<lparr> pa_SentAtUnixNano = 5, pa_SentPSN = 10, pa_RecvPSN = 8 \<rparr>"
  let ?l = "ewma (9 / 64) (inst_loss 10 8)"
  have inst: "inst_loss 10 8 = fl64 (1 - fl64 (8 / 10))" "inst_loss 0 0 = 0"
    using fl64_mono [of "8 / 10" 1] fl64_nonneg [of "1 - fl64 (8 / 10)"] by (simp_all add: inst_loss_def i2f_exact)
  have l: "DegradeLoss < ?l" "ewma ?l (inst_loss 0 0) \<le> DegradeLoss" unfolding inst by code_simp+
  have t: "0 \<le> time_Sub 5 (pa_SentAtUnixNano ?a1)" "0 \<le> time_Sub 9 (pa_SentAtUnixNano ?a2)"
    by (simp_all add: time_Sub_nonneg)
  note f1 = HandleProbeAck_fields [OF t(1), of AMD64 ex_flapping]
    and f2 = HandleProbeAck_fields [OF t(2), of AMD64 "HandleProbeAck AMD64 ?a1 5 ex_flapping"]
  have loss1: "ack_loss ?a1 ex_flapping = ?l" by (simp add: ack_loss_def ex_flapping_def NewPath_def)
  have deg: "pt_state (HandleProbeAck AMD64 ?a1 5 ex_flapping) = StateDegraded"
    using l(1) f1(2) loss1 by (simp add: ack_state_def ex_flapping_def)
  have "Loss (HandleProbeAck AMD64 ?a2 9 (HandleProbeAck AMD64 ?a1 5 ex_flapping)) \<le> DegradeLoss"
    using l(2) f1(1,4) f2(1) loss1 by (simp add: Loss_def ack_loss_def inst_loss_def)
  then have "pt_state (HandleProbeAck AMD64 ?a2 9 (HandleProbeAck AMD64 ?a1 5 ex_flapping)) = StateActive"
    by (rule path_no_hysteresis [OF _ _ _ _ deg, rotated -1]) (simp_all add: ex_flapping_def)
  with deg show ?thesis by (simp only: Let_def simp_thms)
qed

end
