(* ===== verification/Mode.thy ===== *)
theory Mode
  imports Path
begin

text \<open>
  Sending modes and the choice of paths they make, \<^verbatim>\<open>core/bond/mode.go\<close>. The functions take paths together
  with a name \<open>'k\<close> that stands for the pointer, since the caller goes on to update the path chosen.
  \<^verbatim>\<open>RTTMin\<close> also drops expired samples; every later read or update drops them again, so the choice is
  made on a snapshot and the paths are left as they are.
\<close>

section \<open>Modes\<close>

type_synonym Mode = int

definition ModeSpeed :: Mode where "ModeSpeed = 0"
definition ModeRedundant :: Mode where "ModeRedundant = 1"

definition Mode_String :: "Mode \<Rightarrow> string" where
  "Mode_String m =
     (if m = ModeSpeed then ''SPEED'' else if m = ModeRedundant then ''REDUNDANT'' else ''UNKNOWN'')"

definition ModeFromString :: "string \<Rightarrow> Mode option" where
  "ModeFromString s =
     (if s = '''' \<or> s = ''speed'' then Some ModeSpeed
      else if s = ''redundant'' then Some ModeRedundant
      else None)"

definition DupFactor :: nat where "DupFactor = 2"

section \<open>Choice of paths\<close>

text \<open>The round-trip time a choice is made by: unmeasured counts as the longest.\<close>

definition rtt_key :: "instant \<Rightarrow> 'a path \<Rightarrow> duration" where
  "rtt_key now p = (let r = fst (RTTMin now p) in if r \<le> 0 then max_i64 else r)"

definition path_sendable :: "'a path \<Rightarrow> bool" where
  "path_sendable p \<longleftrightarrow> pt_state p = StateActive \<and> pt_role p = RoleBond \<and> pt_inflight p < Path_CWND p"

text \<open>\<^verbatim>\<open>sort.Slice\<close> on up to twelve elements is an insertion sort, which keeps the order of equal keys.\<close>

definition selectRedundantPaths :: "instant \<Rightarrow> ('k \<times> 'a path) list \<Rightarrow> nat \<Rightarrow> ('k \<times> 'a path) list" where
  "selectRedundantPaths now paths n =
     (let elig = filter (\<lambda>(k, p). pt_state p = StateActive \<and> pt_role p = RoleBond \<and> pt_inflight p < Path_CWND p) paths;
          elig = sort_key (\<lambda>(k, p). rtt_key now p) elig
      in if length elig > n then take n elig else elig)"

fun healthiest_loop :: "instant \<Rightarrow> ('k \<times> 'a path) list \<Rightarrow> ('k \<times> 'a path) option \<Rightarrow> rat \<Rightarrow> duration
    \<Rightarrow> ('k \<times> 'a path) option" where
  "healthiest_loop now [] best bestLoss bestRTT = best"
| "healthiest_loop now (kp # ps) best bestLoss bestRTT =
     (let p = snd kp
      in if pt_state p \<noteq> StateActive \<or> pt_role p \<noteq> RoleBond then healthiest_loop now ps best bestLoss bestRTT
         else let loss = Loss p; rtt = rtt_key now p
              in if best = None \<or> loss < bestLoss \<or> (loss = bestLoss \<and> rtt < bestRTT)
                 then healthiest_loop now ps (Some kp) loss rtt
                 else healthiest_loop now ps best bestLoss bestRTT)"

definition healthiestPath :: "instant \<Rightarrow> ('k \<times> 'a path) list \<Rightarrow> ('k \<times> 'a path) option" where
  "healthiestPath now paths = healthiest_loop now paths None 0 0"

section \<open>Lemmas\<close>

text \<open>Dropping expired samples earlier changes no later read.\<close>

lemma pruneOld_pruneOld:
  assumes "t1 \<le> t2"
  shows "pruneOld (pruneOld xs t1) t2 = pruneOld xs t2"
proof -
  have "time_Sub t1 a \<le> time_Sub t2 a" for a using assms by (auto simp: time_Sub_def)
  then show ?thesis by (induction xs t1 rule: pruneOld.induct) (auto dest: less_le_trans)
qed

lemma RTTMin_snapshot: "t1 \<le> t2 \<Longrightarrow> RTTMin t2 (snd (RTTMin t1 p)) = RTTMin t2 p"
  by (simp add: RTTMin_def Let_def pruneOld_pruneOld)

lemma select_eq:
  "selectRedundantPaths now paths n =
     take n (sort_key (\<lambda>(k, p). rtt_key now p) (filter (\<lambda>(k, p). path_sendable p) paths))"
  by (simp add: selectRedundantPaths_def Let_def path_sendable_def)

lemma select_set:
  "set (selectRedundantPaths now paths n) \<subseteq> {(k, p) \<in> set paths. path_sendable p}"
  by (auto simp: select_eq dest: in_set_takeD)

lemma select_length:
  "length (selectRedundantPaths now paths n) = min n (length (filter (\<lambda>(k, p). path_sendable p) paths))"
  by (simp add: select_eq)

lemma distinct_take_sort:
  assumes "distinct (map fst xs)"
  shows "distinct (map fst (take n (sort_key f (filter P xs))))"
proof -
  have "distinct (map fst (filter P xs))" using assms by (rule distinct_map_filter)
  moreover have "mset (map fst (sort_key f (filter P xs))) = mset (map fst (filter P xs))" by simp
  ultimately have "distinct (map fst (sort_key f (filter P xs)))" using mset_eq_imp_distinct_iff by blast
  then show ?thesis by (simp add: take_map flip: take_map)
qed

lemma select_distinct: "distinct (map fst paths) \<Longrightarrow> distinct (map fst (selectRedundantPaths now paths n))"
  unfolding select_eq by (rule distinct_take_sort)

text \<open>A path left out is no faster than any chosen one.\<close>

lemma take_drop_sorted:
  assumes "sorted (map f xs)" and "x \<in> set (take n xs)" and "y \<in> set (drop n xs)"
  shows "f x \<le> f y"
proof -
  have "sorted (map f (take n xs) @ map f (drop n xs))" using assms(1) by (simp flip: map_append)
  then show ?thesis using assms(2,3) by (auto simp: sorted_append)
qed

lemma select_fastest:
  assumes "(k, p) \<in> set (selectRedundantPaths now paths n)" and "(k', p') \<in> set paths" and "path_sendable p'"
    and "(k', p') \<notin> set (selectRedundantPaths now paths n)"
  shows "rtt_key now p \<le> rtt_key now p'"
proof -
  let ?f = "\<lambda>(k, p). rtt_key now p"
  let ?xs = "sort_key ?f (filter (\<lambda>(k, p). path_sendable p) paths)"
  have "(k', p') \<in> set ?xs" using assms(2,3) by auto
  then have "(k', p') \<in> set (take n ?xs) \<union> set (drop n ?xs)"
    by (metis append_take_drop_id set_append)
  with assms(4) have "(k', p') \<in> set (drop n ?xs)" by (auto simp: select_eq)
  with assms(1) take_drop_sorted [of ?f ?xs "(k, p)" n "(k', p')"] show ?thesis by (auto simp: select_eq)
qed

text \<open>The order \<^verbatim>\<open>healthiestPath\<close> minimises: loss first, then round-trip time.\<close>

definition healthier :: "instant \<Rightarrow> 'a path \<Rightarrow> 'a path \<Rightarrow> bool" where
  "healthier now p q \<longleftrightarrow> Loss p < Loss q \<or> (Loss p = Loss q \<and> rtt_key now p \<le> rtt_key now q)"

abbreviation bond_active :: "'a path \<Rightarrow> bool" where
  "bond_active p \<equiv> pt_state p = StateActive \<and> pt_role p = RoleBond"

lemma healthier_trans: "healthier now p q \<Longrightarrow> healthier now q r \<Longrightarrow> healthier now p r"
  by (auto simp: healthier_def)

definition best_of :: "instant \<Rightarrow> ('k \<times> 'a path) list \<Rightarrow> ('k \<times> 'a path) option \<Rightarrow> ('k \<times> 'a path) option \<Rightarrow> bool" where
  "best_of now ps best res =
     (case res of
        None \<Rightarrow> best = None \<and> (\<forall>kq \<in> set ps. \<not> bond_active (snd kq))
      | Some kq \<Rightarrow> (best = Some kq \<or> kq \<in> set ps \<and> bond_active (snd kq)) \<and>
          (\<forall>kr \<in> set ps. bond_active (snd kr) \<longrightarrow> healthier now (snd kq) (snd kr)) \<and>
          (\<forall>b. best = Some b \<longrightarrow> healthier now (snd kq) (snd b)))"

lemma best_of_take:
  assumes "best_of now ps (Some kp) res" and "bond_active (snd kp)"
    and "\<And>b. best = Some b \<Longrightarrow> healthier now (snd kp) (snd b)"
  shows "best_of now (kp # ps) best res"
proof (cases res)
  case (Some kq)
  have h: "healthier now (snd kq) (snd kp)" using assms(1) by (simp add: best_of_def Some)
  then show ?thesis
    using assms healthier_trans [OF h] by (auto simp: best_of_def Some)
qed (use assms(1) in \<open>simp add: best_of_def\<close>)

lemma best_of_skip:
  assumes "best_of now ps best res" and "bond_active (snd kp) \<Longrightarrow> \<exists>b. best = Some b \<and> healthier now (snd b) (snd kp)"
  shows "best_of now (kp # ps) best res"
proof (cases res)
  case (Some kq)
  have "healthier now (snd kq) (snd kp)" if "bond_active (snd kp)"
    using assms(1) assms(2) [OF that] by (auto simp: best_of_def Some intro: healthier_trans)
  then show ?thesis using assms(1) by (auto simp: best_of_def Some)
qed (use assms in \<open>auto simp: best_of_def\<close>)

lemma healthiest_loop_spec:
  assumes "\<forall>b. best = Some b \<longrightarrow> bl = Loss (snd b) \<and> br = rtt_key now (snd b)"
  shows "best_of now ps best (healthiest_loop now ps best bl br)"
  using assms
proof (induction ps arbitrary: best bl br)
  case Nil
  then show ?case by (auto simp: best_of_def healthier_def split: option.splits)
next
  case (Cons kp ps)
  let ?p = "snd kp"
  have new: "best_of now ps (Some kp) (healthiest_loop now ps (Some kp) (Loss ?p) (rtt_key now ?p))"
    by (rule Cons.IH) simp
  have old: "best_of now ps best (healthiest_loop now ps best bl br)"
    by (rule Cons.IH [OF Cons.prems])
  show ?case
  proof (cases "bond_active ?p \<and> (best = None \<or> Loss ?p < bl \<or> (Loss ?p = bl \<and> rtt_key now ?p < br))")
    case True
    then have eq: "healthiest_loop now (kp # ps) best bl br =
        healthiest_loop now ps (Some kp) (Loss ?p) (rtt_key now ?p)" by (simp add: Let_def)
    have "healthier now ?p (snd b)" if "best = Some b" for b
      using True Cons.prems that by (auto simp: healthier_def)
    with new True show ?thesis unfolding eq by (auto intro: best_of_take)
  next
    case False
    then have eq: "healthiest_loop now (kp # ps) best bl br = healthiest_loop now ps best bl br" by (auto simp: Let_def)
    have "healthier now (snd b) ?p" if "best = Some b" "bond_active ?p" for b
      using False Cons.prems that by (auto simp: healthier_def)
    moreover have "bond_active ?p \<longrightarrow> best \<noteq> None" using False by auto
    ultimately show ?thesis unfolding eq using old by (intro best_of_skip) auto
  qed
qed

lemma healthiestPath_None: "healthiestPath now ps = None \<longleftrightarrow> (\<forall>kq \<in> set ps. \<not> bond_active (snd kq))"
  using healthiest_loop_spec [of None 0 0 now ps]
  by (auto simp: healthiestPath_def best_of_def split: option.splits)

lemma healthiestPath_Some:
  assumes "healthiestPath now ps = Some (k, p)"
  shows "(k, p) \<in> set ps" and "bond_active p"
    and "\<And>k' q. (k', q) \<in> set ps \<Longrightarrow> bond_active q \<Longrightarrow> healthier now p q"
  using healthiest_loop_spec [of None 0 0 now ps] assms
  by (auto simp: healthiestPath_def best_of_def)

section \<open>Properties\<close>

text \<open>C31. REDUNDANT mode duplicates onto the right paths: at most the requested number of them, as many as there
  are active bonded paths with room otherwise, never one path twice, and no path left out is faster than
  a chosen one.\<close>

theorem redundant_selection:
  assumes "distinct (map fst paths)"
  shows "length (selectRedundantPaths now paths n) = min n (length (filter (\<lambda>(k, p). path_sendable p) paths)) \<and>
    distinct (map fst (selectRedundantPaths now paths n)) \<and>
    (\<forall>(k, p) \<in> set (selectRedundantPaths now paths n). (k, p) \<in> set paths \<and> path_sendable p \<and>
       (\<forall>(k', p') \<in> set paths. path_sendable p' \<and> (k', p') \<notin> set (selectRedundantPaths now paths n) \<longrightarrow>
          rtt_key now p \<le> rtt_key now p'))"
proof (intro conjI)
  let ?s = "selectRedundantPaths now paths n"
  show "\<forall>(k, p) \<in> set ?s. (k, p) \<in> set paths \<and> path_sendable p \<and>
     (\<forall>(k', p') \<in> set paths. path_sendable p' \<and> (k', p') \<notin> set ?s \<longrightarrow> rtt_key now p \<le> rtt_key now p')"
    using select_set [of now paths n] select_fastest [of _ _ now paths n] by blast
qed (simp_all add: select_length select_distinct [OF assms])

definition ex_bond_path :: "u8 \<Rightarrow> duration \<Rightarrow> rat \<Rightarrow> unit path" where
  "ex_bond_path i rtt loss = (SetActive (NewPath i))\<lparr>pt_rttSamples := [\<lparr> rs_at = 0, rs_rtt = rtt \<rparr>], pt_lossEWMA := loss\<rparr>"

lemma ex_sendable: "path_sendable (ex_bond_path i r l)"
  by (simp add: path_sendable_def ex_bond_path_def SetActive_def NewPath_def Path_CWND_def NewController_def CWND_def
      initialCWND_def)

theorem redundant_selection_witness:
  "length (selectRedundantPaths 0 [(0 :: nat, ex_bond_path 0 30 0), (1, ex_bond_path 1 20 0), (2, ex_bond_path 2 10 0)] 2) = 2"
  using redundant_selection [of "[(0 :: nat, ex_bond_path 0 30 0), (1, ex_bond_path 1 20 0), (2, ex_bond_path 2 10 0)]" 0 2]
  by (simp add: ex_sendable)

text \<open>Parity goes to the healthiest path: if some path is active and bonded the chosen one is active and bonded
  with the least loss among those, the shortest round trip among equals, and otherwise none is chosen.\<close>

theorem parity_path_healthiest:
  "case healthiestPath now ps of
     None \<Rightarrow> filter (\<lambda>(k, q). bond_active q) ps = []
   | Some (k, p) \<Rightarrow> (k, p) \<in> set (filter (\<lambda>(k, q). bond_active q) ps) \<and>
       list_all (\<lambda>(k', q). healthier now p q) (filter (\<lambda>(k, q). bond_active q) ps)"
  using healthiestPath_None [of now ps] healthiestPath_Some [of now ps]
  by (auto simp: filter_empty_conv list_all_iff split: option.splits)

end
