(* ===== verification/Fec.thy ===== *)
theory Fec
  imports Float64
begin

text \<open>
  Adaptive forward error correction, \<^verbatim>\<open>core/fec/fec.go\<close>: how much parity a generation gets, the
  self-describing shards, and encoding and reconstruction of a generation. The Reed-Solomon code of
  \<^verbatim>\<open>klauspost/reedsolomon\<close> is a parameter; \<open>rs_ok\<close> is its documented contract for one geometry. Counts
  and widths are Go's \<^verbatim>\<open>int\<close>; an absent shard is the empty slice, as for that library.
\<close>

section \<open>Constants, errors and the external code\<close>

definition K :: nat where "K = 10"
definition MaxRedundancy :: rat where "MaxRedundancy = 1 / 4"
definition LossScale :: rat where "LossScale = 5"
definition lengthPrefix :: nat where "lengthPrefix = 2"

datatype fec_error =
    ErrTooFewShards
  | ErrEmptyGeneration
  | ErrPayloadWidth
  | ErrPayloadPrefix
  | ErrShardShort
  | ErrShardPrefix
  | ErrShardCount
  | ErrParityWidth
  | ErrCodec

record reedsolomon =
  rs_New :: "int \<Rightarrow> int \<Rightarrow> bool"
  rs_Encode :: "int \<Rightarrow> int \<Rightarrow> bytes list \<Rightarrow> bytes list option"
  rs_Reconstruct :: "int \<Rightarrow> int \<Rightarrow> bytes list \<Rightarrow> bytes list option"

section \<open>Redundancy\<close>

definition RedundancyFor :: "goarch \<Rightarrow> rat \<Rightarrow> int \<Rightarrow> int" where
  "RedundancyFor ar loss n =
     (if n \<le> 0 then 0
      else let ratio = fl64 (loss * LossScale);
               ratio = (if ratio < 0 then 0 else ratio);
               ratio = (if ratio > MaxRedundancy then MaxRedundancy else ratio);
               m = f2i64 ar (of_int \<lceil>fl64 (ratio * i2f n)\<rceil>)
           in if m > n then n else m)"

section \<open>Shards\<close>

definition ShardWidth :: "int \<Rightarrow> int" where
  "ShardWidth maxPayloadLen = int lengthPrefix + maxPayloadLen"

definition encodeShard :: "bytes \<Rightarrow> int \<Rightarrow> fec_error + bytes" where
  "encodeShard payload w =
     (if int (length payload + lengthPrefix) > w then Inl ErrPayloadWidth
      else if length payload > 65535 then Inl ErrPayloadPrefix
      else let buf = replicate (nat w) 0;
               buf = put_at 0 (put_be 2 (of_nat (length payload) :: u16)) buf
           in Inr (put_at lengthPrefix payload buf))"

definition decodeShard :: "bytes \<Rightarrow> fec_error + bytes" where
  "decodeShard buf =
     (if length buf < lengthPrefix then Inl ErrShardShort
      else let n = unat (get_be (sub_slice 0 lengthPrefix buf) :: u16)
           in if lengthPrefix + n > length buf then Inl ErrShardPrefix
              else Inr (sub_slice lengthPrefix (lengthPrefix + n) buf))"

section \<open>Generations\<close>

text \<open>The loop that turns the data packets of a generation into shards, leaving at the first error.\<close>

fun encodeShards :: "bytes list \<Rightarrow> int \<Rightarrow> fec_error + bytes list" where
  "encodeShards [] w = Inr []"
| "encodeShards (p # ps) w =
     (case encodeShard p w of Inl e \<Rightarrow> Inl e
      | Inr s \<Rightarrow> (case encodeShards ps w of Inl e \<Rightarrow> Inl e | Inr ss \<Rightarrow> Inr (s # ss)))"

definition EncodeParity :: "reedsolomon \<Rightarrow> bytes list \<Rightarrow> int \<Rightarrow> int \<Rightarrow> fec_error + bytes list" where
  "EncodeParity R dataShards w m =
     (let n = length dataShards
      in if n = 0 then Inl ErrEmptyGeneration
         else if m = 0 then Inr []
         else if \<not> rs_New R (int n) m then Inl ErrCodec
         else case encodeShards dataShards w of Inl e \<Rightarrow> Inl e
              | Inr ds \<Rightarrow>
                  (case rs_Encode R (int n) m (ds @ replicate (nat m) (replicate (nat w) 0)) of
                     None \<Rightarrow> Inl ErrCodec
                   | Some shards \<Rightarrow> Inr (drop n shards)))"

text \<open>The loop of \<^verbatim>\<open>Reconstruct\<close> that rebuilds the code's input from what arrived: the shard of a
  received data packet, a received parity shard as it is, nothing for a missing one.\<close>

definition rsShard :: "bytes list \<Rightarrow> bool list \<Rightarrow> int \<Rightarrow> int \<Rightarrow> nat \<Rightarrow> fec_error + bytes" where
  "rsShard shards present n w i =
     (if \<not> present ! i then Inr []
      else if int i < n then encodeShard (shards ! i) w
      else if int (length (shards ! i)) \<noteq> w then Inl ErrParityWidth
      else Inr (shards ! i))"

fun rsShards :: "bytes list \<Rightarrow> bool list \<Rightarrow> int \<Rightarrow> int \<Rightarrow> nat list \<Rightarrow> fec_error + bytes list" where
  "rsShards shards present n w [] = Inr []"
| "rsShards shards present n w (i # is) =
     (case rsShard shards present n w i of Inl e \<Rightarrow> Inl e
      | Inr s \<Rightarrow> (case rsShards shards present n w is of Inl e \<Rightarrow> Inl e | Inr ss \<Rightarrow> Inr (s # ss)))"

fun decodeMissing :: "bytes list \<Rightarrow> bool list \<Rightarrow> nat list \<Rightarrow> fec_error + (nat \<times> bytes) list" where
  "decodeMissing shards present [] = Inr []"
| "decodeMissing shards present (i # is) =
     (if present ! i then decodeMissing shards present is
      else case decodeShard (shards ! i) of Inl e \<Rightarrow> Inl e
           | Inr payload \<Rightarrow>
               (case decodeMissing shards present is of Inl e \<Rightarrow> Inl e
                | Inr rest \<Rightarrow> Inr ((i, payload) # rest)))"

text \<open>The result map is listed in the order of its indices.\<close>

definition Reconstruct ::
  "reedsolomon \<Rightarrow> bytes list \<Rightarrow> bool list \<Rightarrow> int \<Rightarrow> int \<Rightarrow> int \<Rightarrow> fec_error + (nat \<times> bytes) list" where
  "Reconstruct R shards present n m w =
     (if n \<le> 0 then Inl ErrEmptyGeneration
      else if int (length shards) \<noteq> n + m \<or> int (length present) \<noteq> n + m then Inl ErrShardCount
      else case rsShards shards present n w [0..<nat (n + m)] of Inl e \<Rightarrow> Inl e
           | Inr rss \<Rightarrow>
               if int (length (filter id present)) < n then Inl ErrTooFewShards
               else if \<not> rs_New R n m then Inl ErrCodec
               else (case rs_Reconstruct R n m rss of
                       None \<Rightarrow> Inl ErrCodec
                     | Some full \<Rightarrow> decodeMissing full present [0..<nat n]))"

section \<open>Lemmas on redundancy\<close>

lemma rep64_quarter: "\<bar>n\<bar> \<le> 2 ^ 53 \<Longrightarrow> rep64 (of_int n / 4)"
  unfolding rep64_def by (rule exI [of _ n], rule exI [of _ "- 2"]) simp

lemma rep64_1_4: "rep64 (1 / 4)"
  using rep64_quarter [of 1] by simp

lemma ratio_mono: "x \<le> y \<Longrightarrow> fl64 (x * LossScale) \<le> fl64 (y * LossScale)"
  by (intro fl64_mono) (simp add: LossScale_def)

text \<open>The clamped ratio, and the count before the final bound by \<open>n\<close>.\<close>

definition red_ratio :: "rat \<Rightarrow> rat" where
  "red_ratio loss = max 0 (min (1 / 4) (fl64 (loss * 5)))"

definition red_count :: "rat \<Rightarrow> int \<Rightarrow> int" where
  "red_count loss n = \<lceil>fl64 (red_ratio loss * of_int n)\<rceil>"

lemma red_ratio_bounds: "0 \<le> red_ratio loss" "red_ratio loss \<le> 1 / 4"
  by (simp_all add: red_ratio_def)

lemma red_count_bounds:
  assumes "0 < n" and "n \<le> 2 ^ 53"
  shows "0 \<le> red_count loss n" and "red_count loss n \<le> \<lceil>of_int n / 4 :: rat\<rceil>" and "red_count loss n \<le> n"
proof -
  have n: "(0::rat) \<le> of_int n" using assms by simp
  have "red_ratio loss * of_int n \<le> (1 / 4) * of_int n"
    by (rule mult_right_mono [OF red_ratio_bounds(2) n])
  then have le: "fl64 (red_ratio loss * of_int n) \<le> of_int n / 4"
    by (intro fl64_le_rep rep64_quarter) (use assms in auto)
  then show up: "red_count loss n \<le> \<lceil>of_int n / 4 :: rat\<rceil>" unfolding red_count_def by (rule ceiling_mono)
  have "0 \<le> fl64 (red_ratio loss * of_int n)"
    by (rule fl64_nonneg) (rule mult_nonneg_nonneg [OF red_ratio_bounds(1) n])
  then show "0 \<le> red_count loss n" by (simp add: red_count_def)
  have "\<lceil>of_int n / 4 :: rat\<rceil> \<le> n" using n by (simp add: ceiling_le_iff)
  with up show "red_count loss n \<le> n" by linarith
qed

lemma RedundancyFor_eq:
  assumes "0 < n" and "n \<le> 2 ^ 53"
  shows "RedundancyFor ar loss n = red_count loss n"
proof -
  have ratio: "(let ratio = (if r < 0 then 0 else r) in if ratio > MaxRedundancy then MaxRedundancy else ratio) =
      max 0 (min (1 / 4) r)" for r :: rat
    by (simp add: MaxRedundancy_def Let_def max_def min_def)
  have "f2i64 ar (of_int (red_count loss n)) = red_count loss n"
    using red_count_bounds [OF assms, of loss] assms
    by (simp add: f2i64_def trunc_def min_i64_def max_i64_def Let_def)
  then show ?thesis
    using assms red_count_bounds(3) [OF assms, of loss]
    unfolding RedundancyFor_def red_count_def red_ratio_def LossScale_def
    by (simp add: i2f_exact ratio [unfolded Let_def] Let_def)
qed

lemma red_ratio_mono: "x \<le> y \<Longrightarrow> red_ratio x \<le> red_ratio y"
  using ratio_mono [of x y] by (auto simp: red_ratio_def LossScale_def)

lemma red_count_mono: "x \<le> y \<Longrightarrow> 0 < n \<Longrightarrow> red_count x n \<le> red_count y n"
  unfolding red_count_def by (intro ceiling_mono fl64_mono mult_right_mono red_ratio_mono) auto

lemma red_count_zero: "loss \<le> 0 \<Longrightarrow> red_count loss n = 0"
  using fl64_nonpos [of "loss * 5"] by (simp add: red_count_def red_ratio_def)

lemma red_count_saturated:
  assumes "1 / 20 \<le> loss" and "0 < n" and "n \<le> 2 ^ 53"
  shows "red_count loss n = \<lceil>of_int n / 4 :: rat\<rceil>"
proof -
  have "1 / 4 \<le> fl64 (loss * 5)" using assms(1) by (intro fl64_ge_rep rep64_1_4) simp
  then have "red_ratio loss = 1 / 4" by (simp add: red_ratio_def)
  then have "red_count loss n = \<lceil>fl64 (of_int n / 4)\<rceil>" by (simp only: red_count_def) simp
  moreover have "fl64 (of_int n / 4) = of_int n / 4" using assms(2,3) by (intro fl64_rep rep64_quarter) simp
  ultimately show ?thesis by (simp only:)
qed

lemma red_count_pos:
  assumes "rep64 loss" and "0 < loss" and "0 < n"
  shows "1 \<le> red_count loss n"
proof -
  let ?r = "red_ratio loss"
  have "loss \<le> fl64 (loss * 5)" using assms by (intro fl64_ge_rep) simp_all
  then have r: "0 < ?r" using assms by (simp add: red_ratio_def)
  have rr: "rep64 ?r"
    using rep64_fl64 [of "loss * 5"] rep64_1_4 fl64_nonneg [of "loss * 5"] assms(2)
    by (auto simp: red_ratio_def min_def max_def)
  have "?r * 1 \<le> ?r * of_int n" using r assms(3) by (intro mult_left_mono) auto
  then have "?r \<le> fl64 (?r * of_int n)" using rr by (intro fl64_ge_rep) simp_all
  then have "0 < fl64 (?r * of_int n)" using r by linarith
  then show ?thesis by (simp add: red_count_def)
qed


section \<open>Lemmas on shards\<close>

lemma encodeShard_eq:
  "encodeShard payload w =
     (if int (length payload) + 2 > w then Inl ErrPayloadWidth
      else if length payload > 65535 then Inl ErrPayloadPrefix
      else Inr (put_be 2 (of_nat (length payload) :: u16) @ payload @
                replicate (nat w - 2 - length payload) 0))"
proof (cases "int (length payload) + 2 > w \<or> length payload > 65535")
  case False
  then have "2 + length payload \<le> nat w" by linarith
  then obtain k where k: "nat w = 2 + (length payload + k)"
    using le_Suc_ex [of "2 + length payload" "nat w"] by (auto simp: add.assoc)
  then show ?thesis using False
    by (auto simp: encodeShard_def Let_def put_at_def lengthPrefix_def replicate_add)
qed (auto simp: encodeShard_def lengthPrefix_def)

lemma encodeShard_Inr:
  "encodeShard payload w = Inr s \<longleftrightarrow>
     int (length payload) + 2 \<le> w \<and> length payload \<le> 65535 \<and>
     s = put_be 2 (of_nat (length payload) :: u16) @ payload @ replicate (nat w - 2 - length payload) 0"
  by (auto simp: encodeShard_eq)

lemma length_encodeShard: "encodeShard payload w = Inr s \<Longrightarrow> int (length s) = w"
  by (auto simp: encodeShard_Inr)

lemma decode_encodeShard:
  assumes "encodeShard payload w = Inr s"
  shows "decodeShard s = Inr payload"
proof -
  have "unat (of_nat (length payload) :: u16) = length payload"
    using assms by (simp add: encodeShard_Inr unat_of_nat take_bit_nat_eq_self_iff)
  moreover have "sub_slice 0 2 s = put_be 2 (of_nat (length payload) :: u16)"
    and "sub_slice 2 (2 + length payload) s = payload"
    using assms by (simp_all add: encodeShard_Inr sub_slice_def)
  moreover have "2 + length payload \<le> length s" using assms by (simp add: encodeShard_Inr)
  ultimately show ?thesis by (simp add: decodeShard_def lengthPrefix_def Let_def)
qed

text \<open>The shard of a payload that fits.\<close>

definition shard_of :: "int \<Rightarrow> bytes \<Rightarrow> bytes" where
  "shard_of w p = put_be 2 (of_nat (length p) :: u16) @ p @ replicate (nat w - 2 - length p) 0"

definition fits :: "int \<Rightarrow> bytes \<Rightarrow> bool" where
  "fits w p \<longleftrightarrow> int (length p) + 2 \<le> w \<and> length p \<le> 65535"

lemma encodeShard_fits: "fits w p \<Longrightarrow> encodeShard p w = Inr (shard_of w p)"
  by (auto simp: encodeShard_Inr fits_def shard_of_def)

lemma length_shard_of: "fits w p \<Longrightarrow> length (shard_of w p) = nat w"
  using length_encodeShard [OF encodeShard_fits] by fastforce

lemma decode_shard_of: "fits w p \<Longrightarrow> decodeShard (shard_of w p) = Inr p"
  by (rule decode_encodeShard) (rule encodeShard_fits)

lemma encodeShards_fits: "list_all (fits w) ps \<Longrightarrow> encodeShards ps w = Inr (map (shard_of w) ps)"
  by (induction ps) (simp_all add: encodeShard_fits)

lemma fits_w: "fits w p \<Longrightarrow> 0 < nat w"
  by (simp add: fits_def)

section \<open>The contract of the external code\<close>

text \<open>For \<open>n\<close> data and \<open>m\<close> parity shards of one positive width: the constructor accepts the geometry,
  \<^verbatim>\<open>Encode\<close> overwrites the parity shards, and \<^verbatim>\<open>Reconstruct\<close> refills the shards left empty whenever at
  least \<open>n\<close> are there.\<close>

definition mask :: "bool list \<Rightarrow> bytes list \<Rightarrow> bytes list" where
  "mask present ss = map (\<lambda>(b, s). if b then s else []) (zip present ss)"

definition uniform :: "nat \<Rightarrow> bytes list \<Rightarrow> bool" where
  "uniform w ss \<longleftrightarrow> list_all (\<lambda>s. length s = w) ss"

definition rs_ok :: "reedsolomon \<Rightarrow> nat \<Rightarrow> nat \<Rightarrow> bool" where
  "rs_ok R n m \<longleftrightarrow> rs_New R (int n) (int m) \<and>
     (\<forall>ds zs w. length ds = n \<longrightarrow> length zs = m \<longrightarrow> 0 < w \<longrightarrow> uniform w ds \<longrightarrow> uniform w zs \<longrightarrow>
        (\<exists>ps. length ps = m \<and> uniform w ps \<and> rs_Encode R (int n) (int m) (ds @ zs) = Some (ds @ ps) \<and>
           (\<forall>present. length present = n + m \<longrightarrow> n \<le> length (filter id present) \<longrightarrow>
              rs_Reconstruct R (int n) (int m) (mask present (ds @ ps)) = Some (ds @ ps))))"

lemma EncodeParity_ok:
  assumes "rs_ok R (length ds) m" and "ds \<noteq> []" and "0 < m" and "list_all (fits w) ds"
  obtains ps where "EncodeParity R ds w (int m) = Inr ps" and "length ps = m" and "uniform (nat w) ps"
    and "\<And>present. length present = length ds + m \<Longrightarrow> length ds \<le> length (filter id present) \<Longrightarrow>
      rs_Reconstruct R (int (length ds)) (int m) (mask present (map (shard_of w) ds @ ps)) =
        Some (map (shard_of w) ds @ ps)"
proof -
  let ?ds = "map (shard_of w) ds" and ?zs = "replicate m (replicate (nat w) (0 :: byte))"
  have "uniform (nat w) ?ds" "uniform (nat w) ?zs"
    using assms(4) by (auto simp: uniform_def list_all_iff length_shard_of)
  moreover have "0 < nat w" using assms(2,4) fits_w by (cases ds) auto
  moreover have "length ?ds = length ds" "length ?zs = m" by simp_all
  ultimately obtain ps where ps: "length ps = m" "uniform (nat w) ps"
      "rs_Encode R (int (length ds)) (int m) (?ds @ ?zs) = Some (?ds @ ps)"
      "\<forall>present. length present = length ds + m \<longrightarrow> length ds \<le> length (filter id present) \<longrightarrow>
         rs_Reconstruct R (int (length ds)) (int m) (mask present (?ds @ ps)) = Some (?ds @ ps)"
    using assms(1) unfolding rs_ok_def by blast
  have "EncodeParity R ds w (int m) = Inr ps"
    using assms ps(3) by (simp add: EncodeParity_def Let_def encodeShards_fits rs_ok_def)
  with ps that show ?thesis by blast
qed

section \<open>Lemmas on reconstruction\<close>

lemma rsShards_Inr:
  assumes "\<And>i. i \<in> set is \<Longrightarrow> rsShard shards present n w i = Inr (f i)"
  shows "rsShards shards present n w is = Inr (map f is)"
  using assms by (induction "is") simp_all

lemma decodeMissing_Inr:
  assumes "\<And>i. i \<in> set is \<Longrightarrow> \<not> present ! i \<Longrightarrow> decodeShard (shards ! i) = Inr (f i)"
  shows "decodeMissing shards present is = Inr (map (\<lambda>i. (i, f i)) (filter (\<lambda>i. \<not> present ! i) is))"
  using assms by (induction "is") simp_all

lemma map_upt_mask:
  assumes "length present = length ss"
  shows "map (\<lambda>i. if present ! i then ss ! i else []) [0..<length ss] = mask present ss"
  using assms by (intro nth_equalityI) (auto simp: mask_def)

text \<open>What arrived of a generation: every shard present is the one that was sent.\<close>

definition received :: "bytes list \<Rightarrow> bytes list \<Rightarrow> bytes list \<Rightarrow> bool list \<Rightarrow> bool" where
  "received ds ps shards present \<longleftrightarrow>
     length shards = length ds + length ps \<and> length present = length ds + length ps \<and>
     (\<forall>i < length ds + length ps. present ! i \<longrightarrow> shards ! i = (ds @ ps) ! i)"

lemma rsShard_received:
  assumes "received ds ps shards present" and "list_all (fits w) ds" and "uniform (nat w) ps" and "0 \<le> w"
    and "i < length ds + length ps"
  shows "rsShard shards present (int (length ds)) w i =
    Inr (if present ! i then (map (shard_of w) ds @ ps) ! i else [])"
proof (cases "present ! i")
  case True
  have s: "shards ! i = (ds @ ps) ! i" using assms(1,5) True by (simp add: received_def)
  show ?thesis
  proof (cases "i < length ds")
    case True
    then have "encodeShard (ds ! i) w = Inr (shard_of w (ds ! i))"
      using assms(2) by (intro encodeShard_fits) (simp add: list_all_length)
    with s True \<open>present ! i\<close> show ?thesis by (simp add: rsShard_def nth_append)
  next
    case False
    then have "length (ps ! (i - length ds)) = nat w"
      using assms(3,5) by (simp add: uniform_def list_all_length)
    with s False \<open>present ! i\<close> assms(4) show ?thesis by (simp add: rsShard_def nth_append)
  qed
qed (simp add: rsShard_def)

lemma rsShards_received:
  assumes "received ds ps shards present" and "list_all (fits w) ds" and "uniform (nat w) ps" and "0 \<le> w"
  shows "rsShards shards present (int (length ds)) w [0..<length ds + length ps] =
    Inr (mask present (map (shard_of w) ds @ ps))"
proof -
  let ?ss = "map (shard_of w) ds @ ps"
  have "rsShards shards present (int (length ds)) w [0..<length ds + length ps] =
      Inr (map (\<lambda>i. if present ! i then ?ss ! i else []) [0..<length ds + length ps])"
    by (rule rsShards_Inr) (simp add: rsShard_received [OF assms])
  also have "map (\<lambda>i. if present ! i then ?ss ! i else []) [0..<length ds + length ps] = mask present ?ss"
    using assms(1) map_upt_mask [of present ?ss] by (simp add: received_def)
  finally show ?thesis .
qed

lemma Reconstruct_few:
  assumes "received ds ps shards present" and "list_all (fits w) ds" and "uniform (nat w) ps" and "ds \<noteq> []"
    and "length (filter id present) < length ds"
  shows "Reconstruct R shards present (int (length ds)) (int (length ps)) w = Inl ErrTooFewShards"
proof -
  have "0 \<le> w" using assms(2,4) by (cases ds) (auto simp: fits_def)
  from rsShards_received [OF assms(1-3) this] show ?thesis
    using assms by (simp add: Reconstruct_def received_def flip: of_nat_add)
qed

lemma Reconstruct_all:
  assumes "received ds ps shards present" and "list_all (fits w) ds" and "uniform (nat w) ps" and "ds \<noteq> []"
    and "length ds \<le> length (filter id present)"
    and "rs_New R (int (length ds)) (int (length ps))"
    and "rs_Reconstruct R (int (length ds)) (int (length ps)) (mask present (map (shard_of w) ds @ ps)) =
      Some (map (shard_of w) ds @ ps)"
  shows "Reconstruct R shards present (int (length ds)) (int (length ps)) w =
    Inr (map (\<lambda>i. (i, ds ! i)) (filter (\<lambda>i. \<not> present ! i) [0..<length ds]))"
proof -
  have "0 \<le> w" using assms(2,4) by (cases ds) (auto simp: fits_def)
  note rs = rsShards_received [OF assms(1-3) this]
  have "decodeMissing (map (shard_of w) ds @ ps) present [0..<length ds] =
      Inr (map (\<lambda>i. (i, ds ! i)) (filter (\<lambda>i. \<not> present ! i) [0..<length ds]))"
    using assms(2) by (intro decodeMissing_Inr) (simp add: nth_append decode_shard_of list_all_length)
  with rs show ?thesis
    using assms by (simp add: Reconstruct_def received_def flip: of_nat_add)
qed


section \<open>A code for two data shards\<close>

text \<open>Single parity over two data shards, the smallest code that meets the contract.\<close>

definition xor_bytes :: "bytes \<Rightarrow> bytes \<Rightarrow> bytes" where
  "xor_bytes a b = map (\<lambda>(x, y). x XOR y) (zip a b)"

definition xor_code :: reedsolomon where
  "xor_code = \<lparr> rs_New = (\<lambda>n m. n = 2 \<and> m = 1),
     rs_Encode = (\<lambda>n m ss. Some [ss ! 0, ss ! 1, xor_bytes (ss ! 0) (ss ! 1)]),
     rs_Reconstruct = (\<lambda>n m ss.
       let a = ss ! 0; b = ss ! 1; p = ss ! 2;
           a = (if a = [] then xor_bytes b p else a);
           b = (if b = [] then xor_bytes a p else b)
       in Some [a, b, xor_bytes a b]) \<rparr>"

lemma length_xor_bytes: "length a = length b \<Longrightarrow> length (xor_bytes a b) = length b"
  by (simp add: xor_bytes_def)

lemma xor_bytes_cancel:
  assumes "length a = length b"
  shows "xor_bytes b (xor_bytes a b) = a" and "xor_bytes a (xor_bytes a b) = b"
proof -
  have "b XOR (a XOR b) = a" "a XOR (a XOR b) = b" for a b :: byte
    by (simp_all add: xor.left_commute [of b a b] flip: xor.assoc) (metis xor.assoc xor_self_eq xor.right_neutral xor.commute)
  with assms show "xor_bytes b (xor_bytes a b) = a" and "xor_bytes a (xor_bytes a b) = b"
    by (auto intro!: nth_equalityI simp: xor_bytes_def)
qed

lemma length_3: "length xs = 3 \<longleftrightarrow> (\<exists>a b c. xs = [a, b, c])"
  by (auto simp: numeral_eq_Suc length_Suc_conv)

lemma xor_code_ok: "rs_ok xor_code 2 1"
proof -
  have rec: "rs_Reconstruct xor_code 2 1 (mask pr [a, b, xor_bytes a b]) = Some [a, b, xor_bytes a b]"
    if w: "length a = w" "length b = w" "0 < w" and pr: "length pr = 3" "2 \<le> length (filter id pr)" for a b w pr
  proof -
    have ne: "a \<noteq> []" "b \<noteq> []" "length a = length b" using w by auto
    obtain x y z where p: "pr = [x, y, z]" using pr(1) by (auto simp: length_3)
    show ?thesis
      using pr(2) ne xor_bytes_cancel [OF ne(3)]
      by (cases x; cases y; cases z) (simp_all add: p mask_def xor_code_def Let_def)
  qed
  show ?thesis
    unfolding rs_ok_def
  proof (intro conjI allI impI)
    fix ds zs :: "bytes list" and w :: nat
    assume "length ds = 2" and zs: "length zs = 1" and "0 < w" and ds: "uniform w ds" and "uniform w zs"
    then obtain a b where ab: "ds = [a, b]" by (auto simp: numeral_eq_Suc length_Suc_conv)
    have l: "length a = w" "length b = w" using ds by (simp_all add: ab uniform_def)
    show "\<exists>ps. length ps = 1 \<and> uniform w ps \<and> rs_Encode xor_code (int 2) (int 1) (ds @ zs) = Some (ds @ ps) \<and>
       (\<forall>present. length present = 2 + 1 \<longrightarrow> 2 \<le> length (filter id present) \<longrightarrow>
          rs_Reconstruct xor_code (int 2) (int 1) (mask present (ds @ ps)) = Some (ds @ ps))"
      using l length_xor_bytes [of a b] rec [OF l \<open>0 < w\<close>]
      by (intro exI [of _ "[xor_bytes a b]"]) (auto simp: ab uniform_def xor_code_def)
  qed (simp add: xor_code_def)
qed

section \<open>Properties\<close>

text \<open>C21. Redundancy follows the observed loss and stays bounded: a generation without loss gets no parity, one
  with any measurable loss gets some, more loss never means less parity, the parity never exceeds a
  quarter of the data shards rounded up, and it is exactly that much from 5% loss on.\<close>

theorem redundancy_bounds:
  assumes "0 < n" and "n \<le> 2 ^ 53"
  shows "0 \<le> RedundancyFor ar loss n \<and> RedundancyFor ar loss n \<le> \<lceil>of_int n / 4 :: rat\<rceil> \<and>
    (loss \<le> 0 \<longrightarrow> RedundancyFor ar loss n = 0) \<and>
    (rep64 loss \<and> 0 < loss \<longrightarrow> 1 \<le> RedundancyFor ar loss n) \<and>
    (1 / 20 \<le> loss \<longrightarrow> RedundancyFor ar loss n = \<lceil>of_int n / 4 :: rat\<rceil>) \<and>
    (loss \<le> loss' \<longrightarrow> RedundancyFor ar loss n \<le> RedundancyFor ar loss' n)"
  unfolding RedundancyFor_eq [OF assms]
  using assms red_count_bounds [OF assms, of loss] red_count_zero red_count_pos red_count_saturated
    red_count_mono by blast

theorem redundancy_bounds_witness:
  "RedundancyFor AMD64 (1 / 20) 10 = 3 \<and> RedundancyFor AMD64 (1 / 20) 1 = 1 \<and>
   RedundancyFor ARM64 0 10 = 0 \<and> RedundancyFor AMD64 (1 / 20) 10 \<le> RedundancyFor AMD64 (1 / 10) 10"
proof -
  have "\<lceil>of_int 10 / 4 :: rat\<rceil> = 3" "\<lceil>of_int 1 / 4 :: rat\<rceil> = 1" by code_simp+
  then show ?thesis
    using redundancy_bounds [of 10 AMD64 "1 / 20" "1 / 10"] redundancy_bounds [of 1 AMD64 "1 / 20" 0]
      redundancy_bounds [of 10 ARM64 0 0] by auto
qed

text \<open>A shard carries its own length: encoding succeeds exactly when the payload with its prefix fits the
  width and the length fits the prefix, fills the width, and decodes to the payload whatever padding it
  got.\<close>

theorem shard_roundtrip:
  "case encodeShard payload w of
     Inl e \<Rightarrow> (e = ErrPayloadWidth \<and> ShardWidth (int (length payload)) > w) \<or>
              (e = ErrPayloadPrefix \<and> ShardWidth (int (length payload)) \<le> w \<and> length payload > 65535)
   | Inr s \<Rightarrow> ShardWidth (int (length payload)) \<le> w \<and> length payload \<le> 65535 \<and>
              int (length s) = w \<and> decodeShard s = Inr payload"
proof (cases "encodeShard payload w")
  case (Inl e)
  then show ?thesis by (auto simp: encodeShard_eq ShardWidth_def lengthPrefix_def split: if_splits)
next
  case (Inr s)
  then have "int (length payload) + 2 \<le> w \<and> length payload \<le> 65535" by (simp add: encodeShard_Inr)
  with decode_encodeShard [OF Inr] length_encodeShard [OF Inr] show ?thesis
    unfolding Inr by (simp add: ShardWidth_def lengthPrefix_def)
qed

text \<open>C20. Erasure recovery: given the contract of the code, a generation whose packets fit the width gets its
  parity, and whichever shards arrive, at least as many as there were data packets give back exactly the
  missing data packets at their original lengths, and fewer are refused as too few.\<close>

theorem fec_recovers:
  assumes "rs_ok R (length ds) m" and "ds \<noteq> []" and "0 < m"
    and "list_all (\<lambda>d. ShardWidth (int (length d)) \<le> w \<and> length d \<le> 65535) ds"
  shows "\<exists>ps. EncodeParity R ds w (int m) = Inr ps \<and> length ps = m \<and>
    (\<forall>shards present. received ds ps shards present \<longrightarrow>
       Reconstruct R shards present (int (length ds)) (int m) w =
         (if length ds \<le> length (filter id present)
          then Inr (map (\<lambda>i. (i, ds ! i)) (filter (\<lambda>i. \<not> present ! i) [0..<length ds]))
          else Inl ErrTooFewShards))"
proof -
  have f: "list_all (fits w) ds" using assms(4) by (auto simp: list_all_iff fits_def ShardWidth_def lengthPrefix_def)
  obtain ps where ps: "EncodeParity R ds w (int m) = Inr ps" "length ps = m" "uniform (nat w) ps"
    and rec: "\<And>present. length present = length ds + m \<Longrightarrow> length ds \<le> length (filter id present) \<Longrightarrow>
      rs_Reconstruct R (int (length ds)) (int m) (mask present (map (shard_of w) ds @ ps)) =
        Some (map (shard_of w) ds @ ps)"
    using EncodeParity_ok [OF assms(1-3) f] by blast
  have "Reconstruct R shards present (int (length ds)) (int m) w =
      (if length ds \<le> length (filter id present)
       then Inr (map (\<lambda>i. (i, ds ! i)) (filter (\<lambda>i. \<not> present ! i) [0..<length ds]))
       else Inl ErrTooFewShards)" if "received ds ps shards present" for shards present
    using Reconstruct_few [OF that f ps(3) assms(2)] Reconstruct_all [OF that f ps(3) assms(2), of R]
      rec [of present] that assms(1) ps(2) by (auto simp: received_def rs_ok_def)
  with ps show ?thesis by blast
qed

theorem fec_recovers_witness:
  "\<exists>ps. EncodeParity xor_code [[1, 2, 3], [4]] 5 1 = Inr ps \<and>
     Reconstruct xor_code [[1, 2, 3], [], ps ! 0] [True, False, True] 2 1 5 = Inr [(1, [4])]"
proof -
  let ?ds = "[[1, 2, 3], [4]] :: bytes list"
  have ok: "rs_ok xor_code (length ?ds) 1" using xor_code_ok by (simp add: numeral_2_eq_2)
  obtain ps where ps: "EncodeParity xor_code ?ds 5 (int 1) = Inr ps" "length ps = 1"
    and rec: "\<forall>shards present. received ?ds ps shards present \<longrightarrow>
       Reconstruct xor_code shards present (int (length ?ds)) (int 1) 5 =
         (if length ?ds \<le> length (filter id present)
          then Inr (map (\<lambda>i. (i, ?ds ! i)) (filter (\<lambda>i. \<not> present ! i) [0..<length ?ds]))
          else Inl ErrTooFewShards)"
    using fec_recovers [OF ok, where w = 5] by (auto simp: ShardWidth_def lengthPrefix_def)
  have "received ?ds ps [[1, 2, 3], [], ps ! 0] [True, False, True]"
    using ps(2) by (auto simp: received_def nth_Cons nth_append split: nat.splits)
  with rec have "Reconstruct xor_code [[1, 2, 3], [], ps ! 0] [True, False, True] (int (length ?ds)) (int 1) 5 =
      Inr [(1, [4])]" by (simp add: upt_rec)
  with ps show ?thesis by auto
qed

end
