(* ===== verification/Proto.thy ===== *)
theory Proto
  imports Prelude
begin

text \<open>
  The BOND/1 wire format, \<^verbatim>\<open>core/proto/proto.go\<close>: the clear outer prefix, the inner DATA header
  and the FEC header, each written into and read from a byte slice. A \<^verbatim>\<open>Marshal\<close> function
  writes into the caller's slice, so its model returns the slice's new contents. The three
  headers are instances of the fixed-width codec interface of \<open>Prelude\<close>.
\<close>

section \<open>Constants and types\<close>

definition Version :: u8 where "Version = 1"

type_synonym ptype = u8

definition TypeHandshakeInit :: ptype where "TypeHandshakeInit = 0x01"
definition TypeHandshakeResp :: ptype where "TypeHandshakeResp = 0x02"
definition TypeData :: ptype where "TypeData = 0x10"
definition TypeFEC :: ptype where "TypeFEC = 0x11"
definition TypeProbe :: ptype where "TypeProbe = 0x20"
definition TypeProbeAck :: ptype where "TypeProbeAck = 0x21"
definition TypeAck :: ptype where "TypeAck = 0x30"
definition TypePathAdd :: ptype where "TypePathAdd = 0x40"
definition TypePathDrop :: ptype where "TypePathDrop = 0x41"
definition TypeCtrl :: ptype where "TypeCtrl = 0x50"
definition TypeKeepalive :: ptype where "TypeKeepalive = 0x60"

lemmas ptype_defs = TypeHandshakeInit_def TypeHandshakeResp_def TypeData_def TypeFEC_def
  TypeProbe_def TypeProbeAck_def TypeAck_def TypePathAdd_def TypePathDrop_def TypeCtrl_def
  TypeKeepalive_def

definition Type_String :: "ptype \<Rightarrow> string" where
  "Type_String t =
     (if t = TypeHandshakeInit then ''HANDSHAKE_INIT''
      else if t = TypeHandshakeResp then ''HANDSHAKE_RESP''
      else if t = TypeData then ''DATA''
      else if t = TypeFEC then ''FEC''
      else if t = TypeProbe then ''PROBE''
      else if t = TypeProbeAck then ''PROBE_ACK''
      else if t = TypeAck then ''ACK''
      else if t = TypePathAdd then ''PATH_ADD''
      else if t = TypePathDrop then ''PATH_DROP''
      else if t = TypeCtrl then ''CTRL''
      else if t = TypeKeepalive then ''KEEPALIVE''
      else ''UNKNOWN'')"

definition FlagDUP :: u8 where "FlagDUP = push_bit 0 1"
definition FlagRTX :: u8 where "FlagRTX = push_bit 1 1"
definition FlagLATENCY :: u8 where "FlagLATENCY = push_bit 2 1"
definition FlagBULK :: u8 where "FlagBULK = push_bit 3 1"
definition FlagFECProtected :: u8 where "FlagFECProtected = push_bit 4 1"
definition FlagPUSH :: u8 where "FlagPUSH = push_bit 5 1"

lemmas flag_defs = FlagDUP_def FlagRTX_def FlagLATENCY_def FlagBULK_def FlagFECProtected_def
  FlagPUSH_def

definition HasFlag :: "u8 \<Rightarrow> u8 \<Rightarrow> bool" where
  "HasFlag flags f \<longleftrightarrow> flags AND f \<noteq> 0"

definition OuterFixedLen :: nat where "OuterFixedLen = 8"
definition NonceLen :: nat where "NonceLen = 12"
definition OuterPrefixLen :: nat where "OuterPrefixLen = OuterFixedLen + NonceLen"
definition AuthTagLen :: nat where "AuthTagLen = 16"
definition InnerHeaderLen :: nat where "InnerHeaderLen = 20"
definition HeaderOverhead :: nat where
  "HeaderOverhead = OuterPrefixLen + InnerHeaderLen + AuthTagLen"
definition FECHeaderLen :: nat where "FECHeaderLen = 4"

lemmas proto_lens [simp] = OuterFixedLen_def NonceLen_def OuterPrefixLen_def AuthTagLen_def
  InnerHeaderLen_def HeaderOverhead_def FECHeaderLen_def

datatype proto_error = ErrShortBuffer | ErrBadVersion | ErrPayloadTooLg

section \<open>Outer header\<close>

record OuterHeader =
  oh_Type :: ptype
  oh_Version :: u8
  oh_SessionIndex :: u32
  oh_Nonce :: bytes

definition wf_outer :: "OuterHeader \<Rightarrow> bool" where
  "wf_outer x \<longleftrightarrow> length (oh_Nonce x) = NonceLen"

definition MarshalOuter :: "bytes \<Rightarrow> OuterHeader \<Rightarrow> proto_error + bytes" where
  "MarshalOuter dst x =
     (if length dst < OuterPrefixLen then Inl ErrShortBuffer
      else let d = dst[0 := oh_Type x];
               d = d[1 := oh_Version x];
               d = d[2 := 0];
               d = d[3 := 0];
               d = put_at 4 (put_be 4 (oh_SessionIndex x)) d
           in Inr (put_at 8 (oh_Nonce x) d))"

definition UnmarshalOuter :: "bytes \<Rightarrow> proto_error + (OuterHeader \<times> nat)" where
  "UnmarshalOuter src =
     (if length src < OuterPrefixLen then Inl ErrShortBuffer
      else Inr (\<lparr> oh_Type = src ! 0, oh_Version = src ! 1,
                  oh_SessionIndex = get_be (sub_slice 4 8 src),
                  oh_Nonce = sub_slice 8 (8 + NonceLen) src \<rparr>, OuterPrefixLen))"

section \<open>Inner DATA header\<close>

record InnerDataHeader =
  ih_GSN :: u64
  ih_PSN :: u32
  ih_PathID :: u8
  ih_Flags :: u8
  ih_PayloadLen :: u16
  ih_GenerationID :: u16
  ih_GenIndex :: u8

definition MarshalInner :: "bytes \<Rightarrow> InnerDataHeader \<Rightarrow> proto_error + bytes" where
  "MarshalInner dst x =
     (if length dst < InnerHeaderLen then Inl ErrShortBuffer
      else let d = put_at 0 (put_be 8 (ih_GSN x)) dst;
               d = put_at 8 (put_be 4 (ih_PSN x)) d;
               d = d[12 := ih_PathID x];
               d = d[13 := ih_Flags x];
               d = put_at 14 (put_be 2 (ih_PayloadLen x)) d;
               d = put_at 16 (put_be 2 (ih_GenerationID x)) d;
               d = d[18 := ih_GenIndex x]
           in Inr (d[19 := 0]))"

definition UnmarshalInner :: "bytes \<Rightarrow> proto_error + (InnerDataHeader \<times> nat)" where
  "UnmarshalInner src =
     (if length src < InnerHeaderLen then Inl ErrShortBuffer
      else Inr (\<lparr> ih_GSN = get_be (sub_slice 0 8 src), ih_PSN = get_be (sub_slice 8 12 src),
                  ih_PathID = src ! 12, ih_Flags = src ! 13,
                  ih_PayloadLen = get_be (sub_slice 14 16 src),
                  ih_GenerationID = get_be (sub_slice 16 18 src),
                  ih_GenIndex = src ! 18 \<rparr>, InnerHeaderLen))"

section \<open>FEC header\<close>

record FECHeader =
  fh_N :: u8
  fh_M :: u8
  fh_W :: u16

definition MarshalFECHeader :: "bytes \<Rightarrow> FECHeader \<Rightarrow> proto_error + bytes" where
  "MarshalFECHeader dst x =
     (if length dst < FECHeaderLen then Inl ErrShortBuffer
      else let d = dst[0 := fh_N x];
               d = d[1 := fh_M x]
           in Inr (put_at 2 (put_be 2 (fh_W x)) d))"

definition UnmarshalFECHeader :: "bytes \<Rightarrow> proto_error + (FECHeader \<times> nat)" where
  "UnmarshalFECHeader src =
     (if length src < FECHeaderLen then Inl ErrShortBuffer
      else Inr (\<lparr> fh_N = src ! 0, fh_M = src ! 1, fh_W = get_be (sub_slice 2 4 src) \<rparr>,
                FECHeaderLen))"

section \<open>Closed forms\<close>

lemma list_split_at:
  assumes "n \<le> length xs"
  obtains ys zs where "xs = ys @ zs" and "length ys = n"
  by (rule that [of "take n xs" "drop n xs"]) (use assms in auto)

lemma length_Suc_conv_numeral:
  "length xs = numeral v \<longleftrightarrow> (\<exists>y ys. xs = y # ys \<and> length ys = pred_numeral v)"
  "length xs = Suc 0 \<longleftrightarrow> (\<exists>y. xs = [y])"
  by (simp_all add: length_Suc_conv numeral_eq_Suc)

lemma MarshalOuter_eq:
  assumes "OuterPrefixLen \<le> length dst" and "wf_outer x"
  shows "MarshalOuter dst x =
     Inr ([oh_Type x, oh_Version x, 0, 0] @ put_be 4 (oh_SessionIndex x) @ oh_Nonce x @
          drop OuterPrefixLen dst)"
proof -
  obtain pre rest where dst: "dst = pre @ rest" and "length pre = OuterPrefixLen"
    using assms(1) by (rule list_split_at)
  then obtain a0 a1 a2 a3 more where "pre = a0 # a1 # a2 # a3 # more" and "length more = 16"
    by (auto simp: length_Suc_conv_numeral)
  with dst assms(2) show ?thesis
    by (simp add: MarshalOuter_def put_at_def wf_outer_def)
qed

lemma split_dst:
  "dst = take 8 dst @ take 4 (drop 8 dst) @ take 2 (drop 12 dst) @ take 2 (drop 14 dst) @
     take 2 (drop 16 dst) @ take 2 (drop 18 dst) @ drop 20 dst"
proof -
  have "drop k dst = take j (drop k dst) @ drop (k + j) dst" for k j
    by (metis append_take_drop_id drop_drop add.commute)
  from this [of 0 8] this [of 8 4] this [of 12 2] this [of 14 2] this [of 16 2] this [of 18 2]
  show ?thesis by simp
qed

lemma put_at_split:
  "length pre = i \<Longrightarrow> length old = length ys \<Longrightarrow> put_at i ys (pre @ old @ post) = pre @ ys @ post"
  by (simp add: put_at_def)

lemma list_update_split: "length pre = i \<Longrightarrow> (pre @ x # post)[i := y] = pre @ y # post"
  by (auto simp: list_update_length)

lemma MarshalInner_eq:
  assumes "InnerHeaderLen \<le> length dst"
  shows "MarshalInner dst x =
     Inr (put_be 8 (ih_GSN x) @ put_be 4 (ih_PSN x) @ [ih_PathID x, ih_Flags x] @
          put_be 2 (ih_PayloadLen x) @ put_be 2 (ih_GenerationID x) @ [ih_GenIndex x, 0] @
          drop InnerHeaderLen dst)"
proof -
  define g p q l gi t where "g = take 8 dst" and "p = take 4 (drop 8 dst)"
    and "q = take 2 (drop 12 dst)" and "l = take 2 (drop 14 dst)" and "gi = take 2 (drop 16 dst)"
    and "t = take 2 (drop 18 dst)"
  note parts = this
  have len: "length g = 8" "length p = 4" "length q = 2" "length l = 2" "length gi = 2" "length t = 2"
    using assms by (simp_all add: parts)
  obtain q0 q1 t0 t1 where qt: "q = [q0, q1]" "t = [t0, t1]"
    using len(3,6) by (auto simp: length_Suc_conv_numeral)
  have "dst = g @ p @ q @ l @ gi @ t @ drop 20 dst"
    unfolding parts by (rule split_dst)
  then have dst: "dst = g @ p @ q0 # q1 # l @ gi @ t0 # t1 # drop 20 dst" by (simp add: qt)
  let ?G = "put_be 8 (ih_GSN x)" and ?P = "put_be 4 (ih_PSN x)"
    and ?L = "put_be 2 (ih_PayloadLen x)" and ?I = "put_be 2 (ih_GenerationID x)"
  obtain r where r: "dst = g @ p @ q0 # q1 # l @ gi @ t0 # t1 # r" and dr: "r = drop 20 dst"
    using dst by blast
  have "put_at 0 ?G dst = ?G @ p @ q0 # q1 # l @ gi @ t0 # t1 # r"
    using put_at_split [of "[]" 0 g ?G] len by (simp add: r)
  moreover have "put_at 8 ?P (?G @ p @ q0 # q1 # l @ gi @ t0 # t1 # r) =
      ?G @ ?P @ q0 # q1 # l @ gi @ t0 # t1 # r"
    using put_at_split [of ?G 8 p ?P] len by simp
  moreover have "(?G @ ?P @ q0 # q1 # l @ gi @ t0 # t1 # r)[12 := ih_PathID x] =
      ?G @ ?P @ ih_PathID x # q1 # l @ gi @ t0 # t1 # r"
    using list_update_split [of "?G @ ?P" 12 q0] by simp
  moreover have "(?G @ ?P @ ih_PathID x # q1 # l @ gi @ t0 # t1 # r)[13 := ih_Flags x] =
      ?G @ ?P @ ih_PathID x # ih_Flags x # l @ gi @ t0 # t1 # r"
    using list_update_split [of "?G @ ?P @ [ih_PathID x]" 13 q1] by simp
  moreover have "put_at 14 ?L (?G @ ?P @ ih_PathID x # ih_Flags x # l @ gi @ t0 # t1 # r) =
      ?G @ ?P @ ih_PathID x # ih_Flags x # ?L @ gi @ t0 # t1 # r"
    using put_at_split [of "?G @ ?P @ [ih_PathID x, ih_Flags x]" 14 l ?L] len by simp
  moreover have "put_at 16 ?I (?G @ ?P @ ih_PathID x # ih_Flags x # ?L @ gi @ t0 # t1 # r) =
      ?G @ ?P @ ih_PathID x # ih_Flags x # ?L @ ?I @ t0 # t1 # r"
    using put_at_split [of "?G @ ?P @ [ih_PathID x, ih_Flags x] @ ?L" 16 gi ?I] len by simp
  moreover have "(?G @ ?P @ ih_PathID x # ih_Flags x # ?L @ ?I @ t0 # t1 # r)[18 := ih_GenIndex x] =
      ?G @ ?P @ ih_PathID x # ih_Flags x # ?L @ ?I @ ih_GenIndex x # t1 # r"
    using list_update_split [of "?G @ ?P @ [ih_PathID x, ih_Flags x] @ ?L @ ?I" 18 t0] by simp
  moreover have "(?G @ ?P @ ih_PathID x # ih_Flags x # ?L @ ?I @ ih_GenIndex x # t1 # r)[19 := 0] =
      ?G @ ?P @ ih_PathID x # ih_Flags x # ?L @ ?I @ ih_GenIndex x # 0 # r"
    using list_update_split [of "?G @ ?P @ [ih_PathID x, ih_Flags x] @ ?L @ ?I @ [ih_GenIndex x]" 19 t1]
    by simp
  ultimately show ?thesis
    using assms by (simp add: MarshalInner_def Let_def dr)
qed

lemma MarshalFECHeader_eq:
  assumes "FECHeaderLen \<le> length dst"
  shows "MarshalFECHeader dst x =
     Inr ([fh_N x, fh_M x] @ put_be 2 (fh_W x) @ drop FECHeaderLen dst)"
proof -
  obtain pre rest where dst: "dst = pre @ rest" and "length pre = FECHeaderLen"
    using assms by (rule list_split_at)
  then obtain a0 a1 a2 a3 where "pre = [a0, a1, a2, a3]"
    by (auto simp: length_Suc_conv_numeral)
  with dst show ?thesis
    by (simp add: MarshalFECHeader_def put_at_def)
qed

lemma UnmarshalOuter_append:
  assumes "length si = 4" and "length nonce = 12"
  shows "UnmarshalOuter ([t, v, r0, r1] @ si @ nonce @ rest) =
     Inr (\<lparr> oh_Type = t, oh_Version = v, oh_SessionIndex = get_be si, oh_Nonce = nonce \<rparr>,
          OuterPrefixLen)"
  using assms by (simp add: UnmarshalOuter_def sub_slice_def)

lemma UnmarshalInner_append:
  assumes "length g = 8" "length p = 4" "length l = 2" "length gi = 2"
  shows "UnmarshalInner (g @ p @ [pid, fl] @ l @ gi @ [ix, pad] @ rest) =
     Inr (\<lparr> ih_GSN = get_be g, ih_PSN = get_be p, ih_PathID = pid, ih_Flags = fl,
            ih_PayloadLen = get_be l, ih_GenerationID = get_be gi, ih_GenIndex = ix \<rparr>,
          InnerHeaderLen)"
  using assms by (simp add: UnmarshalInner_def sub_slice_def nth_append)

lemma UnmarshalFECHeader_append:
  assumes "length w = 2"
  shows "UnmarshalFECHeader ([n, m] @ w @ rest) =
     Inr (\<lparr> fh_N = n, fh_M = m, fh_W = get_be w \<rparr>, FECHeaderLen)"
  using assms by (simp add: UnmarshalFECHeader_def sub_slice_def)

section \<open>The headers as codecs\<close>

lemma sub_slice_take: "j \<le> n \<Longrightarrow> sub_slice i j (take n xs) = sub_slice i j xs"
  by (simp add: sub_slice_def drop_take)

lemma UnmarshalOuter_take:
  "OuterPrefixLen \<le> length src \<Longrightarrow> UnmarshalOuter (take OuterPrefixLen src) = UnmarshalOuter src"
  by (simp add: UnmarshalOuter_def sub_slice_take)

lemma UnmarshalInner_take:
  "InnerHeaderLen \<le> length src \<Longrightarrow> UnmarshalInner (take InnerHeaderLen src) = UnmarshalInner src"
  by (simp add: UnmarshalInner_def sub_slice_take)

lemma UnmarshalFECHeader_take:
  "FECHeaderLen \<le> length src \<Longrightarrow> UnmarshalFECHeader (take FECHeaderLen src) = UnmarshalFECHeader src"
  by (simp add: UnmarshalFECHeader_def sub_slice_take)

interpretation outer: fixed_codec MarshalOuter UnmarshalOuter OuterPrefixLen wf_outer ErrShortBuffer
proof (unfold_locales, goal_cases)
  case (1 dst x) then show ?case by (simp add: MarshalOuter_def)
next
  case (2 src) then show ?case by (simp add: UnmarshalOuter_def)
next
  case (3 dst x) then show ?case
    by (intro exI [of _ "[oh_Type x, oh_Version x, 0, 0] @ put_be 4 (oh_SessionIndex x) @ oh_Nonce x"])
       (simp add: MarshalOuter_eq wf_outer_def)
next
  case (4 src) then show ?case by (simp add: UnmarshalOuter_def wf_outer_def)
next
  case (5 src src') then show ?case
    by (metis UnmarshalOuter_take)
next
  case (6 x dst out)
  then have "OuterPrefixLen \<le> length dst"
    by (auto simp: MarshalOuter_def split: if_splits)
  with 6 show ?case
    using UnmarshalOuter_append [of "put_be 4 (oh_SessionIndex x)" "oh_Nonce x"]
    by (auto simp: MarshalOuter_eq wf_outer_def)
qed

interpretation inner: fixed_codec MarshalInner UnmarshalInner InnerHeaderLen "\<lambda>_. True" ErrShortBuffer
proof (unfold_locales, goal_cases)
  case (1 dst x) then show ?case by (simp add: MarshalInner_def)
next
  case (2 src) then show ?case by (simp add: UnmarshalInner_def)
next
  case (3 dst x) then show ?case
    by (intro exI [of _ "put_be 8 (ih_GSN x) @ put_be 4 (ih_PSN x) @ [ih_PathID x, ih_Flags x] @
          put_be 2 (ih_PayloadLen x) @ put_be 2 (ih_GenerationID x) @ [ih_GenIndex x, 0]"])
       (simp add: MarshalInner_eq)
next
  case (4 src) then show ?case by (simp add: UnmarshalInner_def)
next
  case (5 src src') then show ?case
    by (metis UnmarshalInner_take)
next
  case (6 x dst out)
  then have "InnerHeaderLen \<le> length dst"
    by (auto simp: MarshalInner_def split: if_splits)
  with 6 have "out = put_be 8 (ih_GSN x) @ put_be 4 (ih_PSN x) @ [ih_PathID x, ih_Flags x] @
          put_be 2 (ih_PayloadLen x) @ put_be 2 (ih_GenerationID x) @ [ih_GenIndex x, 0] @
          drop InnerHeaderLen dst"
    by (simp only: MarshalInner_eq sum.inject)
  then show ?case
    by (simp only: UnmarshalInner_append length_put_be get_be_put_be) simp
qed

interpretation fech: fixed_codec MarshalFECHeader UnmarshalFECHeader FECHeaderLen "\<lambda>_. True" ErrShortBuffer
proof (unfold_locales, goal_cases)
  case (1 dst x) then show ?case by (simp add: MarshalFECHeader_def)
next
  case (2 src) then show ?case by (simp add: UnmarshalFECHeader_def)
next
  case (3 dst x) then show ?case
    by (intro exI [of _ "[fh_N x, fh_M x] @ put_be 2 (fh_W x)"])
       (simp add: MarshalFECHeader_eq)
next
  case (4 src) then show ?case by (simp add: UnmarshalFECHeader_def)
next
  case (5 src src') then show ?case
    by (metis UnmarshalFECHeader_take)
next
  case (6 x dst out)
  then have "FECHeaderLen \<le> length dst"
    by (auto simp: MarshalFECHeader_def split: if_splits)
  with 6 show ?case
    using UnmarshalFECHeader_append [of "put_be 2 (fh_W x)" "fh_N x" "fh_M x"]
    by (auto simp: MarshalFECHeader_eq)
qed

end
