(* ===== verification/Bond_Fec.thy ===== *)
theory Bond_Fec
  imports Fec Proto "HOL-Library.AList"
begin

text \<open>
  Generations on a tunnel, \<^verbatim>\<open>core/bond/fec.go\<close>: the sender that batches outgoing packets and emits parity
  when a generation closes, and the receiver's buffer of partly received generations. The sender's two
  callbacks appear as an argument (the loss estimate at that moment) and as a result (the parity shards
  handed to the send callback, in order). A shard index comes from a byte of a header, so the keys of
  the data map are natural numbers; the maps a generation keeps are association lists.
\<close>

section \<open>Sender\<close>

record fecSender =
  fs_genID :: u16
  fs_shards :: "bytes list"
  fs_maxLen :: int
  fs_openedAt :: "instant option"

definition FECGenTimeout :: duration where "FECGenTimeout = 30 * millisecond"

definition newFECSender :: fecSender where
  "newFECSender = \<lparr> fs_genID = 0, fs_shards = [], fs_maxLen = 0, fs_openedAt = None \<rparr>"

text \<open>One call of the send callback.\<close>

record parityShard =
  ps_genID :: u16
  ps_genIndex :: int
  ps_n :: int
  ps_m :: int
  ps_w :: int
  ps_shard :: bytes

definition NextSlot :: "instant \<Rightarrow> fecSender \<Rightarrow> (u16 \<times> nat) \<times> fecSender" where
  "NextSlot now f =
     (let f = (if length (fs_shards f) = 0 then f\<lparr>fs_openedAt := Some now\<rparr> else f)
      in ((fs_genID f, length (fs_shards f)), f))"

definition closeLocked :: "goarch \<Rightarrow> reedsolomon \<Rightarrow> rat \<Rightarrow> fecSender \<Rightarrow> parityShard list \<times> fecSender" where
  "closeLocked ar R loss f =
     (let n = length (fs_shards f)
      in if n = 0 then ([], f)
         else let m = RedundancyFor ar loss (int n);
                  emitted =
                    (if m > 0
                     then let w = ShardWidth (fs_maxLen f)
                          in case EncodeParity R (fs_shards f) w m of
                               Inl e \<Rightarrow> []
                             | Inr parity \<Rightarrow>
                                 map (\<lambda>(i, shard). \<lparr> ps_genID = fs_genID f, ps_genIndex = int (n + i), ps_n = int n,
                                                      ps_m = m, ps_w = w, ps_shard = shard \<rparr>)
                                     (enumerate 0 parity)
                     else [])
              in (emitted, f\<lparr>fs_genID := fs_genID f + 1, fs_shards := [], fs_maxLen := 0\<rparr>))"

definition Record ::
  "goarch \<Rightarrow> reedsolomon \<Rightarrow> rat \<Rightarrow> u16 \<Rightarrow> nat \<Rightarrow> bytes \<Rightarrow> fecSender \<Rightarrow> parityShard list \<times> fecSender" where
  "Record ar R loss genID genIndex innerPlaintext f =
     (if genID \<noteq> fs_genID f \<or> genIndex \<noteq> length (fs_shards f) then ([], f)
      else let f = f\<lparr>fs_shards := fs_shards f @ [innerPlaintext]\<rparr>;
               f = (if int (length innerPlaintext) > fs_maxLen f
                    then f\<lparr>fs_maxLen := int (length innerPlaintext)\<rparr> else f)
           in if length (fs_shards f) \<ge> K then closeLocked ar R loss f else ([], f))"

text \<open>The unset opening time is the year 1, so its age saturates.\<close>

definition Flush ::
  "goarch \<Rightarrow> reedsolomon \<Rightarrow> rat \<Rightarrow> instant \<Rightarrow> duration \<Rightarrow> fecSender \<Rightarrow> parityShard list \<times> fecSender" where
  "Flush ar R loss now age f =
     (let since = (case fs_openedAt f of None \<Rightarrow> max_i64 | Some t \<Rightarrow> time_Sub now t)
      in if length (fs_shards f) = 0 \<or> since < age then ([], f) else closeLocked ar R loss f)"

section \<open>Receiver\<close>

record fecGeneration =
  g_n :: int
  g_m :: int
  g_w :: int
  g_data :: "(nat \<times> bytes) list"
  g_parity :: "(nat \<times> bytes) list"
  g_firstSeen :: instant

type_synonym fecGenBuffer = "u16 \<Rightarrow> fecGeneration option"

definition newFECGenBuffer :: fecGenBuffer where "newFECGenBuffer = Map.empty"

definition getOrCreateLocked :: "instant \<Rightarrow> u16 \<Rightarrow> fecGenBuffer \<Rightarrow> fecGeneration \<times> fecGenBuffer" where
  "getOrCreateLocked now genID b =
     (case b genID of
        Some g \<Rightarrow> (g, b)
      | None \<Rightarrow> let g = \<lparr> g_n = 0, g_m = 0, g_w = 0, g_data = [], g_parity = [], g_firstSeen = now \<rparr>
                in (g, b(genID \<mapsto> g)))"

definition HandleData :: "instant \<Rightarrow> u16 \<Rightarrow> nat \<Rightarrow> bytes \<Rightarrow> fecGenBuffer \<Rightarrow> fecGenBuffer" where
  "HandleData now genID genIndex innerPlaintext b =
     (let (g, b) = getOrCreateLocked now genID b
      in b(genID \<mapsto> g\<lparr>g_data := AList.update genIndex innerPlaintext (g_data g)\<rparr>))"

text \<open>Writing the entries of a map with index below a limit into a slice at an offset.\<close>

definition place :: "nat \<Rightarrow> int \<Rightarrow> (nat \<times> 'a) list \<Rightarrow> 'a list \<Rightarrow> 'a list" where
  "place off bnd kvs xs = fold (\<lambda>(i, v) xs. if int i < bnd then xs[off + i := v] else xs) kvs xs"

definition HandleFEC ::
  "reedsolomon \<Rightarrow> instant \<Rightarrow> u16 \<Rightarrow> int \<Rightarrow> int \<Rightarrow> int \<Rightarrow> int \<Rightarrow> bytes \<Rightarrow> fecGenBuffer
     \<Rightarrow> (nat \<times> bytes) list \<times> fecGenBuffer" where
  "HandleFEC R now genID n m w parityIndex shard b =
     (if n \<le> 0 \<or> m \<le> 0 \<or> w \<le> 0 \<or> parityIndex < 0 \<or> parityIndex \<ge> m then ([], b)
      else let (g, b) = getOrCreateLocked now genID b
           in if g_n g \<noteq> 0 \<and> (g_n g \<noteq> n \<or> g_m g \<noteq> m \<or> g_w g \<noteq> w) then ([], b)
              else let g = (if g_n g = 0 then g\<lparr>g_n := n, g_m := m, g_w := w\<rparr> else g);
                       g = g\<lparr>g_parity := AList.update (nat parityIndex) shard (g_parity g)\<rparr>;
                       b = b(genID \<mapsto> g);
                       haveData = length (filter (\<lambda>(i, d). int i < g_n g) (g_data g))
                   in if int haveData \<ge> g_n g then ([], b)
                      else if int (haveData + length (g_parity g)) < g_n g then ([], b)
                      else let shards = replicate (nat (g_n g + g_m g)) [];
                               present = replicate (nat (g_n g + g_m g)) False;
                               shards = place 0 (g_n g) (g_data g) shards;
                               present = place 0 (g_n g) (map (\<lambda>(i, d). (i, True)) (g_data g)) present;
                               shards = place (nat (g_n g)) (g_m g) (g_parity g) shards;
                               present = place (nat (g_n g)) (g_m g) (map (\<lambda>(i, p). (i, True)) (g_parity g)) present
                           in case Reconstruct R shards present (g_n g) (g_m g) (g_w g) of
                                Inl e \<Rightarrow> ([], b)
                              | Inr recovered \<Rightarrow>
                                  (recovered,
                                   b(genID \<mapsto> g\<lparr>g_data := fold (\<lambda>(i, p). AList.update i p) recovered (g_data g)\<rparr>)))"

definition FEC_GC :: "instant \<Rightarrow> duration \<Rightarrow> fecGenBuffer \<Rightarrow> fecGenBuffer" where
  "FEC_GC now maxAge b = (\<lambda>i. case b i of
       None \<Rightarrow> None
     | Some g \<Rightarrow> if time_Sub now (g_firstSeen g) > maxAge then None else Some g)"

definition unmarshalRecovered :: "bytes \<Rightarrow> (InnerDataHeader \<times> bytes) option" where
  "unmarshalRecovered innerPlaintext =
     (case UnmarshalInner innerPlaintext of
        Inl e \<Rightarrow> None
      | Inr (x, n) \<Rightarrow> Some (x, drop n innerPlaintext))"

section \<open>Lemmas on maps written into slices\<close>

lemma place_Nil [simp]: "place off bnd [] xs = xs"
  by (simp add: place_def)

lemma place_Cons:
  "place off bnd ((i, v) # kvs) xs = place off bnd kvs (if int i < bnd then xs[off + i := v] else xs)"
  by (simp add: place_def)

lemma length_place [simp]: "length (place off bnd kvs xs) = length xs"
  by (induction kvs arbitrary: xs) (auto simp: place_Cons)

lemma nth_place:
  assumes "distinct (map fst kvs)" and "off + nat bnd \<le> length xs" and "k < length xs"
  shows "place off bnd kvs xs ! k =
    (if off \<le> k \<and> k < off + nat bnd then case map_of kvs (k - off) of None \<Rightarrow> xs ! k | Some v \<Rightarrow> v else xs ! k)"
  using assms
proof (induction kvs arbitrary: xs)
  case (Cons kv kvs)
  obtain i v where kv: "kv = (i, v)" by (cases kv)
  have i: "map_of kvs i = None" using Cons.prems(1) by (simp add: kv map_of_eq_None_iff image_iff)
  show ?case
    using Cons.prems i
    by (auto simp: kv place_Cons Cons.IH nth_list_update split: option.splits)
qed simp


section \<open>Generations that were sent\<close>

text \<open>What the peer sent under each generation number: data packets, parity shards and width. A
  generation closed without parity, or still open, has no entry.\<close>

type_synonym sent = "u16 \<Rightarrow> (bytes list \<times> bytes list \<times> int) option"

definition sent_ok :: "reedsolomon \<Rightarrow> sent \<Rightarrow> bool" where
  "sent_ok R S \<longleftrightarrow> (\<forall>i ds ps w. S i = Some (ds, ps, w) \<longrightarrow>
     ds \<noteq> [] \<and> ps \<noteq> [] \<and> list_all (fits w) ds \<and> rs_ok R (length ds) (length ps) \<and>
     EncodeParity R ds w (int (length ps)) = Inr ps)"

text \<open>A generation of the receiver that agrees with what was sent. Entries at or past the number of data
  packets are packets that missed the close of their generation and may hold anything.\<close>

definition gen_agrees :: "bytes list \<Rightarrow> bytes list \<Rightarrow> int \<Rightarrow> fecGeneration \<Rightarrow> bool" where
  "gen_agrees ds ps w g \<longleftrightarrow>
     distinct (map fst (g_data g)) \<and> distinct (map fst (g_parity g)) \<and>
     (\<forall>i d. map_of (g_data g) i = Some d \<longrightarrow> i < length ds \<longrightarrow> d = ds ! i) \<and>
     (\<forall>j s. map_of (g_parity g) j = Some s \<longrightarrow> j < length ps \<and> s = ps ! j) \<and>
     (g_n g = 0 \<or> g_n g = int (length ds) \<and> g_m g = int (length ps) \<and> g_w g = w)"

definition held :: "nat \<Rightarrow> (nat \<times> bytes) list \<Rightarrow> nat set" where
  "held n kvs = {i. i < n \<and> map_of kvs i \<noteq> None}"

lemma finite_held [simp]: "finite (held n kvs)"
  by (simp add: held_def)

lemma card_held: "card (held n kvs) \<le> n"
  using card_mono [of "{..<n}" "held n kvs"] by (auto simp: held_def)

lemma held_eq: "held n kvs = {i. i < n} \<inter> fst ` set kvs"
  by (auto simp: held_def map_of_eq_None_iff image_iff)

lemma length_filter_held:
  assumes "distinct (map fst kvs)"
  shows "length (filter (\<lambda>(i, d). int i < int n) kvs) = card (held n kvs)"
proof -
  have "distinct (map fst (filter (\<lambda>(i, d). i < n) kvs))" using assms by (rule distinct_map_filter)
  then have "length (filter (\<lambda>(i, d). i < n) kvs) = card (fst ` set (filter (\<lambda>(i, d). i < n) kvs))"
    by (metis distinct_card length_map list.set_map)
  also have "fst ` set (filter (\<lambda>(i, d). i < n) kvs) = held n kvs" by (force simp: held_eq)
  finally show ?thesis by simp
qed

lemma length_eq_held:
  assumes "distinct (map fst kvs)" and "\<And>j s. map_of kvs j = Some s \<Longrightarrow> j < m"
  shows "length kvs = card (held m kvs)"
proof -
  have "filter (\<lambda>(i, d). int i < int m) kvs = kvs"
    using assms by (auto simp: filter_id_conv dest!: map_of_is_SomeI)
  with length_filter_held [OF assms(1), of m] show ?thesis by simp
qed

lemma length_filter_id: "length (filter id bs) = card {i. i < length bs \<and> bs ! i}"
  by (simp add: length_filter_conv_card)

lemma map_of_True: "map_of (map (\<lambda>(i, d). (i, True)) kvs) i = map_option (\<lambda>_. True) (map_of kvs i)"
  by (induction kvs) auto

lemma fst_map_True [simp]: "map (fst \<circ> (\<lambda>(i, d). (i, True))) kvs = map fst kvs"
  by (induction kvs) auto

text \<open>The slices handed to \<^verbatim>\<open>Reconstruct\<close>.\<close>

definition slots :: "nat \<Rightarrow> nat \<Rightarrow> (nat \<times> 'a) list \<Rightarrow> (nat \<times> 'a) list \<Rightarrow> 'a \<Rightarrow> 'a list" where
  "slots n m dat par z = place n (int m) par (place 0 (int n) dat (replicate (n + m) z))"

lemma length_slots [simp]: "length (slots n m dat par z) = n + m"
  by (simp add: slots_def)

lemma nth_slots:
  assumes "distinct (map fst dat)" and "distinct (map fst par)" and "k < n + m"
  shows "slots n m dat par z ! k =
    (case (if k < n then map_of dat k else map_of par (k - n)) of None \<Rightarrow> z | Some v \<Rightarrow> v)"
  using assms by (auto simp: slots_def nth_place split: option.splits)

abbreviation marks :: "(nat \<times> bytes) list \<Rightarrow> (nat \<times> bool) list" where
  "marks kvs \<equiv> map (\<lambda>(i, d). (i, True)) kvs"

lemma nth_present:
  assumes "distinct (map fst dat)" and "distinct (map fst par)" and "k < n + m"
  shows "slots n m (marks dat) (marks par) False ! k \<longleftrightarrow>
    (if k < n then k \<in> held n dat else k - n \<in> held m par)"
  using assms by (subst nth_slots) (auto simp: map_of_True held_def split: option.splits)

lemma count_present:
  assumes "distinct (map fst dat)" and "distinct (map fst par)"
  shows "length (filter id (slots n m (marks dat) (marks par) False)) = card (held n dat) + card (held m par)"
proof -
  have "{i. i < n + m \<and> slots n m (marks dat) (marks par) False ! i} = held n dat \<union> (\<lambda>j. n + j) ` held m par"
  proof (intro equalityI subsetI)
    fix i assume "i \<in> {i. i < n + m \<and> slots n m (marks dat) (marks par) False ! i}"
    then show "i \<in> held n dat \<union> (\<lambda>j. n + j) ` held m par"
      using nth_present [OF assms] by (cases "i < n") (auto intro!: image_eqI [of _ _ "i - n"])
  next
    fix i assume "i \<in> held n dat \<union> (\<lambda>j. n + j) ` held m par"
    then show "i \<in> {i. i < n + m \<and> slots n m (marks dat) (marks par) False ! i}"
      using nth_present [OF assms, of i] by (auto simp: held_def)
  qed
  moreover have "held n dat \<inter> (\<lambda>j. n + j) ` held m par = {}" by (auto simp: held_def)
  ultimately show ?thesis
    by (simp add: length_filter_id card_Un_disjoint card_image)
qed

lemma received_slots:
  assumes "gen_agrees ds ps w g"
  shows "received ds ps (slots (length ds) (length ps) (g_data g) (g_parity g) [])
    (slots (length ds) (length ps) (marks (g_data g)) (marks (g_parity g)) False)"
proof -
  let ?n = "length ds" and ?m = "length ps"
  have d: "distinct (map fst (g_data g))" "distinct (map fst (g_parity g))"
    using assms by (simp_all add: gen_agrees_def)
  have "slots ?n ?m (g_data g) (g_parity g) [] ! i = (ds @ ps) ! i"
    if "i < ?n + ?m" and "slots ?n ?m (marks (g_data g)) (marks (g_parity g)) False ! i" for i
  proof (cases "i < ?n")
    case True
    with that obtain x where "map_of (g_data g) i = Some x"
      by (auto simp: nth_present [OF d] held_def)
    with True assms show ?thesis by (auto simp: nth_slots [OF d] nth_append gen_agrees_def)
  next
    case False
    with that obtain x where "map_of (g_parity g) (i - ?n) = Some x"
      by (auto simp: nth_present [OF d] held_def)
    with False that(1) assms show ?thesis by (auto simp: nth_slots [OF d] nth_append gen_agrees_def)
  qed
  then show ?thesis by (simp add: received_def)
qed

text \<open>The data packets still missing.\<close>

definition missing :: "bytes list \<Rightarrow> (nat \<times> bytes) list \<Rightarrow> (nat \<times> bytes) list" where
  "missing ds kvs = map (\<lambda>i. (i, ds ! i)) (filter (\<lambda>i. i \<notin> held (length ds) kvs) [0..<length ds])"

lemma Reconstruct_slots:
  assumes "gen_agrees ds ps w g" and "sent_ok R S" and "S i = Some (ds, ps, w)"
    and "length ds \<le> card (held (length ds) (g_data g)) + card (held (length ps) (g_parity g))"
  shows "Reconstruct R (slots (length ds) (length ps) (g_data g) (g_parity g) [])
      (slots (length ds) (length ps) (marks (g_data g)) (marks (g_parity g)) False)
      (int (length ds)) (int (length ps)) w = Inr (missing ds (g_data g))"
proof -
  have ok: "ds \<noteq> []" "ps \<noteq> []" "list_all (fits w) ds" "rs_ok R (length ds) (length ps)"
      "EncodeParity R ds w (int (length ps)) = Inr ps"
    using assms(2,3) by (auto simp: sent_ok_def)
  have d: "distinct (map fst (g_data g))" "distinct (map fst (g_parity g))"
    using assms(1) by (simp_all add: gen_agrees_def)
  let ?pr = "slots (length ds) (length ps) (marks (g_data g)) (marks (g_parity g)) False"
  have many: "length ds \<le> length (filter id ?pr)" using assms(4) by (simp add: count_present [OF d])
  have par: "uniform (nat w) ps \<and> rs_Reconstruct R (int (length ds)) (int (length ps))
      (mask ?pr (map (shard_of w) ds @ ps)) = Some (map (shard_of w) ds @ ps)"
    by (rule EncodeParity_ok [OF ok(4,1) _ ok(3)]) (use ok(2,5) many in auto)
  have "filter (\<lambda>i. \<not> ?pr ! i) [0..<length ds] = filter (\<lambda>i. i \<notin> held (length ds) (g_data g)) [0..<length ds]"
    by (rule filter_cong) (auto simp: nth_present [OF d])
  with Reconstruct_all [OF received_slots [OF assms(1)] ok(3) _ ok(1) many, of R] par ok(4)
  show ?thesis by (simp add: missing_def rs_ok_def)
qed


section \<open>Lemmas on the receiver's operations\<close>

text \<open>The generation an operation works on, existing or fresh.\<close>

definition cur :: "instant \<Rightarrow> u16 \<Rightarrow> fecGenBuffer \<Rightarrow> fecGeneration" where
  "cur now i b = fst (getOrCreateLocked now i b)"

lemma cur_Some: "b i = Some g \<Longrightarrow> cur now i b = g"
  by (simp add: cur_def getOrCreateLocked_def)

lemma cur_upd [simp]: "cur now i (b(j \<mapsto> g)) = (if i = j then g else cur now i b)"
  by (auto simp: cur_def getOrCreateLocked_def Let_def split: option.splits)

lemma cur_None: "b i = None \<Longrightarrow>
    cur now i b = \<lparr> g_n = 0, g_m = 0, g_w = 0, g_data = [], g_parity = [], g_firstSeen = now \<rparr>"
  by (simp add: cur_def getOrCreateLocked_def Let_def)

lemma getOrCreateLocked_cases:
  obtains b' where "getOrCreateLocked now i b = (cur now i b, b')" and "\<And>g. b'(i \<mapsto> g) = b(i \<mapsto> g)"
  by (cases "b i") (auto simp: cur_def getOrCreateLocked_def Let_def)

lemma HandleData_eq:
  "HandleData now i k d b =
     b(i \<mapsto> (cur now i b)\<lparr>g_data := AList.update k d (g_data (cur now i b))\<rparr>)"
  by (rule getOrCreateLocked_cases [of now i b]) (simp add: HandleData_def)

lemma gen_agrees_data:
  assumes "gen_agrees ds ps w g" and "k < length ds \<longrightarrow> d = ds ! k"
  shows "gen_agrees ds ps w (g\<lparr>g_data := AList.update k d (g_data g)\<rparr>)"
  using assms by (auto simp: gen_agrees_def update_conv distinct_update split: if_splits)

lemma held_update: "held n (AList.update k d kvs) = (if k < n then insert k (held n kvs) else held n kvs)"
  by (auto simp: held_def update_conv)

lemma map_of_fold_update:
  assumes "\<forall>(k, v) \<in> set kvs. v = f k"
  shows "map_of (fold (\<lambda>(i, p). AList.update i p) kvs al) j =
    (if j \<in> fst ` set kvs then Some (f j) else map_of al j)"
  using assms by (induction kvs arbitrary: al) (auto simp: update_conv)

lemma distinct_fold_update:
  "distinct (map fst al) \<Longrightarrow> distinct (map fst (fold (\<lambda>(i, p). AList.update i p) kvs al))"
  by (induction kvs arbitrary: al) (auto simp: distinct_update)

lemma fst_missing: "fst ` set (missing ds kvs) = {..<length ds} - held (length ds) kvs"
  by (force simp: missing_def)

lemma missing_nth: "\<forall>(k, v) \<in> set (missing ds kvs). v = ds ! k"
  by (auto simp: missing_def)

lemma missing_full: "length ds \<le> card (held (length ds) kvs) \<Longrightarrow> missing ds kvs = []"
proof -
  assume "length ds \<le> card (held (length ds) kvs)"
  then have "held (length ds) kvs = {..<length ds}"
    by (intro card_subset_eq) (use card_held [of "length ds" kvs] in \<open>auto simp: held_def\<close>)
  then show ?thesis using fst_missing [of ds kvs] by simp
qed

text \<open>The parity step on a generation that agrees with what was sent.\<close>

definition with_parity :: "int \<Rightarrow> int \<Rightarrow> int \<Rightarrow> nat \<Rightarrow> bytes \<Rightarrow> fecGeneration \<Rightarrow> fecGeneration" where
  "with_parity n m w j s g =
     g\<lparr>g_n := n, g_m := m, g_w := w, g_parity := AList.update j s (g_parity g)\<rparr>"

definition recovered_by :: "bytes list \<Rightarrow> bytes list \<Rightarrow> fecGeneration \<Rightarrow> (nat \<times> bytes) list" where
  "recovered_by ds ps g =
     (if length ds \<le> card (held (length ds) (g_data g)) + card (held (length ps) (g_parity g))
      then missing ds (g_data g) else [])"

definition with_recovered :: "(nat \<times> bytes) list \<Rightarrow> fecGeneration \<Rightarrow> fecGeneration" where
  "with_recovered r g = g\<lparr>g_data := fold (\<lambda>(i, p). AList.update i p) r (g_data g)\<rparr>"

lemma gen_agrees_parity:
  assumes "gen_agrees ds ps w g" and "j < length ps"
  shows "gen_agrees ds ps w (with_parity (int (length ds)) (int (length ps)) w j (ps ! j) g)"
  using assms by (auto simp: gen_agrees_def with_parity_def update_conv distinct_update split: if_splits)

lemma recovered_nth: "\<forall>(k, v) \<in> set (recovered_by ds ps g). v = ds ! k"
  using missing_nth [of ds "g_data g"] unfolding recovered_by_def
  by (simp only: split: if_split) simp

lemma fst_recovered: "fst ` set (recovered_by ds ps g) \<subseteq> {..<length ds}"
  using fst_missing [of ds "g_data g"] unfolding recovered_by_def by auto

lemma gen_agrees_recovered:
  assumes "gen_agrees ds ps w g"
  shows "gen_agrees ds ps w (with_recovered (recovered_by ds ps g) g)"
proof -
  from recovered_nth [of ds ps g] assms show ?thesis
    by (auto simp: gen_agrees_def with_recovered_def map_of_fold_update distinct_fold_update split: if_splits)
qed

lemma held_recovered:
  "held (length ds) (g_data (with_recovered (recovered_by ds ps g) g)) =
     held (length ds) (g_data g) \<union> fst ` set (recovered_by ds ps g)"
proof -
  from fst_recovered [of ds ps g] recovered_nth [of ds ps g] show ?thesis
    by (auto simp: held_def with_recovered_def map_of_fold_update)
qed

lemma HandleFEC_agrees:
  assumes "sent_ok R S" and "S i = Some (ds, ps, w)" and "gen_agrees ds ps w (cur now i b)"
    and "0 \<le> pix" and "pix < int (length ps)"
  defines "g \<equiv> with_parity (int (length ds)) (int (length ps)) w (nat pix) (ps ! nat pix) (cur now i b)"
  shows "HandleFEC R now i (int (length ds)) (int (length ps)) w pix (ps ! nat pix) b =
    (recovered_by ds ps g, b(i \<mapsto> with_recovered (recovered_by ds ps g) g))"
proof -
  let ?n = "int (length ds)" and ?m = "int (length ps)"
  have "ds \<noteq> []" "ps \<noteq> []" "list_all (fits w) ds" using assms(1,2) by (auto simp: sent_ok_def)
  then have pos: "0 < ?n" "0 < ?m" "0 < w" by (auto simp: fits_def neq_Nil_conv)
  have ag: "gen_agrees ds ps w g"
    unfolding g_def by (rule gen_agrees_parity) (use assms(3-5) in auto)
  have gd: "g_n g = ?n" "g_m g = ?m" "g_w g = w" by (simp_all add: g_def with_parity_def)
  have cnt: "length (filter (\<lambda>(i, d). int i < ?n) (g_data g)) = card (held (length ds) (g_data g))"
      "length (g_parity g) = card (held (length ps) (g_parity g))"
    by (rule length_filter_held, use ag in \<open>simp add: gen_agrees_def\<close>)
       (rule length_eq_held, use ag in \<open>auto simp: gen_agrees_def\<close>)
  obtain b' where b': "getOrCreateLocked now i b = (cur now i b, b')" "\<And>g. b'(i \<mapsto> g) = b(i \<mapsto> g)"
    using getOrCreateLocked_cases [of now i b] by metis
  have geo: "\<not> (g_n (cur now i b) \<noteq> 0 \<and> (g_n (cur now i b) \<noteq> ?n \<or> g_m (cur now i b) \<noteq> ?m \<or> g_w (cur now i b) \<noteq> w))"
    using assms(3) by (auto simp: gen_agrees_def)
  then have g: "(let g = (if g_n (cur now i b) = 0 then (cur now i b)\<lparr>g_n := ?n, g_m := ?m, g_w := w\<rparr> else cur now i b)
      in g\<lparr>g_parity := AList.update (nat pix) (ps ! nat pix) (g_parity g)\<rparr>) = g"
    by (auto simp: g_def with_parity_def Let_def)
  have tail: "(if int (length (filter (\<lambda>(i, d). int i < g_n g) (g_data g))) \<ge> g_n g then ([], b(i \<mapsto> g))
      else if int (length (filter (\<lambda>(i, d). int i < g_n g) (g_data g)) + length (g_parity g)) < g_n g then ([], b(i \<mapsto> g))
      else case Reconstruct R
            (place (nat (g_n g)) (g_m g) (g_parity g) (place 0 (g_n g) (g_data g) (replicate (nat (g_n g + g_m g)) [])))
            (place (nat (g_n g)) (g_m g) (marks (g_parity g))
               (place 0 (g_n g) (marks (g_data g)) (replicate (nat (g_n g + g_m g)) False)))
            (g_n g) (g_m g) (g_w g) of
          Inl e \<Rightarrow> ([], b(i \<mapsto> g))
        | Inr recovered \<Rightarrow> (recovered, b(i \<mapsto> g\<lparr>g_data := fold (\<lambda>(i, p). AList.update i p) recovered (g_data g)\<rparr>))) =
      (recovered_by ds ps g, b(i \<mapsto> with_recovered (recovered_by ds ps g) g))"
    using Reconstruct_slots [OF ag assms(1,2)] missing_full [of ds "g_data g"]
    by (auto simp: gd cnt cnt(1) [simplified] recovered_by_def with_recovered_def slots_def simp flip: of_nat_add)
  have guard: "\<not> (?n \<le> 0 \<or> ?m \<le> 0 \<or> w \<le> 0 \<or> pix < 0 \<or> pix \<ge> ?m)" using pos assms(4,5) by linarith
  show ?thesis
    unfolding HandleFEC_def if_not_P [OF guard] b'(1) Let_def prod.case if_not_P [OF geo]
      g [unfolded Let_def] b'(2) fun_upd_upd
    by (rule tail)
qed

section \<open>Runs of the receiver\<close>

datatype fec_event =
    DataEv instant u16 nat bytes
  | ParityEv instant u16 int int int int bytes
  | GCEv instant duration

type_synonym fec_run = "fecGenBuffer \<times> (u16 \<times> nat \<times> bytes) list"

text \<open>One event, with the packets recovered so far.\<close>

fun fec_step :: "reedsolomon \<Rightarrow> fec_run \<Rightarrow> fec_event \<Rightarrow> fec_run" where
  "fec_step R (b, outs) (DataEv now i k d) = (HandleData now i k d b, outs)"
| "fec_step R (b, outs) (ParityEv now i n m w pix s) =
     (let (rec, b) = HandleFEC R now i n m w pix s b in (b, outs @ map (Pair i) rec))"
| "fec_step R (b, outs) (GCEv now age) = (FEC_GC now age b, outs)"

text \<open>An event that carries what the peer sent.\<close>

fun authentic :: "sent \<Rightarrow> fec_event \<Rightarrow> bool" where
  "authentic S (DataEv now i k d) = (case S i of None \<Rightarrow> True | Some (ds, ps, w) \<Rightarrow> k < length ds \<longrightarrow> d = ds ! k)"
| "authentic S (ParityEv now i n m w pix s) =
     (case S i of None \<Rightarrow> False
      | Some (ds, ps, w') \<Rightarrow> n = int (length ds) \<and> m = int (length ps) \<and> w = w' \<and> 0 \<le> pix \<and> pix < m \<and>
                             s = ps ! nat pix)"
| "authentic S (GCEv now age) = True"

definition run_ok :: "reedsolomon \<Rightarrow> sent \<Rightarrow> fec_run \<Rightarrow> bool" where
  "run_ok R S = (\<lambda>(b, outs). sent_ok R S \<and>
     (\<forall>i ds ps w. S i = Some (ds, ps, w) \<longrightarrow> (\<forall>now. gen_agrees ds ps w (cur now i b))) \<and>
     (\<forall>(i, k, d) \<in> set outs. case S i of None \<Rightarrow> False | Some (ds, ps, w) \<Rightarrow> k < length ds \<and> d = ds ! k))"


lemma gen_agrees_fresh:
  "gen_agrees ds ps w \<lparr> g_n = 0, g_m = 0, g_w = 0, g_data = [], g_parity = [], g_firstSeen = now \<rparr>"
  by (simp add: gen_agrees_def)

lemma cur_GC: "cur now i (FEC_GC t age b) = cur now i b \<or>
    cur now i (FEC_GC t age b) =
      \<lparr> g_n = 0, g_m = 0, g_w = 0, g_data = [], g_parity = [], g_firstSeen = now \<rparr>"
  by (auto simp: cur_def getOrCreateLocked_def FEC_GC_def Let_def split: option.splits)

lemma run_ok_init: "sent_ok R S \<Longrightarrow> run_ok R S (newFECGenBuffer, [])"
  by (simp add: run_ok_def newFECGenBuffer_def cur_None gen_agrees_fresh)

text \<open>The parity step of a run.\<close>

lemma parity_step:
  assumes "run_ok R S (b, outs)" and "authentic S (ParityEv now i n m w pix s)"
  obtains ds ps g where "S i = Some (ds, ps, w)" and "0 \<le> pix" and "pix < int (length ps)"
    and "n = int (length ds)" and "m = int (length ps)" and "s = ps ! nat pix"
    and "gen_agrees ds ps w (cur now i b)"
    and "g = with_parity n m w (nat pix) s (cur now i b)" and "gen_agrees ds ps w g"
    and "HandleFEC R now i n m w pix s b =
      (recovered_by ds ps g, b(i \<mapsto> with_recovered (recovered_by ds ps g) g))"
proof -
  obtain ds ps where S: "S i = Some (ds, ps, w)" "0 \<le> pix" "pix < int (length ps)"
      "n = int (length ds)" "m = int (length ps)" "s = ps ! nat pix"
    using assms(2) by (auto split: option.splits)
  have ag: "sent_ok R S" "gen_agrees ds ps w (cur now i b)" using assms(1) S(1) by (auto simp: run_ok_def)
  have "gen_agrees ds ps w (with_parity n m w (nat pix) s (cur now i b))"
    unfolding S(4-6) by (rule gen_agrees_parity [OF ag(2)]) (use S(2,3) in auto)
  then show ?thesis
    using that [OF S ag(2) refl] HandleFEC_agrees [OF ag(1) S(1) ag(2) S(2,3)] unfolding S(4-6) by blast
qed

lemma run_ok_parity:
  assumes "run_ok R S (b, outs)" and "authentic S (ParityEv now i n m w pix s)"
  shows "run_ok R S (fec_step R (b, outs) (ParityEv now i n m w pix s))"
proof (rule parity_step [OF assms])
  fix ds ps g
  assume S: "S i = Some (ds, ps, w)" and ag: "gen_agrees ds ps w g"
    and h: "HandleFEC R now i n m w pix s b =
      (recovered_by ds ps g, b(i \<mapsto> with_recovered (recovered_by ds ps g) g))"
  have "\<forall>(k, d) \<in> set (recovered_by ds ps g). k < length ds \<and> d = ds ! k"
    using recovered_nth [of ds ps g] fst_recovered [of ds ps g] by force
  then show ?thesis
    using assms(1) S gen_agrees_recovered [OF ag] by (auto simp: h run_ok_def)
qed

lemma run_ok_data:
  assumes "run_ok R S (b, outs)" and "authentic S (DataEv now i k d)"
  shows "run_ok R S (fec_step R (b, outs) (DataEv now i k d))"
  using assms gen_agrees_data [of _ _ _ "cur now i b" k d] by (auto simp: run_ok_def HandleData_eq split: option.splits)

lemma run_ok_GC: "run_ok R S (b, outs) \<Longrightarrow> run_ok R S (fec_step R (b, outs) (GCEv now age))"
  using cur_GC [of _ _ now age b] gen_agrees_fresh by (auto simp: run_ok_def) metis

interpretation fecrun: step_system "fec_step R" "run_ok R S" "authentic S"
proof unfold_locales
  fix s :: fec_run and e
  assume "run_ok R S s" and "authentic S e"
  then show "run_ok R S (fec_step R s e)"
    by (cases s; cases e) (auto simp del: fec_step.simps authentic.simps intro: run_ok_data run_ok_parity run_ok_GC)
qed

text \<open>What a run without eviction holds, in terms of the events it saw.\<close>

definition data_seen :: "u16 \<Rightarrow> nat \<Rightarrow> fec_event list \<Rightarrow> nat set" where
  "data_seen i n evs = {k. k < n \<and> (\<exists>now d. DataEv now i k d \<in> set evs)}"

definition parity_seen :: "u16 \<Rightarrow> fec_event list \<Rightarrow> nat set" where
  "parity_seen i evs = {j. \<exists>now n m w s. ParityEv now i n m w (int j) s \<in> set evs}"

fun is_GC :: "fec_event \<Rightarrow> bool" where
  "is_GC (GCEv now age) = True"
| "is_GC _ = False"

definition fec_run :: "reedsolomon \<Rightarrow> fec_event list \<Rightarrow> fec_run" where
  "fec_run R evs = foldl (fec_step R) (newFECGenBuffer, []) evs"

definition tracks :: "sent \<Rightarrow> fec_event list \<Rightarrow> fec_run \<Rightarrow> bool" where
  "tracks S evs = (\<lambda>(b, outs). \<forall>i ds ps w now. S i = Some (ds, ps, w) \<longrightarrow>
     held (length ds) (g_data (cur now i b)) =
       data_seen i (length ds) evs \<union> {k. (i, k, ds ! k) \<in> set outs} \<and>
     held (length ps) (g_parity (cur now i b)) = parity_seen i evs)"

lemma data_seen_snoc:
  "data_seen i n (evs @ [DataEv now j k d]) =
     (if i = j \<and> k < n then insert k (data_seen i n evs) else data_seen i n evs)"
  "data_seen i n (evs @ [ParityEv now j n' m w pix s]) = data_seen i n evs"
  by (auto simp: data_seen_def ex_disj_distrib)

lemma parity_seen_snoc:
  "parity_seen i (evs @ [DataEv now j k d]) = parity_seen i evs"
  "0 \<le> pix \<Longrightarrow> parity_seen i (evs @ [ParityEv now j n m w pix s]) =
     (if i = j then insert (nat pix) (parity_seen i evs) else parity_seen i evs)"
  by (auto simp: parity_seen_def ex_disj_distrib)

lemma tracks_data:
  assumes "tracks S evs (b, outs)"
  shows "tracks S (evs @ [DataEv now i k d]) (fec_step R (b, outs) (DataEv now i k d))"
  using assms by (auto simp: tracks_def HandleData_eq held_update data_seen_snoc parity_seen_snoc)

lemma tracks_parity:
  assumes "tracks S evs (b, outs)" and "run_ok R S (b, outs)" and "authentic S (ParityEv now i n m w pix s)"
  shows "tracks S (evs @ [ParityEv now i n m w pix s]) (fec_step R (b, outs) (ParityEv now i n m w pix s))"
proof (rule parity_step [OF assms(2,3)])
  fix ds ps g
  assume S: "S i = Some (ds, ps, w)" "0 \<le> pix" "pix < int (length ps)"
    and g: "g = with_parity n m w (nat pix) s (cur now i b)"
    and h: "HandleFEC R now i n m w pix s b =
      (recovered_by ds ps g, b(i \<mapsto> with_recovered (recovered_by ds ps g) g))"
  let ?r = "recovered_by ds ps g"
  have keys: "{k. (i, k, ds ! k) \<in> set (outs @ map (Pair i) ?r)} = {k. (i, k, ds ! k) \<in> set outs} \<union> fst ` set ?r"
    using recovered_nth [of ds ps g] by force
  have "held (length ds) (g_data (with_recovered ?r g)) =
      data_seen i (length ds) evs \<union> {k. (i, k, ds ! k) \<in> set (outs @ map (Pair i) ?r)}"
    using assms(1) S(1) unfolding held_recovered keys by (auto simp: tracks_def g with_parity_def)
  moreover have "held (length ps) (g_parity (with_recovered ?r g)) = insert (nat pix) (parity_seen i evs)"
    using assms(1) S by (auto simp: tracks_def g with_parity_def with_recovered_def held_update)
  moreover have "{k. (j, k, ds' ! k) \<in> set (outs @ map (Pair i) ?r)} = {k. (j, k, ds' ! k) \<in> set outs}"
    if "j \<noteq> i" for j and ds' :: "bytes list" using that by auto
  ultimately show ?thesis
    using assms(1) S by (auto simp: tracks_def h data_seen_snoc parity_seen_snoc)
qed

lemma fec_run_inv:
  assumes "sent_ok R S" and "list_all (authentic S) evs"
  shows "run_ok R S (fec_run R evs)"
  unfolding fec_run_def using run_ok_init [OF assms(1)] assms(2) by (rule fecrun.inv_run)

lemma fec_run_tracks:
  assumes "sent_ok R S" and "list_all (authentic S) evs" and "list_all (\<lambda>e. \<not> is_GC e) evs"
  shows "tracks S evs (fec_run R evs)"
  using assms(2,3)
proof (induction evs rule: rev_induct)
  case Nil
  then show ?case
    by (simp add: tracks_def fec_run_def newFECGenBuffer_def cur_None held_def data_seen_def parity_seen_def)
next
  case (snoc e evs)
  obtain b outs where r: "fec_run R evs = (b, outs)" by (cases "fec_run R evs")
  have "tracks S evs (b, outs)" "run_ok R S (b, outs)" "authentic S e"
    using snoc fec_run_inv [OF assms(1), of evs] by (simp_all add: r)
  then have "tracks S (evs @ [e]) (fec_step R (b, outs) e)"
    using snoc.prems(2) by (cases e) (auto simp del: fec_step.simps authentic.simps intro: tracks_data tracks_parity)
  moreover have "fec_run R (evs @ [e]) = fec_step R (b, outs) e" using r by (simp add: fec_run_def)
  ultimately show ?case by simp
qed


section \<open>Lemmas on the sender\<close>

definition sender_ok :: "fecSender \<Rightarrow> bool" where
  "sender_ok f \<longleftrightarrow> length (fs_shards f) < K \<and> 0 \<le> fs_maxLen f \<and>
     (\<forall>s \<in> set (fs_shards f). int (length s) \<le> fs_maxLen f \<and> length s \<le> 65535)"

lemma sender_ok_new: "sender_ok newFECSender"
  by (simp add: sender_ok_def newFECSender_def K_def)

lemma snd_closeLocked:
  "fs_shards f \<noteq> [] \<Longrightarrow>
     snd (closeLocked ar R loss f) = f\<lparr>fs_genID := fs_genID f + 1, fs_shards := [], fs_maxLen := 0\<rparr>"
  by (simp add: closeLocked_def Let_def)

lemma sender_ok_closed: "sender_ok (f\<lparr>fs_genID := i, fs_shards := [], fs_maxLen := 0\<rparr>)"
  by (simp add: sender_ok_def K_def)

lemma sender_ok_Record:
  assumes "sender_ok f" and "length d \<le> 65535"
  shows "sender_ok (snd (Record ar R loss i k d f))"
  using assms by (auto simp: Record_def Let_def snd_closeLocked sender_ok_closed intro: order_trans)
    (auto simp: sender_ok_def)

lemma sender_ok_Flush: "sender_ok f \<Longrightarrow> sender_ok (snd (Flush ar R loss now age f))"
  by (auto simp: Flush_def Let_def snd_closeLocked sender_ok_closed)

lemma RedundancyFor_small:
  assumes "0 < n" and "n \<le> 10"
  shows "0 \<le> RedundancyFor ar loss n" and "RedundancyFor ar loss n \<le> 3"
proof -
  have n: "n \<le> 2 ^ 53" using assms(2) by simp
  show "0 \<le> RedundancyFor ar loss n"
    using RedundancyFor_eq [OF assms(1) n] red_count_bounds(1) [OF assms(1) n] by simp
  have "(of_int n :: rat) \<le> of_int 10" using assms(2) by (simp only: of_int_le_iff)
  then have "\<lceil>of_int n / 4 :: rat\<rceil> \<le> 3" by (simp add: ceiling_le_iff)
  then show "RedundancyFor ar loss n \<le> 3"
    unfolding RedundancyFor_eq [OF assms(1) n] by (rule order_trans [OF red_count_bounds(2) [OF assms(1) n]])
qed

text \<open>The parity event a receiver makes of one shard the sender emitted.\<close>

definition parity_event :: "instant \<Rightarrow> parityShard \<Rightarrow> fec_event" where
  "parity_event now e =
     ParityEv now (ps_genID e) (ps_n e) (ps_m e) (ps_w e) (ps_genIndex e - ps_n e) (ps_shard e)"

text \<open>What a closing generation sends.\<close>

definition closed :: "goarch \<Rightarrow> reedsolomon \<Rightarrow> rat \<Rightarrow> fecSender \<Rightarrow> sent" where
  "closed ar R loss f =
     [fs_genID f \<mapsto> (fs_shards f, map ps_shard (fst (closeLocked ar R loss f)), ShardWidth (fs_maxLen f))]"

lemma closeLocked_emits:
  assumes "fs_shards f \<noteq> []" and "list_all (fits (ShardWidth (fs_maxLen f))) (fs_shards f)"
    and "RedundancyFor ar loss (int (length (fs_shards f))) = int m" and "0 < m"
    and "rs_ok R (length (fs_shards f)) m"
  obtains ps where "EncodeParity R (fs_shards f) (ShardWidth (fs_maxLen f)) (int m) = Inr ps" and "length ps = m"
    and "fst (closeLocked ar R loss f) =
      map (\<lambda>(i, shard). \<lparr> ps_genID = fs_genID f, ps_genIndex = int (length (fs_shards f) + i),
                         ps_n = int (length (fs_shards f)), ps_m = int m,
                         ps_w = ShardWidth (fs_maxLen f), ps_shard = shard \<rparr>) (enumerate 0 ps)"
proof -
  obtain ps where "EncodeParity R (fs_shards f) (ShardWidth (fs_maxLen f)) (int m) = Inr ps" "length ps = m"
    using EncodeParity_ok [OF assms(5,1,4,2)] by blast
  with assms show ?thesis by (intro that) (simp_all add: closeLocked_def Let_def)
qed


lemma closed_ok:
  assumes "fs_shards f \<noteq> []" and "list_all (fits (ShardWidth (fs_maxLen f))) (fs_shards f)"
    and "RedundancyFor ar loss (int (length (fs_shards f))) = int m" and "0 < m"
    and "rs_ok R (length (fs_shards f)) m"
  shows "length (fst (closeLocked ar R loss f)) = m" and "sent_ok R (closed ar R loss f)"
    and "\<forall>e \<in> set (fst (closeLocked ar R loss f)). authentic (closed ar R loss f) (parity_event now e)"
proof -
  obtain ps where ps: "EncodeParity R (fs_shards f) (ShardWidth (fs_maxLen f)) (int m) = Inr ps" "length ps = m"
      "fst (closeLocked ar R loss f) =
        map (\<lambda>(i, shard). \<lparr> ps_genID = fs_genID f, ps_genIndex = int (length (fs_shards f) + i),
                           ps_n = int (length (fs_shards f)), ps_m = int m,
                           ps_w = ShardWidth (fs_maxLen f), ps_shard = shard \<rparr>) (enumerate 0 ps)"
    using closeLocked_emits [OF assms] by blast
  have sh: "map ps_shard (fst (closeLocked ar R loss f)) = ps"
    by (rule nth_equalityI) (simp_all add: ps(3) nth_enumerate_eq)
  show "length (fst (closeLocked ar R loss f)) = m" by (simp add: ps)
  show "sent_ok R (closed ar R loss f)"
    using assms ps(1,2) unfolding sent_ok_def closed_def sh by auto
  show "\<forall>e \<in> set (fst (closeLocked ar R loss f)). authentic (closed ar R loss f) (parity_event now e)"
    unfolding closed_def sh using ps(2) by (auto simp: ps(3) parity_event_def in_set_enumerate_eq)
qed

lemma sender_fits:
  "sender_ok f \<Longrightarrow> list_all (fits (ShardWidth (fs_maxLen f))) (fs_shards f)"
  by (auto simp: sender_ok_def list_all_iff fits_def ShardWidth_def lengthPrefix_def)

lemma run_recovers:
  assumes "sent_ok R S" and "S i = Some (ds, ps, w)"
    and "list_all (authentic S) (evs @ [ParityEv now i n m w pix s])" and "list_all (\<lambda>e. \<not> is_GC e) evs"
    and "length ds \<le> card (data_seen i (length ds) evs) +
           card (parity_seen i (evs @ [ParityEv now i n m w pix s]))"
  shows "\<forall>k < length ds. k \<in> data_seen i (length ds) evs \<or>
    (i, k, ds ! k) \<in> set (snd (fec_run R (evs @ [ParityEv now i n m w pix s])))"
proof -
  let ?e = "ParityEv now i n m w pix s"
  obtain b outs where r: "fec_run R evs = (b, outs)" by (cases "fec_run R evs")
  have inv: "run_ok R S (b, outs)" "authentic S ?e" "tracks S evs (b, outs)"
    using fec_run_inv [OF assms(1), of evs] fec_run_tracks [OF assms(1) _ assms(4)] assms(3) by (simp_all add: r)
  from inv(1,2) show ?thesis
  proof (rule parity_step)
    fix ds' ps' g
    assume "S i = Some (ds', ps', w)" and pix: "0 \<le> pix" "pix < int (length ps')"
      and g: "g = with_parity n m w (nat pix) s (cur now i b)"
      and h: "HandleFEC R now i n m w pix s b =
        (recovered_by ds' ps' g, b(i \<mapsto> with_recovered (recovered_by ds' ps' g) g))"
    then have eq: "ds' = ds" "ps' = ps" using assms(2) by simp_all
    have dat: "held (length ds) (g_data g) = data_seen i (length ds) evs \<union> {k. (i, k, ds ! k) \<in> set outs}"
      and par: "held (length ps) (g_parity g) = parity_seen i (evs @ [?e])"
      using inv(3) assms(2) pix by (auto simp: tracks_def g with_parity_def held_update eq parity_seen_snoc)
    have "card (data_seen i (length ds) evs) \<le> card (held (length ds) (g_data g))"
      by (rule card_mono) (auto simp: dat [symmetric] intro: subsetD [OF equalityD2 [OF dat]])
    then have "recovered_by ds ps g = missing ds (g_data g)"
      using assms(5) by (simp add: recovered_by_def par)
    then have "k \<in> held (length ds) (g_data g) \<or> (k, ds ! k) \<in> set (recovered_by ds ps g)" if "k < length ds" for k
      using that by (auto simp: missing_def)
    then show ?thesis
      using r h by (auto simp: fec_run_def eq dat)
  qed
qed

section \<open>An example\<close>

definition ex_sent :: sent where "ex_sent = [5 \<mapsto> ([[1, 2, 3], [4]], [[0, 2, 5, 2, 3]], 5)]"

definition ex_evs :: "fec_event list" where "ex_evs = [DataEv 0 5 0 [1, 2, 3]]"

definition ex_parity :: fec_event where "ex_parity = ParityEv 0 5 2 1 5 0 [0, 2, 5, 2, 3]"

lemma ex_ok: "sent_ok xor_code ex_sent"
proof -
  have l: "put_be 2 (3 :: u16) = [0, 3]" "put_be 2 (1 :: u16) = [0, 1]" by (simp_all add: put_be_def upt_rec)
  have "encodeShard [1, 2, 3] 5 = Inr [0, 3, 1, 2, 3]" using l by (simp add: encodeShard_eq)
  moreover have "encodeShard [4] 5 = Inr [0, 1, 4, 0, 0]" using l by (simp add: encodeShard_eq eval_nat_numeral)
  ultimately have "EncodeParity xor_code [[1, 2, 3], [4]] 5 1 = Inr [[0, 2, 5, 2, 3]]"
    by (simp add: EncodeParity_def xor_code_def xor_bytes_def)
  then show ?thesis
    using xor_code_ok by (simp add: sent_ok_def ex_sent_def fits_def numeral_2_eq_2)
qed

lemma ex_seen: "data_seen 5 2 ex_evs = {0}" "parity_seen 5 (ex_evs @ [ex_parity]) = {0}"
  by (auto simp: data_seen_def parity_seen_def ex_evs_def ex_parity_def)

lemma ex_authentic: "list_all (authentic ex_sent) (ex_evs @ [ex_parity])" "list_all (\<lambda>e. \<not> is_GC e) ex_evs"
  by (simp_all add: ex_sent_def ex_evs_def ex_parity_def)

lemma ex_run: "(5, 1, [4]) \<in> set (snd (fec_run xor_code (ex_evs @ [ex_parity])))"
  using run_recovers [OF ex_ok, of 5 "[[1, 2, 3], [4]]" "[[0, 2, 5, 2, 3]]" 5 ex_evs 0 2 1 0 "[0, 2, 5, 2, 3]"]
    ex_authentic ex_seen by (auto simp: ex_sent_def ex_parity_def numeral_2_eq_2)

section \<open>Properties\<close>

text \<open>A generation closes with sound parity: given the contract of the code, the sender emits exactly the
  parity shards the loss estimate asks for, at most three, numbered after the data shards and carrying
  the true geometry, so that a receiver accepts each of them; the next generation starts empty under the
  next number.\<close>

theorem fec_close_emits:
  assumes "sender_ok f" and "fs_shards f \<noteq> []"
    and "rs_ok R (length (fs_shards f)) (nat (RedundancyFor ar loss (int (length (fs_shards f)))))"
  shows "int (length (fst (closeLocked ar R loss f))) = RedundancyFor ar loss (int (length (fs_shards f))) \<and>
    length (fst (closeLocked ar R loss f)) \<le> 3 \<and>
    (\<forall>e \<in> set (fst (closeLocked ar R loss f)). authentic (closed ar R loss f) (parity_event now e)) \<and>
    snd (closeLocked ar R loss f) = f\<lparr>fs_genID := fs_genID f + 1, fs_shards := [], fs_maxLen := 0\<rparr>"
proof -
  let ?n = "int (length (fs_shards f))"
  define m where "m = nat (RedundancyFor ar loss ?n)"
  have n: "0 < ?n" "?n \<le> 10" using assms(1,2) by (auto simp: sender_ok_def K_def)
  note r = RedundancyFor_small [OF n, of ar loss]
  have m: "RedundancyFor ar loss ?n = int m" using r by (simp add: m_def)
  have ok: "rs_ok R (length (fs_shards f)) m" using assms(3) by (simp add: m_def)
  show ?thesis
  proof (cases "m = 0")
    case True
    then have "fst (closeLocked ar R loss f) = []" using m by (simp add: closeLocked_def Let_def)
    then show ?thesis using m True snd_closeLocked [OF assms(2)] by simp
  next
    case False
    then have "0 < m" by simp
    from closed_ok [OF assms(2) sender_fits [OF assms(1)] m this ok] show ?thesis
      using m r snd_closeLocked [OF assms(2)] by simp
  qed
qed

theorem fec_close_emits_witness:
  "length (fst (closeLocked AMD64 xor_code (1 / 20)
     \<lparr> fs_genID = 7, fs_shards = [[1, 2, 3], [4]], fs_maxLen = 3, fs_openedAt = Some 0 \<rparr>)) = 1"
proof -
  let ?f = "\<lparr> fs_genID = 7, fs_shards = [[1, 2, 3], [4 :: byte]], fs_maxLen = 3, fs_openedAt = Some 0 \<rparr>"
  have r: "RedundancyFor AMD64 (1 / 20) 2 = 1" by code_simp
  have "sender_ok ?f" by (simp add: sender_ok_def K_def)
  moreover have "rs_ok xor_code (length (fs_shards ?f)) (nat (RedundancyFor AMD64 (1 / 20) (int (length (fs_shards ?f)))))"
    using xor_code_ok r by (simp add: numeral_2_eq_2)
  ultimately show ?thesis
    using fec_close_emits [of ?f xor_code AMD64 "1 / 20" 0] r by simp
qed

text \<open>C18. Nothing invented: over any sequence of packets the peer sent, in any order, with loss, repetition,
  packets that missed the close of their generation and evictions at any moment, every packet the
  receiver recovers is the very packet sent at that place of that generation.\<close>

theorem fec_recovered_authentic:
  assumes "sent_ok R S" and "list_all (authentic S) evs" and "(i, k, d) \<in> set (snd (fec_run R evs))"
  shows "\<exists>ds ps w. S i = Some (ds, ps, w) \<and> k < length ds \<and> d = ds ! k"
proof -
  obtain b outs where r: "fec_run R evs = (b, outs)" by (cases "fec_run R evs")
  with fec_run_inv [OF assms(1,2)] assms(3)
  have "case S i of None \<Rightarrow> False | Some (ds, ps, w) \<Rightarrow> k < length ds \<and> d = ds ! k"
    by (auto simp: run_ok_def)
  then show ?thesis by (cases "S i") auto
qed

theorem fec_recovered_authentic_witness:
  "\<exists>ds ps w. ex_sent 5 = Some (ds, ps, w) \<and> 1 < length ds \<and> [4] = ds ! 1"
  by (rule fec_recovered_authentic [OF ex_ok ex_authentic(1) ex_run])



end
