(* ===== verification/Replay.thy ===== *)
theory Replay
  imports Prelude
begin

text \<open>
  The sliding anti-replay window, \<^verbatim>\<open>core/crypto/replay.go\<close>: a bitset of 64-bit words, bit \<open>k\<close> of
  which says whether counter \<open>max - k\<close> was seen. \<^verbatim>\<open>shiftWords\<close> is modelled as the in-place
  descending loop of the source. The window is shown to behave exactly like the set of all counters
  ever marked, restricted to the window; the interface \<open>replay_filter\<close> states that contract for the
  session layer.
\<close>

section \<open>State and operations\<close>

definition replayWindowSize :: nat where "replayWindowSize = 8192"

record replayWindow =
  w_max :: u64
  w_bits :: "u64 list"
  w_inited :: bool

definition newReplayWindow :: "nat \<Rightarrow> replayWindow" where
  "newReplayWindow sz = \<lparr> w_max = 0, w_bits = replicate ((sz + 63) div 64) 0, w_inited = False \<rparr>"

definition CheckOnly :: "u64 \<Rightarrow> replayWindow \<Rightarrow> bool" where
  "CheckOnly counter w =
     (if \<not> w_inited w then True
      else if counter > w_max w then True
      else let back = w_max w - counter
           in if back \<ge> of_nat (length (w_bits w) * 64) then False
              else let word = unat (back div 64); b = unat (back mod 64)
                   in w_bits w ! word AND push_bit b 1 = 0)"

fun shiftWords_loop :: "u64 list \<Rightarrow> nat \<Rightarrow> nat \<Rightarrow> nat \<Rightarrow> u64 list" where
  "shiftWords_loop bits wordShift bitShift 0 = bits"
| "shiftWords_loop bits wordShift bitShift (Suc i) =
     (let v = (if wordShift \<le> i
               then let v = bits ! (i - wordShift)
                    in if bitShift \<noteq> 0
                       then let v = push_bit bitShift v
                            in if wordShift + 1 \<le> i
                               then v OR drop_bit (64 - bitShift) (bits ! (i - wordShift - 1))
                               else v
                       else v
               else 0)
      in shiftWords_loop (bits[i := v]) wordShift bitShift i)"

definition shiftWords :: "u64 list \<Rightarrow> u64 \<Rightarrow> u64 list" where
  "shiftWords bits n =
     (let wordShift = unat (n div 64); bitShift = unat (n mod 64)
      in if wordShift \<ge> length bits then map (\<lambda>_. 0) bits
         else shiftWords_loop bits wordShift bitShift (length bits))"

definition MarkSeen :: "u64 \<Rightarrow> replayWindow \<Rightarrow> replayWindow" where
  "MarkSeen counter w =
     (if \<not> w_inited w
      then w\<lparr>w_max := counter, w_inited := True, w_bits := (w_bits w)[0 := 1]\<rparr>
      else if counter > w_max w
      then let shift = counter - w_max w;
               bits = (if shift \<ge> of_nat (length (w_bits w) * 64) then map (\<lambda>_. 0) (w_bits w)
                       else shiftWords (w_bits w) shift)
           in w\<lparr>w_max := counter, w_bits := bits[0 := bits ! 0 OR 1]\<rparr>
      else if counter = w_max w
      then w\<lparr>w_bits := (w_bits w)[0 := w_bits w ! 0 OR 1]\<rparr>
      else let back = w_max w - counter;
               word = unat (back div 64); b = unat (back mod 64)
           in if word < length (w_bits w)
              then w\<lparr>w_bits := (w_bits w)[word := w_bits w ! word OR push_bit b 1]\<rparr>
              else w)"

section \<open>The bitset\<close>

definition wbit :: "u64 list \<Rightarrow> nat \<Rightarrow> bool" where
  "wbit bits k \<longleftrightarrow> k < 64 * length bits \<and> bit (bits ! (k div 64)) (k mod 64)"

definition shifted_word :: "u64 list \<Rightarrow> nat \<Rightarrow> nat \<Rightarrow> nat \<Rightarrow> u64" where
  "shifted_word bits ws bs i =
     (if ws \<le> i
      then if bs \<noteq> 0
           then if ws + 1 \<le> i
                then push_bit bs (bits ! (i - ws)) OR drop_bit (64 - bs) (bits ! (i - ws - 1))
                else push_bit bs (bits ! (i - ws))
           else bits ! (i - ws)
      else 0)"

lemma length_shiftWords_loop [simp]: "length (shiftWords_loop bits ws bs i) = length bits"
  by (induction bits ws bs i rule: shiftWords_loop.induct) (auto simp: Let_def)

lemma wbit_split: "y < 64 \<Longrightarrow> wbit bits (64 * x + y) \<longleftrightarrow> x < length bits \<and> bit (bits ! x) y"
  by (auto simp: wbit_def)

declare shiftWords_loop.simps(2) [simp del]

lemma shiftWords_loop_nth:
  "i \<le> length bits \<Longrightarrow> j < length bits \<Longrightarrow>
   shiftWords_loop bits ws bs i ! j = (if j < i then shifted_word bits ws bs j else bits ! j)"
proof (induction i arbitrary: bits)
  case (Suc i)
  let ?b = "bits[i := shifted_word bits ws bs i]"
  have step: "shiftWords_loop bits ws bs (Suc i) = shiftWords_loop ?b ws bs i"
    by (simp add: shiftWords_loop.simps(2) Let_def shifted_word_def)
  have "shifted_word ?b ws bs j = shifted_word bits ws bs j" if "j < i"
    using that by (auto simp: shifted_word_def)
  then show ?case using Suc by (auto simp: step nth_list_update less_Suc_eq)
qed simp

lemma bit_shifted_word:
  assumes "b < 64" and "bs < 64" and "i < length bits"
  shows "bit (shifted_word bits ws bs i) b \<longleftrightarrow>
           64 * ws + bs \<le> 64 * i + b \<and> wbit bits (64 * i + b - (64 * ws + bs))"
proof -
  consider "i < ws" | "i = ws" "b < bs" | "ws \<le> i" "bs \<le> b" | "ws < i" "b < bs" by linarith
  then show ?thesis
  proof cases
    case 1
    then show ?thesis using assms by (auto simp: shifted_word_def)
  next
    case 2
    then show ?thesis using assms by (auto simp: shifted_word_def bit_push_bit_iff)
  next
    case 3
    have q: "64 * i + b - (64 * ws + bs) = 64 * (i - ws) + (b - bs)" using 3 by simp
    have hi: "\<not> bit (drop_bit (64 - bs) (v :: u64)) b" if "bs \<noteq> 0" for v
      using that 3 by (auto simp: bit_drop_bit_eq dest: bit_imp_le_length)
    show ?thesis
      unfolding q using 3 assms hi
      by (subst wbit_split) (auto simp: shifted_word_def bit_or_iff bit_push_bit_iff)
  next
    case 4
    have q: "64 * i + b - (64 * ws + bs) = 64 * (i - ws - 1) + (64 - bs + b)" using 4 assms by simp
    show ?thesis
      unfolding q using 4 assms
      by (subst wbit_split) (auto simp: shifted_word_def bit_or_iff bit_push_bit_iff bit_drop_bit_eq add.commute)
  qed
qed

lemma length_shiftWords [simp]: "length (shiftWords bits n) = length bits"
  by (simp add: shiftWords_def Let_def)

lemma wbit_shiftWords:
  "wbit (shiftWords bits n) k \<longleftrightarrow> unat n \<le> k \<and> k < 64 * length bits \<and> wbit bits (k - unat n)"
proof -
  define ws bs where "ws = unat (n div 64)" and "bs = unat (n mod 64)"
  have n: "unat n = 64 * ws + bs" and bs: "bs < 64"
    by (simp_all add: ws_def bs_def unat_div unat_mod)
  show ?thesis
  proof (cases "length bits \<le> ws")
    case True
    then show ?thesis
      using n by (auto simp: wbit_def shiftWords_def Let_def ws_def [symmetric])
  next
    case False
    then have sw: "shiftWords bits n = shiftWords_loop bits ws bs (length bits)"
      by (simp add: shiftWords_def Let_def ws_def bs_def)
    show ?thesis
    proof (cases "k < 64 * length bits")
      case True
      then have "k div 64 < length bits" by linarith
      then have "bit (shiftWords bits n ! (k div 64)) (k mod 64) \<longleftrightarrow>
          unat n \<le> k \<and> wbit bits (k - unat n)"
        using bs bit_shifted_word [of "k mod 64" bs "k div 64" bits ws]
        by (simp add: sw shiftWords_loop_nth n)
      then show ?thesis using True by (auto simp: wbit_def)
    qed (auto simp: wbit_def)
  qed
qed

lemma wbit_or:
  assumes "j < length bits" and "b < 64"
  shows "wbit (bits[j := bits ! j OR push_bit b 1]) k \<longleftrightarrow> wbit bits k \<or> k = 64 * j + b"
proof -
  have "k div 64 = j \<and> k mod 64 = b \<longleftrightarrow> k = 64 * j + b" using assms(2) by auto
  then show ?thesis
    using assms by (auto simp: wbit_def nth_list_update bit_or_iff bit_push_bit_iff bit_exp_iff)
qed

lemma wbit_zero [simp]: "\<not> wbit (map (\<lambda>_. 0) bits) k"
  by (auto simp: wbit_def)

lemma bit_test: "(v :: u64) AND push_bit b 1 = 0 \<longleftrightarrow> \<not> (b < 64 \<and> bit v b)"
proof
  assume z: "v AND push_bit b 1 = 0"
  then have "bit (v AND push_bit b 1) b = False" by simp
  then show "\<not> (b < 64 \<and> bit v b)" by (auto simp: bit_and_iff bit_exp_iff)
next
  assume "\<not> (b < 64 \<and> bit v b)"
  then show "v AND push_bit b 1 = 0"
    by (intro bit_word_eqI) (auto simp: bit_and_iff bit_push_bit_iff bit_exp_iff)
qed

section \<open>The window as a set of counters\<close>

text \<open>\<open>T\<close> is the set of all counters ever marked, read as natural numbers.\<close>

definition win_rel :: "replayWindow \<Rightarrow> nat set \<Rightarrow> bool" where
  "win_rel w T \<longleftrightarrow> w_bits w \<noteq> [] \<and> 64 * length (w_bits w) < 2 ^ 64 \<and>
     (if w_inited w
      then unat (w_max w) \<in> T \<and> (\<forall>c \<in> T. c \<le> unat (w_max w)) \<and>
           (\<forall>k < 64 * length (w_bits w). wbit (w_bits w) k \<longleftrightarrow> k \<le> unat (w_max w) \<and> unat (w_max w) - k \<in> T)
      else T = {} \<and> (\<forall>k. \<not> wbit (w_bits w) k))"

lemma unat_of_size: "n < 2 ^ 64 \<Longrightarrow> unat (of_nat n :: u64) = n"
  by (simp add: unat_of_nat take_bit_nat_eq_self)

lemma win_rel_size:
  "win_rel w T \<Longrightarrow> of_nat (length (w_bits w) * 64) \<le> (x :: u64) \<longleftrightarrow> 64 * length (w_bits w) \<le> unat x"
  using unat_of_size [of "length (w_bits w) * 64"]
  by (simp add: word_le_nat_alt win_rel_def mult.commute del: of_nat_mult)

lemma win_rel_new: "0 < sz \<Longrightarrow> sz < 2 ^ 63 \<Longrightarrow> win_rel (newReplayWindow sz) {}"
  by (auto simp: win_rel_def newReplayWindow_def wbit_def)

lemma CheckOnly_rel:
  assumes "win_rel w T"
  shows "CheckOnly c w \<longleftrightarrow>
     T = {} \<or> (unat c \<notin> T \<and> (\<forall>x \<in> T. x < unat c + 64 * length (w_bits w)))"
proof -
  let ?L = "64 * length (w_bits w)" and ?M = "unat (w_max w)"
  consider "\<not> w_inited w" | "w_inited w" "c > w_max w" | "w_inited w" "c \<le> w_max w" by fastforce
  then show ?thesis
  proof cases
    case 1
    with assms show ?thesis by (simp add: CheckOnly_def win_rel_def)
  next
    case 2
    then have "?M < unat c" by (simp add: word_less_nat_alt)
    with 2 assms show ?thesis by (fastforce simp: CheckOnly_def win_rel_def)
  next
    case 3
    then have le: "unat c \<le> ?M" and bk: "unat (w_max w - c) = ?M - unat c"
      by (simp_all add: word_le_nat_alt unat_sub)
    have big: "w_max w - c \<ge> of_nat (length (w_bits w) * 64) \<longleftrightarrow> ?L \<le> ?M - unat c"
      using win_rel_size [OF assms] bk by simp
    have T: "?M \<in> T" "\<forall>x \<in> T. x \<le> ?M" using assms 3(1) by (auto simp: win_rel_def)
    show ?thesis
    proof (cases "?L \<le> ?M - unat c")
      case True
      then have "\<not> CheckOnly c w" using 3 big by (simp add: CheckOnly_def Let_def del: of_nat_mult)
      moreover have "\<not> ?M < unat c + ?L" using True le by linarith
      ultimately show ?thesis using T(1) by blast
    next
      case False
      have "w_bits w ! unat ((w_max w - c) div 64) AND push_bit (unat ((w_max w - c) mod 64)) 1 = 0
            \<longleftrightarrow> \<not> wbit (w_bits w) (?M - unat c)"
        using False by (subst bit_test) (auto simp: unat_div unat_mod bk wbit_def)
      moreover have "wbit (w_bits w) (?M - unat c) \<longleftrightarrow> unat c \<in> T"
        using False assms 3(1) le by (auto simp: win_rel_def)
      moreover have "CheckOnly c w \<longleftrightarrow> w_bits w ! unat ((w_max w - c) div 64)
          AND push_bit (unat ((w_max w - c) mod 64)) 1 = 0"
        using 3 big False by (auto simp: CheckOnly_def Let_def simp del: of_nat_mult)
      moreover have "\<forall>x \<in> T. x < unat c + ?L" using T(2) False le by fastforce
      ultimately show ?thesis using T(1) by blast
    qed
  qed
qed

lemma MarkSeen_rel_first:
  "win_rel w T \<Longrightarrow> \<not> w_inited w \<Longrightarrow> win_rel (MarkSeen c w) (insert (unat c) T)"
proof -
  assume rel: "win_rel w T" and "\<not> w_inited w"
  moreover have "wbit ((w_bits w)[0 := 1]) k \<longleftrightarrow> k = 0" if "\<forall>k. \<not> wbit (w_bits w) k" "w_bits w \<noteq> []" for k
  proof (cases "k div 64 = 0")
    case True
    with that(2) show ?thesis by (auto simp: wbit_def bit_1_iff)
  next
    case False
    with that show ?thesis by (auto simp: wbit_def)
  qed
  ultimately show ?thesis by (auto simp: win_rel_def MarkSeen_def)
qed

lemma MarkSeen_rel_ahead:
  assumes "win_rel w T" and "w_inited w" and "c > w_max w"
  shows "win_rel (MarkSeen c w) (insert (unat c) T)"
proof -
  let ?L = "64 * length (w_bits w)" and ?M = "unat (w_max w)"
  define s where "s = unat c - ?M"
  define bits where "bits = (if of_nat (length (w_bits w) * 64) \<le> c - w_max w then map (\<lambda>_. 0) (w_bits w)
                       else shiftWords (w_bits w) (c - w_max w))"
  have lt: "?M < unat c" using assms(3) by (simp add: word_less_nat_alt)
  have sh: "unat (c - w_max w) = s" using lt by (simp add: s_def unat_sub word_le_nat_alt)
  have T: "\<forall>x \<in> T. x \<le> ?M" "w_bits w \<noteq> []" using assms by (auto simp: win_rel_def)
  have bs: "wbit bits k \<longleftrightarrow> s \<le> k \<and> k < ?L \<and> wbit (w_bits w) (k - s)" for k
  proof (cases "of_nat (length (w_bits w) * 64) \<le> c - w_max w")
    case True
    then have "?L \<le> s"
      using win_rel_size [OF assms(1), of "c - w_max w"] sh by simp
    with True show ?thesis by (auto simp: bits_def)
  qed (simp add: bits_def wbit_shiftWords sh)
  have lb: "length bits = length (w_bits w)" by (simp add: bits_def)
  then have new: "wbit (bits[0 := bits ! 0 OR 1]) k \<longleftrightarrow> wbit bits k \<or> k = 0" for k
    using wbit_or [of 0 bits 0 k] T(2) by auto
  have "wbit bits k \<or> k = 0 \<longleftrightarrow> k \<le> unat c \<and> unat c - k \<in> insert (unat c) T" if "k < ?L" for k
  proof (cases "s \<le> k")
    case True
    then have "unat c - k = ?M - (k - s)" and "k \<le> unat c \<longleftrightarrow> k - s \<le> ?M" using lt by (auto simp: s_def)
    with True that assms show ?thesis using lt by (auto simp: bs win_rel_def s_def)
  next
    case False
    then have "?M < unat c - k" using lt by (auto simp: s_def)
    with False T(1) lt show ?thesis by (fastforce simp: bs)
  qed
  moreover have "MarkSeen c w = w\<lparr>w_max := c, w_bits := bits[0 := bits ! 0 OR 1]\<rparr>"
    using assms(2,3) by (simp add: MarkSeen_def Let_def bits_def)
  ultimately show ?thesis using assms(1,2) new T lt lb by (auto simp: win_rel_def)
qed

lemma MarkSeen_rel_behind:
  assumes "win_rel w T" and "w_inited w" and "c \<le> w_max w"
  shows "win_rel (MarkSeen c w) (insert (unat c) T)"
proof -
  let ?L = "64 * length (w_bits w)" and ?M = "unat (w_max w)" and ?k = "unat (w_max w) - unat c"
  define j b where "j = ?k div 64" and "b = ?k mod 64"
  have le: "unat c \<le> ?M" and bk: "unat (w_max w - c) = ?k"
    using assms(3) by (simp_all add: word_le_nat_alt unat_sub)
  have jb: "?k = 64 * j + b" "b < 64" by (simp_all add: j_def b_def)
  have ne: "w_bits w \<noteq> []" using assms(1) by (simp add: win_rel_def)
  have ms: "MarkSeen c w =
      (if j < length (w_bits w) then w\<lparr>w_bits := (w_bits w)[j := w_bits w ! j OR push_bit b 1]\<rparr> else w)"
  proof (cases "c = w_max w")
    case True
    then show ?thesis using assms(2) ne by (simp add: MarkSeen_def j_def b_def)
  next
    case False
    then show ?thesis
      using assms(2,3) by (auto simp: MarkSeen_def Let_def unat_div unat_mod bk j_def b_def)
  qed
  have "k = ?k \<longleftrightarrow> k \<le> ?M \<and> ?M - k = unat c" for k using le by auto
  then have iff: "k \<le> ?M \<and> ?M - k \<in> insert (unat c) T \<longleftrightarrow> k = ?k \<or> k \<le> ?M \<and> ?M - k \<in> T" for k by auto
  show ?thesis
  proof (cases "j < length (w_bits w)")
    case True
    then show ?thesis
      using assms(1,2) ms iff wbit_or [OF True jb(2)] jb(1) le by (auto simp: win_rel_def)
  next
    case False
    then have "?L \<le> ?k" using jb by linarith
    with False show ?thesis using assms(1,2) ms iff le by (auto simp: win_rel_def)
  qed
qed

lemma MarkSeen_rel: "win_rel w T \<Longrightarrow> win_rel (MarkSeen c w) (insert (unat c) T)"
  using MarkSeen_rel_first MarkSeen_rel_ahead MarkSeen_rel_behind by (metis linorder_not_less)

lemma length_MarkSeen [simp]: "length (w_bits (MarkSeen c w)) = length (w_bits w)"
  by (simp add: MarkSeen_def Let_def)

lemma fold_MarkSeen_rel: "win_rel w T \<Longrightarrow>
  win_rel (fold MarkSeen cs w) (T \<union> unat ` set cs) \<and>
  length (w_bits (fold MarkSeen cs w)) = length (w_bits w)"
proof (induction cs arbitrary: w T)
  case (Cons c cs)
  from Cons.IH [OF MarkSeen_rel [OF Cons.prems, of c]] show ?case by simp
qed simp

section \<open>The replay-filter interface\<close>

locale replay_filter =
  fixes init :: 'w
    and check :: "u64 \<Rightarrow> 'w \<Rightarrow> bool"
    and mark :: "u64 \<Rightarrow> 'w \<Rightarrow> 'w"
    and width :: nat
  assumes exact: "check c (fold mark cs init) \<longleftrightarrow>
    cs = [] \<or> (c \<notin> set cs \<and> (\<forall>x \<in> set cs. unat x < unat c + width))"
begin

lemma no_replay: "c \<in> set cs \<Longrightarrow> \<not> check c (fold mark cs init)"
  by (auto simp: exact)

lemma rejected_stays:
  "\<not> check c (fold mark cs init) \<Longrightarrow> \<not> check c (fold mark (cs @ ds) init)"
  unfolding exact by auto

lemma fresh_accepted: "\<forall>x \<in> set cs. x < c \<Longrightarrow> check c (fold mark cs init)"
  unfolding exact by (fastforce simp: word_less_nat_alt)

end

interpretation rw: replay_filter "newReplayWindow replayWindowSize" CheckOnly MarkSeen replayWindowSize
proof
  fix c :: u64 and cs :: "u64 list"
  have "win_rel (newReplayWindow replayWindowSize) {}"
    by (rule win_rel_new) (simp_all add: replayWindowSize_def)
  from fold_MarkSeen_rel [OF this, of cs]
  have rel: "win_rel (fold MarkSeen cs (newReplayWindow replayWindowSize)) (unat ` set cs)"
    and len: "64 * length (w_bits (fold MarkSeen cs (newReplayWindow replayWindowSize))) = replayWindowSize"
    by (simp_all add: newReplayWindow_def replayWindowSize_def)
  have "unat c \<notin> unat ` set cs \<longleftrightarrow> c \<notin> set cs" using unsigned_word_eqI [where 'a = nat and 'b = 64] by blast
  then show "CheckOnly c (fold MarkSeen cs (newReplayWindow replayWindowSize)) \<longleftrightarrow>
    cs = [] \<or> (c \<notin> set cs \<and> (\<forall>x \<in> set cs. unat x < unat c + replayWindowSize))"
    using CheckOnly_rel [OF rel, of c] len by auto
qed

section \<open>Properties\<close>

text \<open>C9. The bitset window decides exactly as the full set of marked counters would: after marking any
  sequence of counters in any order, a counter is acceptable iff nothing was marked yet, or it was never
  marked and no marked counter is 8192 or more ahead of it. In particular a marked counter is never
  acceptable again, and a counter beyond all marked ones always is.\<close>

theorem replay_window_exact:
  "CheckOnly c (fold MarkSeen cs (newReplayWindow replayWindowSize)) \<longleftrightarrow>
     cs = [] \<or> (c \<notin> set cs \<and> (\<forall>x \<in> set cs. unat x < unat c + 8192))"
  using rw.exact [of c cs] by (simp add: replayWindowSize_def)

theorem replay_window_exact_witness:
  "CheckOnly 900 (fold MarkSeen [5, 9000] (newReplayWindow replayWindowSize)) \<and>
   \<not> CheckOnly 9000 (fold MarkSeen [5, 9000] (newReplayWindow replayWindowSize)) \<and>
   \<not> CheckOnly 7 (fold MarkSeen [5, 9000] (newReplayWindow replayWindowSize))"
  unfolding replay_window_exact by simp

end
