(* ===== verification/Session.thy ===== *)
theory Session
  imports Proto Replay
begin

text \<open>
  Transport sessions, \<^verbatim>\<open>core/crypto/session.go\<close> and \<^verbatim>\<open>core/crypto/handshake.go\<close>. A session keeps the two
  transport keys, one send counter and one replay window per path. The packages
  \<^verbatim>\<open>chacha20poly1305\<close> and \<^verbatim>\<open>flynn/noise\<close> are parameters of the model: records of functions, with their
  documented behaviour as the named hypotheses \<open>aead_ok\<close> and \<open>noise_ok\<close>. The receive side is shown to
  refine a specification that remembers every accepted counter.
\<close>

section \<open>The AEAD and Noise parameters\<close>

text \<open>\<open>ae_new\<close> says whether \<^verbatim>\<open>chacha20poly1305.New\<close> accepts a key; seal and open take key, nonce, text
  and additional data.\<close>

record aead_impl =
  ae_new :: "bytes \<Rightarrow> bool"
  ae_seal :: "bytes \<Rightarrow> bytes \<Rightarrow> bytes \<Rightarrow> bytes \<Rightarrow> bytes"
  ae_open :: "bytes \<Rightarrow> bytes \<Rightarrow> bytes \<Rightarrow> bytes \<Rightarrow> bytes option"

definition KeyLen :: nat where "KeyLen = 32"

text \<open>Documented behaviour: 32-byte keys are accepted, the ciphertext is the plaintext plus a 16-byte tag,
  and opening succeeds exactly on the ciphertext that sealing produces for the same key, nonce and data.\<close>

definition aead_ok :: "aead_impl \<Rightarrow> bool" where
  "aead_ok A \<longleftrightarrow>
     (\<forall>k. length k = KeyLen \<longrightarrow> ae_new A k) \<and>
     (\<forall>k n p ad. length (ae_seal A k n p ad) = length p + AuthTagLen) \<and>
     (\<forall>k n c ad p. ae_open A k n c ad = Some p \<longleftrightarrow> c = ae_seal A k n p ad)"

datatype crypto_error = ErrAuthFailed | ErrReplay | ErrAeadKey | ErrNoise
  | ErrHandshakeNotComplete | ErrHandshakeComplete

section \<open>Session state\<close>

record session =
  sendKey :: bytes
  recvKey :: bytes
  sendCtrs :: "u8 \<rightharpoonup> u64"
  recvWins :: "u8 \<rightharpoonup> replayWindow"

definition newSession :: "bytes \<Rightarrow> bytes \<Rightarrow> session" where
  "newSession sendCS recvCS =
     \<lparr> sendKey = sendCS, recvKey = recvCS, sendCtrs = Map.empty, recvWins = Map.empty \<rparr>"

definition buildNonce :: "u8 \<Rightarrow> u64 \<Rightarrow> bytes" where
  "buildNonce pathID counter =
     (let n = replicate NonceLen 0;
          n = n[0 := pathID];
          n = n[4 := ucast (drop_bit 56 counter)];
          n = n[5 := ucast (drop_bit 48 counter)];
          n = n[6 := ucast (drop_bit 40 counter)];
          n = n[7 := ucast (drop_bit 32 counter)];
          n = n[8 := ucast (drop_bit 24 counter)];
          n = n[9 := ucast (drop_bit 16 counter)];
          n = n[10 := ucast (drop_bit 8 counter)]
      in n[11 := ucast counter])"

definition nonceCounter :: "bytes \<Rightarrow> u64" where
  "nonceCounter n =
     push_bit 56 (ucast (n ! 4)) OR push_bit 48 (ucast (n ! 5)) OR push_bit 40 (ucast (n ! 6)) OR
     push_bit 32 (ucast (n ! 7)) OR push_bit 24 (ucast (n ! 8)) OR push_bit 16 (ucast (n ! 9)) OR
     push_bit 8 (ucast (n ! 10)) OR ucast (n ! 11)"

definition nextSendCounter :: "u8 \<Rightarrow> session \<Rightarrow> u64 \<times> session" where
  "nextSendCounter pathID s =
     (let ctr = (case sendCtrs s pathID of None \<Rightarrow> 0 | Some c \<Rightarrow> c);
          ctr' = ctr + 1
      in (ctr' - 1, s\<lparr>sendCtrs := (sendCtrs s)(pathID \<mapsto> ctr')\<rparr>))"

definition recvWindow :: "u8 \<Rightarrow> session \<Rightarrow> replayWindow \<times> session" where
  "recvWindow pathID s =
     (case recvWins s pathID of
        Some w \<Rightarrow> (w, s)
      | None \<Rightarrow> let w = newReplayWindow replayWindowSize
                in (w, s\<lparr>recvWins := (recvWins s)(pathID \<mapsto> w)\<rparr>))"

definition Seal :: "aead_impl \<Rightarrow> u8 \<Rightarrow> bytes \<Rightarrow> bytes \<Rightarrow> session \<Rightarrow>
    (crypto_error + (bytes \<times> bytes)) \<times> session" where
  "Seal A pathID plaintext ad s =
     (if \<not> ae_new A (sendKey s) then (Inl ErrAeadKey, s)
      else let (counter, s) = nextSendCounter pathID s;
               nonce = buildNonce pathID counter
           in (Inr (ae_seal A (sendKey s) nonce plaintext ad, nonce), s))"

definition Open :: "aead_impl \<Rightarrow> u8 \<Rightarrow> bytes \<Rightarrow> bytes \<Rightarrow> bytes \<Rightarrow> session \<Rightarrow>
    (crypto_error + bytes) \<times> session" where
  "Open A pathID ciphertext ad nonce s =
     (if nonce ! 0 \<noteq> pathID then (Inl ErrAuthFailed, s)
      else let (win, s) = recvWindow pathID s;
               counter = nonceCounter nonce
           in if \<not> CheckOnly counter win then (Inl ErrReplay, s)
              else if \<not> ae_new A (recvKey s) then (Inl ErrAeadKey, s)
              else case ae_open A (recvKey s) nonce ciphertext ad of
                     None \<Rightarrow> (Inl ErrAuthFailed, s)
                   | Some plaintext \<Rightarrow>
                       (Inr plaintext,
                        s\<lparr>recvWins := (recvWins s)(pathID \<mapsto> MarkSeen counter win)\<rparr>))"

section \<open>Handshake\<close>

text \<open>A \<^verbatim>\<open>noise.HandshakeState\<close> is a value of type \<open>'hs\<close>. Reading or writing a message returns the payload
  or message, the pair of transport keys once the handshake has split, and the next state.\<close>

record 'hs noise_impl =
  nz_new :: "bool \<Rightarrow> bytes \<times> bytes \<Rightarrow> bytes option \<Rightarrow> 'hs option"
  nz_write :: "'hs \<Rightarrow> bytes \<Rightarrow> (bytes \<times> bytes option \<times> bytes option \<times> 'hs) option"
  nz_read :: "'hs \<Rightarrow> bytes \<Rightarrow> (bytes \<times> bytes option \<times> bytes option \<times> 'hs) option"
  nz_PeerStatic :: "'hs \<Rightarrow> bytes"

record Keypair =
  kp_Private :: bytes
  kp_Public :: bytes

definition NewInitiator :: "'hs noise_impl \<Rightarrow> Keypair \<Rightarrow> bytes \<Rightarrow> crypto_error + 'hs" where
  "NewInitiator N local remoteStatic =
     (case nz_new N True (kp_Private local, kp_Public local) (Some remoteStatic) of
        None \<Rightarrow> Inl ErrNoise | Some hs \<Rightarrow> Inr hs)"

definition WriteInit :: "'hs noise_impl \<Rightarrow> 'hs \<Rightarrow> bytes \<Rightarrow> crypto_error + (bytes \<times> 'hs)" where
  "WriteInit N hs payload =
     (case nz_write N hs payload of
        None \<Rightarrow> Inl ErrNoise | Some (msg, _, _, hs) \<Rightarrow> Inr (msg, hs))"

definition ReadResponse :: "'hs noise_impl \<Rightarrow> 'hs \<Rightarrow> bytes \<Rightarrow> crypto_error + (bytes \<times> session)" where
  "ReadResponse N hs msg =
     (case nz_read N hs msg of
        None \<Rightarrow> Inl ErrNoise
      | Some (payload, Some cs1, Some cs2, _) \<Rightarrow> Inr (payload, newSession cs1 cs2)
      | Some _ \<Rightarrow> Inl ErrHandshakeNotComplete)"

definition NewResponder :: "'hs noise_impl \<Rightarrow> Keypair \<Rightarrow> crypto_error + 'hs" where
  "NewResponder N local =
     (case nz_new N False (kp_Private local, kp_Public local) None of
        None \<Rightarrow> Inl ErrNoise | Some hs \<Rightarrow> Inr hs)"

definition ReadInit :: "'hs noise_impl \<Rightarrow> 'hs \<Rightarrow> bytes \<Rightarrow> crypto_error + (bytes \<times> bytes \<times> 'hs)" where
  "ReadInit N hs msg =
     (case nz_read N hs msg of
        None \<Rightarrow> Inl ErrNoise
      | Some (p, _, _, hs) \<Rightarrow>
          Inr (p, put_at 0 (take KeyLen (nz_PeerStatic N hs)) (replicate KeyLen 0), hs))"

definition WriteResponse :: "'hs noise_impl \<Rightarrow> 'hs \<Rightarrow> bytes \<Rightarrow> crypto_error + (bytes \<times> session)" where
  "WriteResponse N hs payload =
     (case nz_write N hs payload of
        None \<Rightarrow> Inl ErrNoise
      | Some (msg, Some cs1, Some cs2, _) \<Rightarrow> Inr (msg, newSession cs2 cs1)
      | Some _ \<Rightarrow> Inl ErrHandshakeNotComplete)"

section \<open>Nonces\<close>

lemma buildNonce_eq: "buildNonce p c = [p, 0, 0, 0] @ put_be 8 c"
  by (simp add: buildNonce_def put_be_def upt_rec numeral_eq_Suc Let_def)

lemma length_buildNonce [simp, len_simps]: "length (buildNonce p c) = 12"
  by (simp add: buildNonce_eq)

lemma buildNonce_0 [simp]: "buildNonce p c ! 0 = p"
  by (simp add: buildNonce_eq)

lemma nonceCounter_eq: "length n = 12 \<Longrightarrow> nonceCounter n = get_be (drop 4 n)"
  by (auto simp: nonceCounter_def get_be_def length_Suc_conv_numeral push_bit_or ac_simps)

lemma nonceCounter_buildNonce [simp]: "nonceCounter (buildNonce p c) = c"
  by (simp add: nonceCounter_eq) (simp add: buildNonce_eq)

lemma buildNonce_inj [simp]: "buildNonce p c = buildNonce p' c' \<longleftrightarrow> p = p' \<and> c = c'"
  by (metis buildNonce_0 nonceCounter_buildNonce)

section \<open>The send side\<close>

text \<open>A sequence of packets sealed on one session, each with its path, plaintext and additional data.\<close>

fun seal_run :: "aead_impl \<Rightarrow> (u8 \<times> bytes \<times> bytes) list \<Rightarrow> session \<Rightarrow>
    (crypto_error + (bytes \<times> bytes)) list \<times> session" where
  "seal_run A [] s = ([], s)"
| "seal_run A ((p, pt, ad) # reqs) s =
     (let (r, s) = Seal A p pt ad s; (rs, s) = seal_run A reqs s in (r # rs, s))"

definition nonces_of :: "(crypto_error + (bytes \<times> bytes)) list \<Rightarrow> bytes list" where
  "nonces_of rs = List.map_filter (\<lambda>r. case r of Inr (c, n) \<Rightarrow> Some n | Inl _ \<Rightarrow> None) rs"

definition ctr_of :: "session \<Rightarrow> u8 \<Rightarrow> u64" where
  "ctr_of s p = (case sendCtrs s p of None \<Rightarrow> 0 | Some c \<Rightarrow> c)"

lemma ctr_of_new [simp]: "ctr_of (newSession k k') p = 0"
  by (simp add: ctr_of_def newSession_def)

lemma sendKey_new [simp]: "sendKey (newSession k k') = k" "recvKey (newSession k k') = k'"
  by (simp_all add: newSession_def)

lemma Seal_eq:
  "Seal A p pt ad s =
     (if ae_new A (sendKey s)
      then (Inr (ae_seal A (sendKey s) (buildNonce p (ctr_of s p)) pt ad, buildNonce p (ctr_of s p)),
            s\<lparr>sendCtrs := (sendCtrs s)(p \<mapsto> ctr_of s p + 1)\<rparr>)
      else (Inl ErrAeadKey, s))"
  by (simp add: Seal_def nextSendCounter_def ctr_of_def Let_def)

lemma ctr_of_upd [simp]:
  "ctr_of (s\<lparr>sendCtrs := (sendCtrs s)(p \<mapsto> c)\<rparr>) q = (if q = p then c else ctr_of s q)"
  by (simp add: ctr_of_def)

lemma map_filter_upt_Suc: "map f [0..<Suc n] = f 0 # map (\<lambda>i. f (Suc i)) [0..<n]"
  by (simp add: upt_conv_Cons map_Suc_upt [symmetric] del: upt_Suc)

text \<open>The counter of the \<open>i\<close>-th packet is the number of earlier packets on its path.\<close>

definition nth_counter :: "(u8 \<times> bytes \<times> bytes) list \<Rightarrow> nat \<Rightarrow> nat" where
  "nth_counter reqs i = count_list (map fst (take i reqs)) (fst (reqs ! i))"

lemma seal_run_eq:
  assumes "ae_new A (sendKey s)"
  shows "fst (seal_run A reqs s) =
    map (\<lambda>i. let (p, pt, ad) = reqs ! i; n = buildNonce p (ctr_of s p + of_nat (nth_counter reqs i))
             in Inr (ae_seal A (sendKey s) n pt ad, n)) [0..<length reqs]"
  using assms
proof (induction reqs arbitrary: s)
  case (Cons r reqs)
  obtain p pt ad where r: "r = (p, pt, ad)" by (cases r)
  let ?s = "s\<lparr>sendCtrs := (sendCtrs s)(p \<mapsto> ctr_of s p + 1)\<rparr>"
  have "ae_new A (sendKey ?s)" using Cons.prems by simp
  note IH = Cons.IH [OF this]
  show ?case
    using Cons.prems
    by (auto simp: r Seal_eq IH map_filter_upt_Suc nth_counter_def split_beta Let_def
             add.assoc simp del: upt_Suc)
qed simp

lemma seal_run_fail:
  "\<not> ae_new A (sendKey s) \<Longrightarrow> seal_run A reqs s = (map (\<lambda>_. Inl ErrAeadKey) reqs, s)"
  by (induction reqs) (auto simp: Seal_eq)

lemma count_list_take_less:
  "i < j \<Longrightarrow> j \<le> length xs \<Longrightarrow> count_list (take i xs) (xs ! i) < count_list (take j xs) (xs ! i)"
proof -
  assume ij: "i < j" "j \<le> length xs"
  then have "take j xs = take (Suc i) xs @ take (j - Suc i) (drop (Suc i) xs)"
    by (metis Suc_leI le_add_diff_inverse take_add)
  then show ?thesis using ij by (simp add: take_Suc_conv_app_nth)
qed

lemma nth_counter_neq:
  assumes "i < j" "j < length reqs" "fst (reqs ! i) = fst (reqs ! j)"
  shows "nth_counter reqs i < nth_counter reqs j"
  using count_list_take_less [of i j "map fst reqs"] assms
  by (simp add: nth_counter_def take_map)

lemma nth_counter_bound: "i < length reqs \<Longrightarrow> nth_counter reqs i < length reqs"
  using count_le_length [of "map fst (take i reqs)" "fst (reqs ! i)"] by (simp add: nth_counter_def)

lemma seal_nonces_distinct:
  assumes "length reqs \<le> 2 ^ 64" and "\<And>p. ctr_of s p = 0"
  shows "distinct (nonces_of (fst (seal_run A reqs s)))"
proof (cases "ae_new A (sendKey s)")
  case False
  then show ?thesis by (simp add: seal_run_fail nonces_of_def List.map_filter_def)
next
  case True
  let ?n = "\<lambda>i. buildNonce (fst (reqs ! i)) (of_nat (nth_counter reqs i))"
  have "nonces_of (fst (seal_run A reqs s)) = map ?n [0..<length reqs]"
    by (simp add: seal_run_eq [OF True] nonces_of_def List.map_filter_def assms(2) split_beta Let_def
        comp_def)
  moreover have "inj_on ?n {..<length reqs}"
  proof (rule linorder_inj_onI)
    fix i j assume ij: "i < j" "i \<in> {..<length reqs}" "j \<in> {..<length reqs}"
    have "unat (of_nat (nth_counter reqs k) :: u64) = nth_counter reqs k" if "k < length reqs" for k
      using nth_counter_bound [OF that] assms(1) by (intro unat_of_size) linarith
    then show "?n i \<noteq> ?n j"
      using nth_counter_neq [of i j reqs] ij by (metis buildNonce_inj lessThan_iff less_irrefl)
  qed auto
  ultimately show ?thesis by (simp add: distinct_map atLeast_upt)
qed

section \<open>The receive side and its specification\<close>

text \<open>A delivered packet: the path it came in on, ciphertext, additional data and nonce.\<close>

type_synonym delivery = "u8 \<times> bytes \<times> bytes \<times> bytes"

fun open_run :: "aead_impl \<Rightarrow> delivery list \<Rightarrow> session \<Rightarrow> (crypto_error + bytes) list \<times> session" where
  "open_run A [] s = ([], s)"
| "open_run A ((p, c, ad, n) # ds) s =
     (let (r, s) = Open A p c ad n s; (rs, s) = open_run A ds s in (r # rs, s))"

text \<open>The specification keeps, per path, the list of all counters accepted so far.\<close>

definition fresh :: "u64 \<Rightarrow> u64 list \<Rightarrow> bool" where
  "fresh c cs \<longleftrightarrow> cs = [] \<or> (c \<notin> set cs \<and> (\<forall>x \<in> set cs. unat x < unat c + 8192))"

definition spec_open :: "aead_impl \<Rightarrow> bytes \<Rightarrow> delivery \<Rightarrow> (u8 \<Rightarrow> u64 list) \<Rightarrow>
    (crypto_error + bytes) \<times> (u8 \<Rightarrow> u64 list)" where
  "spec_open A key d R =
     (let (p, c, ad, n) = d; ctr = nonceCounter n
      in if n ! 0 \<noteq> p then (Inl ErrAuthFailed, R)
         else if \<not> fresh ctr (R p) then (Inl ErrReplay, R)
         else if \<not> ae_new A key then (Inl ErrAeadKey, R)
         else case ae_open A key n c ad of
                None \<Rightarrow> (Inl ErrAuthFailed, R)
              | Some pt \<Rightarrow> (Inr pt, R(p := R p @ [ctr])))"

fun spec_run :: "aead_impl \<Rightarrow> bytes \<Rightarrow> delivery list \<Rightarrow> (u8 \<Rightarrow> u64 list) \<Rightarrow>
    (crypto_error + bytes) list \<times> (u8 \<Rightarrow> u64 list)" where
  "spec_run A key [] R = ([], R)"
| "spec_run A key (d # ds) R =
     (let (r, R) = spec_open A key d R; (rs, R) = spec_run A key ds R in (r # rs, R))"

definition win_of :: "session \<Rightarrow> u8 \<Rightarrow> replayWindow" where
  "win_of s p = (case recvWins s p of None \<Rightarrow> newReplayWindow replayWindowSize | Some w \<Rightarrow> w)"

definition sess_rel :: "session \<Rightarrow> (u8 \<Rightarrow> u64 list) \<Rightarrow> bool" where
  "sess_rel s R \<longleftrightarrow> (\<forall>p. win_of s p = fold MarkSeen (R p) (newReplayWindow replayWindowSize))"

lemma sess_rel_new: "sess_rel (newSession k k') (\<lambda>_. [])"
  by (simp add: sess_rel_def win_of_def newSession_def)

lemma recvWindow_eq:
  "recvWindow p s = (win_of s p, s\<lparr>recvWins := (recvWins s)(p \<mapsto> win_of s p)\<rparr>)"
  by (cases "recvWins s p") (auto simp: recvWindow_def win_of_def fun_upd_idem Let_def)

lemma win_of_upd [simp]:
  "win_of (s\<lparr>recvWins := (recvWins s)(p \<mapsto> w)\<rparr>) q = (if q = p then w else win_of s q)"
  by (simp add: win_of_def)

lemma CheckOnly_fresh:
  "CheckOnly c (fold MarkSeen cs (newReplayWindow replayWindowSize)) \<longleftrightarrow> fresh c cs"
  using rw.exact [of c cs] by (simp add: fresh_def replayWindowSize_def)

lemma Open_refines:
  assumes "sess_rel s R"
  shows "fst (Open A p c ad n s) = fst (spec_open A (recvKey s) (p, c, ad, n) R)"
    and "sess_rel (snd (Open A p c ad n s)) (snd (spec_open A (recvKey s) (p, c, ad, n) R))"
    and "recvKey (snd (Open A p c ad n s)) = recvKey s"
  using assms
  by (auto simp: Open_def spec_open_def recvWindow_eq sess_rel_def CheckOnly_fresh Let_def
           split: option.splits)

lemma open_run_refines:
  "sess_rel s R \<Longrightarrow> fst (open_run A ds s) = fst (spec_run A (recvKey s) ds R) \<and>
     sess_rel (snd (open_run A ds s)) (snd (spec_run A (recvKey s) ds R))"
proof (induction ds arbitrary: s R)
  case (Cons d ds)
  obtain p c ad n where d: "d = (p, c, ad, n)" by (cases d)
  note step = Open_refines [OF Cons.prems, of A p c ad n]
  from Cons.IH [OF step(2)] step(1,3) show ?case
    by (simp add: d split_beta Let_def)
qed simp

text \<open>Which deliveries were accepted, as path and counter.\<close>

definition accepted :: "delivery list \<Rightarrow> (crypto_error + bytes) list \<Rightarrow> (u8 \<times> u64) list" where
  "accepted ds rs = [(p, nonceCounter n). ((p, c, ad, n), r) \<leftarrow> zip ds rs, \<not> isl r]"

lemma spec_open_accept:
  assumes "spec_open A k (p, c, ad, n) R = (r, R')"
  shows "isl r \<Longrightarrow> R' = R"
    and "\<not> isl r \<Longrightarrow> fresh (nonceCounter n) (R p) \<and> R' = R(p := R p @ [nonceCounter n])"
  using assms by (auto simp: spec_open_def Let_def split: option.splits if_splits)

lemma spec_run_accepted:
  assumes "\<forall>p. distinct (R p)"
  shows "distinct (accepted ds (fst (spec_run A k ds R))) \<and>
         (\<forall>(p, c) \<in> set (accepted ds (fst (spec_run A k ds R))). c \<notin> set (R p))"
  using assms
proof (induction ds arbitrary: R)
  case Nil
  then show ?case by (simp add: accepted_def)
next
  case (Cons d ds)
  obtain p c ad n where d: "d = (p, c, ad, n)" by (cases d)
  obtain r R' where so: "spec_open A k (p, c, ad, n) R = (r, R')" by fastforce
  have acc: "accepted (d # ds) (fst (spec_run A k (d # ds) R)) =
      (if isl r then [] else [(p, nonceCounter n)]) @ accepted ds (fst (spec_run A k ds R'))"
    by (simp add: accepted_def d so split_beta Let_def)
  show ?case
  proof (cases "isl r")
    case True
    then have "R' = R" using spec_open_accept(1) [OF so] by simp
    with Cons.IH [OF Cons.prems] acc True show ?thesis by simp
  next
    case False
    then have R': "R' = R(p := R p @ [nonceCounter n])" and f: "nonceCounter n \<notin> set (R p)"
      using spec_open_accept(2) [OF so] by (auto simp: fresh_def)
    have "\<forall>q. distinct (R' q)" using Cons.prems f by (simp add: R')
    note IH = Cons.IH [OF this]
    moreover have "nonceCounter n \<in> set (R' p)" by (simp add: R')
    ultimately have "(p, nonceCounter n) \<notin> set (accepted ds (fst (spec_run A k ds R')))"
      by blast
    moreover have sub: "set (R q) \<subseteq> set (R' q)" for q by (auto simp: R')
    moreover have "\<forall>(q, x) \<in> set (accepted ds (fst (spec_run A k ds R'))). x \<notin> set (R q)"
      using IH sub by blast
    ultimately show ?thesis using IH False f unfolding acc by simp
  qed
qed

lemma Open_fail_win:
  assumes "isl (fst (Open A p c ad n s))"
  shows "win_of (snd (Open A p c ad n s)) = win_of s" and "recvKey (snd (Open A p c ad n s)) = recvKey s"
  using assms by (auto simp: Open_def recvWindow_eq Let_def split: option.splits if_splits)

lemma Open_cong:
  assumes "win_of s = win_of s'" and "recvKey s = recvKey s'"
  shows "fst (Open A p c ad n s) = fst (Open A p c ad n s') \<and>
         win_of (snd (Open A p c ad n s)) = win_of (snd (Open A p c ad n s')) \<and>
         recvKey (snd (Open A p c ad n s)) = recvKey (snd (Open A p c ad n s'))"
  using assms by (auto simp: Open_def recvWindow_eq Let_def split: option.splits)

lemma open_run_cong:
  "win_of s = win_of s' \<Longrightarrow> recvKey s = recvKey s' \<Longrightarrow>
     fst (open_run A ds s) = fst (open_run A ds s')"
proof (induction ds arbitrary: s s')
  case (Cons d ds)
  obtain p c ad n where d: "d = (p, c, ad, n)" by (cases d)
  note cong = Open_cong [OF Cons.prems, of A p c ad n]
  from Cons.IH [of "snd (Open A p c ad n s)" "snd (Open A p c ad n s')"] cong show ?case
    by (simp add: d split_beta Let_def)
qed simp

section \<open>Delivery of sealed packets\<close>

text \<open>The network: packets \<open>msgs\<close> (plaintext and additional data) were sealed on path \<open>p\<close> with results
  \<open>rs\<close>, and arrive in the order \<open>js\<close>, with losses, duplicates and reordering.\<close>

definition deliver :: "u8 \<Rightarrow> (bytes \<times> bytes) list \<Rightarrow> (crypto_error + (bytes \<times> bytes)) list \<Rightarrow>
    nat list \<Rightarrow> delivery list" where
  "deliver p msgs rs js = map (\<lambda>j. (p, fst (projr (rs ! j)), snd (msgs ! j), snd (projr (rs ! j)))) js"

definition fresh_idx :: "nat \<Rightarrow> nat set \<Rightarrow> bool" where
  "fresh_idx j seen \<longleftrightarrow> j \<notin> seen \<and> (\<forall>x \<in> seen. x < j + 8192)"

definition seen_rel :: "u64 list \<Rightarrow> nat set \<Rightarrow> bool" where
  "seen_rel acc seen \<longleftrightarrow> unat ` set acc \<subseteq> seen \<and>
     (\<forall>x \<in> seen. x \<in> unat ` set acc \<or> (\<exists>y \<in> unat ` set acc. x + 8192 \<le> y))"

lemma seen_rel_fresh:
  assumes "seen_rel acc seen" and "unat c = j"
  shows "fresh c acc \<longleftrightarrow> fresh_idx j seen"
proof
  assume f: "fresh c acc"
  show "fresh_idx j seen"
    unfolding fresh_idx_def
  proof (intro conjI ballI notI)
    assume "j \<in> seen"
    then consider "j \<in> unat ` set acc" | y where "y \<in> set acc" "j + 8192 \<le> unat y"
      using assms(1) by (auto simp: seen_rel_def)
    then show False
    proof cases
      case 1
      then have "c \<in> set acc" using assms(2) by (auto dest: unsigned_word_eqI)
      with f show False by (auto simp: fresh_def)
    next
      case 2
      with f assms(2) show False by (fastforce simp: fresh_def)
    qed
  next
    fix x assume "x \<in> seen"
    with assms f show "x < j + 8192"
      unfolding seen_rel_def fresh_def by fastforce
  qed
next
  assume "fresh_idx j seen"
  with assms show "fresh c acc" unfolding seen_rel_def fresh_def fresh_idx_def by blast
qed

lemma seen_rel_insert:
  assumes "seen_rel acc seen" and "unat c = j"
  shows "seen_rel (if fresh c acc then acc @ [c] else acc) (insert j seen)"
proof (cases "fresh c acc")
  case True
  with assms show ?thesis by (auto simp: seen_rel_def)
next
  case False
  then have "j \<in> unat ` set acc \<or> (\<exists>y \<in> unat ` set acc. j + 8192 \<le> y)"
    using assms(2) by (force simp: fresh_def)
  with False assms(1) show ?thesis by (auto simp: seen_rel_def)
qed

lemma spec_run_delivery:
  assumes "aead_ok A" and "ae_new A k" and "length msgs \<le> 2 ^ 64"
    and "\<forall>j < length msgs. \<exists>pt ad. msgs ! j = (pt, ad) \<and>
           rs ! j = Inr (ae_seal A k (buildNonce p (of_nat j)) pt ad, buildNonce p (of_nat j))"
    and "seen_rel (R p) seen" and "\<forall>j \<in> set js. j < length msgs"
  shows "fst (spec_run A k (deliver p msgs rs js) R) =
    map (\<lambda>i. if fresh_idx (js ! i) (seen \<union> set (take i js)) then Inr (fst (msgs ! (js ! i)))
             else Inl ErrReplay) [0..<length js]"
  using assms(5,6)
proof (induction js arbitrary: R seen)
  case (Cons j js)
  let ?n = "buildNonce p (of_nat j)"
  obtain pt ad where m: "msgs ! j = (pt, ad)" "rs ! j = Inr (ae_seal A k ?n pt ad, ?n)"
    using Cons.prems(2) assms(4) by auto
  have j: "unat (of_nat j :: u64) = j"
    using Cons.prems(2) assms(3) by (intro unat_of_size) auto
  have op: "ae_open A k ?n (ae_seal A k ?n pt ad) ad = Some pt"
    using assms(1) by (simp add: aead_ok_def)
  define R' where "R' = R(p := if fresh (of_nat j) (R p) then R p @ [of_nat j] else R p)"
  have step: "spec_open A k (p, ae_seal A k ?n pt ad, ad, ?n) R =
      (if fresh_idx j seen then Inr pt else Inl ErrReplay, R')"
    using op assms(2) seen_rel_fresh [OF Cons.prems(1) j]
    by (auto simp: spec_open_def Let_def R'_def)
  have "seen_rel (R' p) (insert j seen)"
    using seen_rel_insert [OF Cons.prems(1) j] by (simp add: R'_def)
  with Cons.IH [of R' "insert j seen"] Cons.prems(2)
  have "fst (spec_run A k (deliver p msgs rs js) R') =
    map (\<lambda>i. if fresh_idx (js ! i) (insert j seen \<union> set (take i js)) then Inr (fst (msgs ! (js ! i)))
             else Inl ErrReplay) [0..<length js]" by simp
  then show ?case
    by (simp add: deliver_def m step split_beta Let_def map_filter_upt_Suc del: upt_Suc)
qed (simp add: deliver_def)

lemma count_list_replicate: "count_list (replicate n x) x = n"
  by (induction n) auto

lemma seal_run_one_path:
  assumes "ae_new A k" and "j < length msgs"
  shows "\<exists>pt ad. msgs ! j = (pt, ad) \<and>
    fst (seal_run A (map (Pair p) msgs) (newSession k k')) ! j =
      Inr (ae_seal A k (buildNonce p (of_nat j)) pt ad, buildNonce p (of_nat j))"
proof -
  have "map fst (take j (map (Pair p) msgs)) = replicate j p"
    using assms(2) by (intro nth_equalityI) auto
  then have "nth_counter (map (Pair p) msgs) j = j"
    using assms(2) by (simp add: nth_counter_def count_list_replicate)
  with assms show ?thesis
    by (cases "msgs ! j") (simp add: seal_run_eq Let_def)
qed

section \<open>Handshake agreement\<close>

text \<open>The Noise IK exchange as client and relay run it: INIT from the client, RESP from the relay.\<close>

definition handshake_flow :: "'hs noise_impl \<Rightarrow> Keypair \<Rightarrow> Keypair \<Rightarrow> bytes \<Rightarrow> bytes \<Rightarrow>
    crypto_error + (bytes \<times> session) \<times> (bytes \<times> bytes \<times> session)" where
  "handshake_flow N client relay initPayload respPayload =
     (case NewInitiator N client (kp_Public relay) of Inl e \<Rightarrow> Inl e | Inr hi \<Rightarrow>
      case WriteInit N hi initPayload of Inl e \<Rightarrow> Inl e | Inr (m1, hi) \<Rightarrow>
      case NewResponder N relay of Inl e \<Rightarrow> Inl e | Inr hr \<Rightarrow>
      case ReadInit N hr m1 of Inl e \<Rightarrow> Inl e | Inr (p1, remote, hr) \<Rightarrow>
      case WriteResponse N hr respPayload of Inl e \<Rightarrow> Inl e | Inr (m2, sr) \<Rightarrow>
      case ReadResponse N hi m2 of Inl e \<Rightarrow> Inl e | Inr (p2, si) \<Rightarrow>
        Inr ((p2, si), (p1, remote, sr)))"

text \<open>Documented behaviour of the Noise library for pattern IK: what one side writes the other side reads,
  the responder learns the initiator's static key from the first message, and both sides split into the
  same two transport keys at the second.\<close>

definition noise_ok :: "'hs noise_impl \<Rightarrow> bool" where
  "noise_ok N \<longleftrightarrow>
     (\<forall>kI kR hi hr p m1 x y hi'.
        length (snd kI) = KeyLen \<longrightarrow> nz_new N True kI (Some (snd kR)) = Some hi \<longrightarrow> nz_new N False kR None = Some hr \<longrightarrow>
        nz_write N hi p = Some (m1, x, y, hi') \<longrightarrow>
        (\<exists>hr'. nz_read N hr m1 = Some (p, None, None, hr') \<and> nz_PeerStatic N hr' = snd kI \<and>
           (\<forall>q m2 c1 c2 hr''. nz_write N hr' q = Some (m2, c1, c2, hr'') \<longrightarrow>
              (\<exists>hi''. nz_read N hi' m2 = Some (q, c1, c2, hi'')))))"

lemma noise_exchange:
  assumes "noise_ok N" and "length (kp_Public client) = KeyLen"
    and "NewInitiator N client (kp_Public relay) = Inr hi" and "WriteInit N hi p = Inr (m1, hi')"
    and "NewResponder N relay = Inr hr"
  obtains hr' where "ReadInit N hr m1 = Inr (p, kp_Public client, hr')"
    and "\<And>q m2 sr. WriteResponse N hr' q = Inr (m2, sr) \<Longrightarrow>
           \<exists>c1 c2. sr = newSession c2 c1 \<and> ReadResponse N hi' m2 = Inr (q, newSession c1 c2)"
proof -
  obtain x y where
    new: "nz_new N True (kp_Private client, kp_Public client) (Some (kp_Public relay)) = Some hi"
      "nz_new N False (kp_Private relay, kp_Public relay) None = Some hr"
    and w1: "nz_write N hi p = Some (m1, x, y, hi')"
    using assms(3-5)
    by (auto simp: NewInitiator_def WriteInit_def NewResponder_def split: option.splits)
  with assms(1) obtain hr' where r1: "nz_read N hr m1 = Some (p, None, None, hr')"
    and peer: "nz_PeerStatic N hr' = kp_Public client"
    and r2: "\<forall>q m2 c1 c2 hr''. nz_write N hr' q = Some (m2, c1, c2, hr'') \<longrightarrow>
              (\<exists>hi''. nz_read N hi' m2 = Some (q, c1, c2, hi''))"
    using assms(2) unfolding noise_ok_def by (metis snd_conv)
  show ?thesis
  proof (rule that [of hr'])
    show "ReadInit N hr m1 = Inr (p, kp_Public client, hr')"
      using assms(2) by (simp add: ReadInit_def r1 peer put_at_def)
    fix q m2 sr assume "WriteResponse N hr' q = Inr (m2, sr)"
    then obtain c1 c2 hr'' where w2: "nz_write N hr' q = Some (m2, Some c1, Some c2, hr'')" and "sr = newSession c2 c1"
      by (auto simp: WriteResponse_def split: option.splits)
    then show "\<exists>c1 c2. sr = newSession c2 c1 \<and> ReadResponse N hi' m2 = Inr (q, newSession c1 c2)"
      using r2 by (force simp: ReadResponse_def)
  qed
qed

section \<open>A concrete AEAD and Noise stand-in\<close>

text \<open>A checksum in place of the Poly1305 tag and a Noise state that exchanges its messages in the clear:
  insecure, used only to show that the hypotheses on the two parameters can hold.\<close>

definition sum_tag :: "bytes \<Rightarrow> bytes \<Rightarrow> bytes \<Rightarrow> bytes \<Rightarrow> bytes" where
  "sum_tag k n p ad = replicate 16 (sum_list k + sum_list n + sum_list p + 3 * sum_list ad)"

definition sum_aead :: aead_impl where
  "sum_aead = \<lparr> ae_new = (\<lambda>k. length k = KeyLen),
     ae_seal = (\<lambda>k n p ad. p @ sum_tag k n p ad),
     ae_open = (\<lambda>k n c ad. let p = take (length c - 16) c
                            in if c = p @ sum_tag k n p ad then Some p else None) \<rparr>"

lemma sum_aead_ok: "aead_ok sum_aead"
  by (auto simp: aead_ok_def sum_aead_def sum_tag_def Let_def split: if_splits)

record plain_hs =
  ph_init :: bool
  ph_pub :: bytes
  ph_peer :: bytes

definition plain_noise :: "plain_hs noise_impl" where
  "plain_noise = \<lparr>
     nz_new = (\<lambda>i k ps. Some \<lparr> ph_init = i, ph_pub = snd k, ph_peer = (case ps of None \<Rightarrow> [] | Some p \<Rightarrow> p) \<rparr>),
     nz_write = (\<lambda>hs p. if ph_init hs
                        then Some (ph_pub hs @ p, None, None, hs)
                        else Some (p, Some (replicate 32 1), Some (replicate 32 2), hs)),
     nz_read = (\<lambda>hs m. if ph_init hs then Some (m, Some (replicate 32 1), Some (replicate 32 2), hs)
                       else if length m < KeyLen then None
                       else Some (drop KeyLen m, None, None, hs\<lparr>ph_peer := take KeyLen m\<rparr>)),
     nz_PeerStatic = ph_peer \<rparr>"

lemma plain_noise_ok: "noise_ok plain_noise"
  by (auto simp: noise_ok_def plain_noise_def)

section \<open>Properties\<close>

text \<open>C10. Nonces are never reused: whatever packets are sealed on a session, on whatever paths and in whatever
  order, the nonces it hands out are pairwise distinct for as long as at most \<open>2^64\<close> packets are sent.\<close>

theorem nonce_unique:
  assumes "length reqs \<le> 2 ^ 64"
  shows "distinct (nonces_of (fst (seal_run A reqs (newSession k k'))))"
  using assms by (rule seal_nonces_distinct) simp

theorem nonce_unique_witness:
  "distinct (nonces_of (fst (seal_run sum_aead [(0, [1], []), (1, [2], []), (0, [3], [])]
     (newSession (replicate 32 7) (replicate 32 8)))))"
  by (rule nonce_unique) simp

text \<open>C11. The receive side, with its bounded bitset windows, answers every sequence of deliveries exactly as a
  specification that remembers every counter ever accepted, on every branch: wrong path byte, replayed
  or too old counter, failed authentication, and acceptance.\<close>

theorem session_open_refines:
  "fst (open_run A ds (newSession k k')) = fst (spec_run A k' ds (\<lambda>_. []))"
  using open_run_refines [OF sess_rel_new] by simp

text \<open>No packet is accepted twice: over any sequence of deliveries, forged or replayed ones included, the
  accepted ones have pairwise distinct pairs of path and counter.\<close>

theorem session_accept_once:
  "distinct (accepted ds (fst (open_run A ds (newSession k k'))))"
  using spec_run_accepted [of "\<lambda>_. []" ds A k'] open_run_refines [OF sess_rel_new, of A ds k k'] by simp

text \<open>A rejected packet burns nothing: after a delivery that Open refuses, every later sequence of
  deliveries gets the results it would have got without it.\<close>

theorem session_reject_inert:
  assumes "fst (Open A p c ad n s) = Inl e"
  shows "fst (open_run A ds (snd (Open A p c ad n s))) = fst (open_run A ds s)"
  using assms Open_fail_win [of A p c ad n s] by (intro open_run_cong) auto

theorem session_reject_inert_witness:
  "fst (open_run sum_aead [(0, [], [], buildNonce 0 5)]
     (snd (Open sum_aead 0 [1, 2, 3] [] (buildNonce 0 5) (newSession [] (replicate 32 8))))) =
   fst (open_run sum_aead [(0, [], [], buildNonce 0 5)] (newSession [] (replicate 32 8)))"
  by (rule session_reject_inert [where e = ErrAuthFailed])
     (auto simp: Open_def recvWindow_eq win_of_def newSession_def CheckOnly_def newReplayWindow_def sum_aead_def
       sum_tag_def KeyLen_def dest: arg_cong [where f = length])

text \<open>End to end over one path: packets sealed by one side and delivered to the peer with any loss,
  duplication and reordering are opened to the original plaintext exactly when they are neither a
  duplicate of an earlier delivery nor 8192 or more behind one, and are refused as replays otherwise.\<close>

theorem session_delivery:
  assumes "aead_ok A" and "length k = KeyLen" and "length msgs \<le> 2 ^ 64"
    and "\<forall>j \<in> set js. j < length msgs"
  shows "fst (open_run A (deliver p msgs (fst (seal_run A (map (Pair p) msgs) (newSession k k1))) js)
            (newSession k2 k)) =
    map (\<lambda>i. if fresh_idx (js ! i) (set (take i js)) then Inr (fst (msgs ! (js ! i)))
             else Inl ErrReplay) [0..<length js]"
proof -
  have new: "ae_new A k" using assms(1,2) by (simp add: aead_ok_def)
  have "seen_rel [] {}" by (simp add: seen_rel_def)
  with spec_run_delivery [OF assms(1) new assms(3), where seen = "{}" and R = "\<lambda>_. []" and p = p and js = js]
    seal_run_one_path [OF new] assms(4) open_run_refines [OF sess_rel_new]
  show ?thesis by simp
qed

theorem session_delivery_witness:
  "fst (open_run sum_aead
      (deliver 3 [([10], []), ([20], []), ([30], [])]
        (fst (seal_run sum_aead (map (Pair 3) [([10], []), ([20], []), ([30], [])])
           (newSession (replicate 32 7) []))) [2, 0, 2, 1])
      (newSession [] (replicate 32 7))) = [Inr [30], Inr [10], Inl ErrReplay, Inr [20]]"
proof -
  let ?msgs = "[([10], []), ([20], []), ([30], [])] :: (bytes \<times> bytes) list"
  have "fst (open_run sum_aead
      (deliver 3 ?msgs (fst (seal_run sum_aead (map (Pair 3) ?msgs) (newSession (replicate 32 7) []))) [2, 0, 2, 1])
      (newSession [] (replicate 32 7))) =
    map (\<lambda>i. if fresh_idx ([2, 0, 2, 1] ! i) (set (take i [2, 0, 2, 1])) then Inr (fst (?msgs ! ([2, 0, 2, 1] ! i)))
             else Inl ErrReplay) [0..<length [2, 0, 2, 1::nat]]"
    by (rule session_delivery [OF sum_aead_ok]) (simp_all add: KeyLen_def)
  also have "\<dots> = [Inr [30], Inr [10], Inl ErrReplay, Inr [20]]" by code_simp
  finally show ?thesis .
qed

text \<open>The handshake leaves the two ends with mirrored sessions: when the exchange succeeds, the client's
  send key is the relay's receive key and conversely, both payloads arrive intact, and the relay has
  learnt the client's public key.\<close>

theorem handshake_agreement:
  assumes "noise_ok N" and "length (kp_Public client) = KeyLen"
    and "handshake_flow N client relay p q = Inr ((q', si), (p', remote, sr))"
  shows "sendKey si = recvKey sr \<and> recvKey si = sendKey sr \<and> q' = q \<and> p' = p \<and>
         remote = kp_Public client"
proof -
  obtain hi m1 hi' hr where "NewInitiator N client (kp_Public relay) = Inr hi" "WriteInit N hi p = Inr (m1, hi')"
      "NewResponder N relay = Inr hr"
    using assms(3) by (auto simp: handshake_flow_def split: sum.splits)
  note flow = assms(3) this
  obtain hr' where r: "ReadInit N hr m1 = Inr (p, kp_Public client, hr')"
    and w: "\<And>q m2 sr. WriteResponse N hr' q = Inr (m2, sr) \<Longrightarrow>
      \<exists>c1 c2. sr = newSession c2 c1 \<and> ReadResponse N hi' m2 = Inr (q, newSession c1 c2)"
    using noise_exchange [OF assms(1,2) flow(2-4)] by blast
  obtain m2 where m2: "WriteResponse N hr' q = Inr (m2, sr)"
    using flow r by (auto simp: handshake_flow_def split: sum.splits)
  from w [OF m2] m2 flow r show ?thesis by (auto simp: handshake_flow_def)
qed

theorem handshake_agreement_witness:
  "let c = \<lparr> kp_Private = replicate 32 1, kp_Public = replicate 32 2 \<rparr>;
       r = \<lparr> kp_Private = replicate 32 3, kp_Public = replicate 32 4 \<rparr>;
       si = newSession (replicate 32 1) (replicate 32 2); sr = newSession (replicate 32 2) (replicate 32 1)
   in handshake_flow plain_noise c r [9] [8] = Inr (([8], si), ([9], replicate 32 2, sr)) \<and>
      sendKey si = recvKey sr \<and> recvKey si = sendKey sr"
proof -
  let ?c = "\<lparr> kp_Private = replicate 32 1, kp_Public = replicate 32 2 \<rparr>" and
    ?r = "\<lparr> kp_Private = replicate 32 3, kp_Public = replicate 32 4 \<rparr>" and
    ?si = "newSession (replicate 32 1) (replicate 32 2)" and
    ?sr = "newSession (replicate 32 2) (replicate 32 1)"
  have "handshake_flow plain_noise ?c ?r [9] [8] = Inr (([8], ?si), ([9], replicate 32 2, ?sr))"
    by (simp add: handshake_flow_def NewInitiator_def WriteInit_def NewResponder_def ReadInit_def
        WriteResponse_def ReadResponse_def plain_noise_def KeyLen_def put_at_def)
  with handshake_agreement [OF plain_noise_ok _ this] show ?thesis
    by (simp add: KeyLen_def del: sendKey_new)
qed

end
