(* ===== verification/Wire.thy ===== *)
theory Wire
  imports Session Payload
begin

text \<open>
  Sealed packets on the wire: \<^verbatim>\<open>core/bond/data.go\<close> (data packets with the inner header),
  \<^verbatim>\<open>core/bond/control.go\<close> (control packets without it) and \<^verbatim>\<open>core/bond/wire.go\<close> (the handshake
  payload). The CBOR library is a parameter: a pair of an encoder and a decoder per payload type.
\<close>

section \<open>Errors and CBOR\<close>

datatype bond_error = BProto proto_error | BCrypto crypto_error | BSeal crypto_error
  | BMarshal | BUnmarshal

definition marshalCBOR :: "'a cbor \<Rightarrow> 'a \<Rightarrow> bond_error + bytes" where
  "marshalCBOR c v = (case fst c v of None \<Rightarrow> Inl BMarshal | Some b \<Rightarrow> Inr b)"

definition unmarshalCBOR :: "'a cbor \<Rightarrow> bytes \<Rightarrow> bond_error + 'a" where
  "unmarshalCBOR c b = (case snd c b of None \<Rightarrow> Inl BUnmarshal | Some v \<Rightarrow> Inr v)"

definition HandshakeResp_Marshal :: "HandshakeRespPayload cbor \<Rightarrow> HandshakeRespPayload \<Rightarrow> bond_error + bytes" where
  "HandshakeResp_Marshal c p = (case fst c p of None \<Rightarrow> Inl BMarshal | Some b \<Rightarrow> Inr b)"

definition UnmarshalHandshakeResp :: "HandshakeRespPayload cbor \<Rightarrow> bytes \<Rightarrow> bond_error + HandshakeRespPayload" where
  "UnmarshalHandshakeResp c b = (case snd c b of None \<Rightarrow> Inl BUnmarshal | Some p \<Rightarrow> Inr p)"

section \<open>Sealing and opening\<close>

definition be32 :: "nat \<Rightarrow> bytes \<Rightarrow> u32 \<Rightarrow> bytes" where
  "be32 i dst v =
     (let dst = dst[i := ucast (drop_bit 24 v)];
          dst = dst[i + 1 := ucast (drop_bit 16 v)];
          dst = dst[i + 2 := ucast (drop_bit 8 v)]
      in dst[i + 3 := ucast v])"

definition adBuf :: "ptype \<Rightarrow> u8 \<Rightarrow> u32 \<Rightarrow> bytes" where
  "adBuf typ ver sessionIndex = be32 4 ((replicate OuterFixedLen 0)[0 := typ, 1 := ver]) sessionIndex"

definition sealPacket :: "aead_impl \<Rightarrow> ptype \<Rightarrow> u32 \<Rightarrow> u8 \<Rightarrow> InnerDataHeader \<Rightarrow> bytes \<Rightarrow> session \<Rightarrow>
    (bond_error + bytes) \<times> session" where
  "sealPacket A typ sessionIndex pathID inner payload sess =
     (let innerBuf = replicate (InnerHeaderLen + length payload) 0
      in case MarshalInner innerBuf inner of
           Inl e \<Rightarrow> (Inl (BProto e), sess)
         | Inr innerBuf \<Rightarrow>
           (let innerBuf = put_at InnerHeaderLen payload innerBuf;
                ad = adBuf typ Version sessionIndex
            in case Seal A pathID innerBuf ad sess of
                 (Inl e, sess) \<Rightarrow> (Inl (BSeal e), sess)
               | (Inr (ciphertext, nonce), sess) \<Rightarrow>
                 (let out = replicate (OuterPrefixLen + length ciphertext) 0
                  in case MarshalOuter out \<lparr> oh_Type = typ, oh_Version = Version,
                            oh_SessionIndex = sessionIndex, oh_Nonce = nonce \<rparr> of
                       Inl e \<Rightarrow> (Inl (BProto e), sess)
                     | Inr out \<Rightarrow> (Inr (put_at OuterPrefixLen ciphertext out), sess))))"

definition openPacket :: "aead_impl \<Rightarrow> OuterHeader \<Rightarrow> u8 \<Rightarrow> bytes \<Rightarrow> session \<Rightarrow>
    (bond_error + (InnerDataHeader \<times> bytes)) \<times> session" where
  "openPacket A oh pathID ciphertext sess =
     (let ad = adBuf (oh_Type oh) (oh_Version oh) (oh_SessionIndex oh)
      in case Open A pathID ciphertext ad (oh_Nonce oh) sess of
           (Inl e, sess) \<Rightarrow> (Inl (BCrypto e), sess)
         | (Inr plaintext, sess) \<Rightarrow>
           (case UnmarshalInner plaintext of
              Inl e \<Rightarrow> (Inl (BProto e), sess)
            | Inr (inner, n) \<Rightarrow> (Inr (inner, drop n plaintext), sess)))"

definition sealControl :: "aead_impl \<Rightarrow> ptype \<Rightarrow> u32 \<Rightarrow> u8 \<Rightarrow> bytes \<Rightarrow> session \<Rightarrow>
    (bond_error + bytes) \<times> session" where
  "sealControl A typ sessionIndex pathID payload sess =
     (let ad = adBuf typ Version sessionIndex
      in case Seal A pathID payload ad sess of
           (Inl e, sess) \<Rightarrow> (Inl (BSeal e), sess)
         | (Inr (ciphertext, nonce), sess) \<Rightarrow>
           (let out = replicate (OuterPrefixLen + length ciphertext) 0
            in case MarshalOuter out \<lparr> oh_Type = typ, oh_Version = Version,
                      oh_SessionIndex = sessionIndex, oh_Nonce = nonce \<rparr> of
                 Inl e \<Rightarrow> (Inl (BProto e), sess)
               | Inr out \<Rightarrow> (Inr (put_at OuterPrefixLen ciphertext out), sess)))"

definition openControl :: "aead_impl \<Rightarrow> OuterHeader \<Rightarrow> u8 \<Rightarrow> bytes \<Rightarrow> session \<Rightarrow>
    (bond_error + bytes) \<times> session" where
  "openControl A oh pathID ciphertext sess =
     (let ad = adBuf (oh_Type oh) (oh_Version oh) (oh_SessionIndex oh)
      in case Open A pathID ciphertext ad (oh_Nonce oh) sess of
           (Inl e, sess) \<Rightarrow> (Inl (BCrypto e), sess)
         | (Inr plaintext, sess) \<Rightarrow> (Inr plaintext, sess))"

text \<open>What a receiver does with a datagram: parse the outer header, take the path from the nonce, open the rest.\<close>

definition open_wire :: "aead_impl \<Rightarrow> bytes \<Rightarrow> session \<Rightarrow>
    (bond_error + (OuterHeader \<times> InnerDataHeader \<times> bytes)) \<times> session" where
  "open_wire A pkt sess =
     (case UnmarshalOuter pkt of
        Inl e \<Rightarrow> (Inl (BProto e), sess)
      | Inr (oh, n) \<Rightarrow>
        (case openPacket A oh (oh_Nonce oh ! 0) (drop n pkt) sess of
           (Inl e, sess) \<Rightarrow> (Inl e, sess)
         | (Inr (inner, payload), sess) \<Rightarrow> (Inr (oh, inner, payload), sess)))"

definition open_wire_control :: "aead_impl \<Rightarrow> bytes \<Rightarrow> session \<Rightarrow>
    (bond_error + (OuterHeader \<times> bytes)) \<times> session" where
  "open_wire_control A pkt sess =
     (case UnmarshalOuter pkt of
        Inl e \<Rightarrow> (Inl (BProto e), sess)
      | Inr (oh, n) \<Rightarrow>
        (case openControl A oh (oh_Nonce oh ! 0) (drop n pkt) sess of
           (Inl e, sess) \<Rightarrow> (Inl e, sess)
         | (Inr plaintext, sess) \<Rightarrow> (Inr (oh, plaintext), sess)))"

section \<open>Closed forms\<close>

lemma adBuf_eq: "adBuf t v si = [t, v, 0, 0] @ put_be 4 si"
  by (simp add: adBuf_def be32_def put_be_def upt_rec numeral_eq_Suc)

lemma put_be_inj: "put_be 4 x = put_be 4 y \<longleftrightarrow> x = y" for x y :: u32
proof
  assume "put_be 4 x = put_be 4 y"
  then have "(get_be (put_be 4 x) :: u32) = get_be (put_be 4 y)" by (rule arg_cong)
  then show "x = y" by simp
qed simp

lemma adBuf_inj: "adBuf t v si = adBuf t' v' si' \<longleftrightarrow> t = t' \<and> v = v' \<and> si = si'"
  by (auto simp: adBuf_eq put_be_inj)

definition inner_bytes :: "InnerDataHeader \<Rightarrow> bytes" where
  "inner_bytes x = put_be 8 (ih_GSN x) @ put_be 4 (ih_PSN x) @ [ih_PathID x, ih_Flags x] @
          put_be 2 (ih_PayloadLen x) @ put_be 2 (ih_GenerationID x) @ [ih_GenIndex x, 0]"

lemma length_inner_bytes [simp]: "length (inner_bytes x) = 20"
  by (simp add: inner_bytes_def)

lemma UnmarshalInner_inner_bytes [simp]:
  "UnmarshalInner (inner_bytes x @ rest) = Inr (x, 20)"
proof -
  have "UnmarshalInner (inner_bytes x @ rest) = UnmarshalInner (put_be 8 (ih_GSN x) @ put_be 4 (ih_PSN x) @
      [ih_PathID x, ih_Flags x] @ put_be 2 (ih_PayloadLen x) @ put_be 2 (ih_GenerationID x) @
      [ih_GenIndex x, 0] @ rest)"
    by (simp add: inner_bytes_def)
  also have "\<dots> = Inr (x, 20)"
    by (simp only: UnmarshalInner_append length_put_be get_be_put_be) simp
  finally show ?thesis .
qed

definition outer_bytes :: "ptype \<Rightarrow> u32 \<Rightarrow> bytes \<Rightarrow> bytes" where
  "outer_bytes t si nonce = [t, Version, 0, 0] @ put_be 4 si @ nonce"

lemma UnmarshalOuter_outer_bytes [simp]:
  "length nonce = 12 \<Longrightarrow> UnmarshalOuter (outer_bytes t si nonce @ rest) =
     Inr (\<lparr> oh_Type = t, oh_Version = Version, oh_SessionIndex = si, oh_Nonce = nonce \<rparr>, 20)"
  using UnmarshalOuter_append [of "put_be 4 si" nonce t Version 0 0 rest]
  by (simp add: outer_bytes_def)

lemma sealPacket_eq:
  assumes "ae_new A (sendKey s)"
  shows "sealPacket A t si p inner payload s =
    (let n = buildNonce p (ctr_of s p)
     in (Inr (outer_bytes t si n @ ae_seal A (sendKey s) n (inner_bytes inner @ payload) (adBuf t Version si)),
         s\<lparr>sendCtrs := (sendCtrs s)(p \<mapsto> ctr_of s p + 1)\<rparr>))"
proof -
  have "MarshalInner (replicate (20 + length payload) 0) inner = Inr (inner_bytes inner @ replicate (length payload) 0)"
    by (simp add: MarshalInner_eq inner_bytes_def)
  moreover have "put_at 20 payload (inner_bytes inner @ replicate (length payload) 0) = inner_bytes inner @ payload"
    by (simp add: put_at_def)
  ultimately show ?thesis
    using assms
    by (simp add: sealPacket_def Seal_eq MarshalOuter_eq wf_outer_def outer_bytes_def put_at_def Let_def)
qed

lemma sealControl_eq:
  assumes "ae_new A (sendKey s)"
  shows "sealControl A t si p payload s =
    (let n = buildNonce p (ctr_of s p)
     in (Inr (outer_bytes t si n @ ae_seal A (sendKey s) n payload (adBuf t Version si)),
         s\<lparr>sendCtrs := (sendCtrs s)(p \<mapsto> ctr_of s p + 1)\<rparr>))"
  using assms
  by (simp add: sealControl_def Seal_eq MarshalOuter_eq wf_outer_def outer_bytes_def put_at_def Let_def)

lemma length_outer_bytes [simp]: "length nonce = 12 \<Longrightarrow> length (outer_bytes t si nonce) = 20"
  by (simp add: outer_bytes_def)

lemma Open_accepts:
  assumes "ae_new A (recvKey r)" and "ae_open A (recvKey r) (buildNonce p c) ct ad = Some pt"
    and "CheckOnly c (win_of r p)"
  shows "Open A p ct ad (buildNonce p c) r = (Inr pt, r\<lparr>recvWins := (recvWins r)(p \<mapsto> MarkSeen c (win_of r p))\<rparr>)"
  using assms by (simp add: Open_def recvWindow_eq Let_def)

section \<open>A concrete instance\<close>

definition ex_sender :: session where "ex_sender = newSession (replicate 32 7) (replicate 32 8)"
definition ex_receiver :: session where "ex_receiver = newSession (replicate 32 8) (replicate 32 7)"
definition ex_inner :: InnerDataHeader where
  "ex_inner = \<lparr> ih_GSN = 5, ih_PSN = 6, ih_PathID = 1, ih_Flags = 0, ih_PayloadLen = 2,
                ih_GenerationID = 0, ih_GenIndex = 0 \<rparr>"
definition ex_packet :: bytes where
  "ex_packet = projr (fst (sealPacket sum_aead TypeData 9 1 ex_inner [40, 41] ex_sender))"

lemma ex_sessions:
  "length (sendKey ex_sender) = KeyLen" "recvKey ex_receiver = sendKey ex_sender"
  "CheckOnly (ctr_of ex_sender p) (win_of ex_receiver p)"
  by (simp_all add: ex_sender_def ex_receiver_def KeyLen_def win_of_def newSession_def CheckOnly_def
      newReplayWindow_def)

section \<open>Properties\<close>

text \<open>C12. A sealed data packet opens at the peer to the same header and payload, with the path and type it
  was sent with, whenever the peer holds the matching key and has not seen the counter.\<close>

theorem packet_roundtrip:
  assumes "aead_ok A" and "length (sendKey s) = KeyLen" and "recvKey r = sendKey s"
    and "CheckOnly (ctr_of s p) (win_of r p)"
  shows "\<exists>pkt. fst (sealPacket A t si p inner payload s) = Inr pkt \<and>
     length pkt = length payload + HeaderOverhead \<and>
     fst (open_wire A pkt r) =
       Inr (\<lparr> oh_Type = t, oh_Version = Version, oh_SessionIndex = si, oh_Nonce = buildNonce p (ctr_of s p) \<rparr>,
            inner, payload)"
proof -
  have new: "ae_new A (sendKey s)" and op: "\<And>n p ad. ae_open A (sendKey s) n (ae_seal A (sendKey s) n p ad) ad = Some p"
    and len: "\<And>k n p ad. length (ae_seal A k n p ad) = length p + 16"
    using assms(1,2) by (simp_all add: aead_ok_def)
  show ?thesis
    using assms(3,4) new op
    by (simp add: sealPacket_eq [OF new] open_wire_def openPacket_def Open_accepts len Let_def)
qed

theorem packet_roundtrip_witness:
  "\<exists>pkt. fst (sealPacket sum_aead TypeData 9 1 ex_inner [40, 41] ex_sender) = Inr pkt \<and>
     length pkt = 58 \<and>
     fst (open_wire sum_aead pkt ex_receiver) =
       Inr (\<lparr> oh_Type = TypeData, oh_Version = Version, oh_SessionIndex = 9,
              oh_Nonce = buildNonce 1 (ctr_of ex_sender 1) \<rparr>, ex_inner, [40, 41])"
  using packet_roundtrip [OF sum_aead_ok ex_sessions(1) ex_sessions(2) ex_sessions(3) [of 1],
      where t = TypeData and si = 9 and inner = ex_inner and payload = "[40, 41]"] by simp



text \<open>C40. The two reserved bytes of the outer header are not authenticated: rewriting them in flight
  changes neither the outcome nor the receiver's state, although the comment on \<^verbatim>\<open>sealPacket\<close> lists them
  among the authenticated fields.\<close>

theorem reserved_bytes_unauthenticated:
  "open_wire A (t # v # r2 # r3 # rest) s = open_wire A (t # v # x # y # rest) s"
proof -
  have "UnmarshalOuter (t # v # r2 # r3 # rest) = UnmarshalOuter (t # v # x # y # rest)"
    by (simp add: UnmarshalOuter_def sub_slice_def)
  then show ?thesis
    by (auto simp: open_wire_def UnmarshalOuter_def split: sum.splits)
qed

text \<open>Control packets round-trip the same way: the peer recovers type, session index, path and payload.\<close>

theorem control_roundtrip:
  assumes "aead_ok A" and "length (sendKey s) = KeyLen" and "recvKey r = sendKey s"
    and "CheckOnly (ctr_of s p) (win_of r p)"
  shows "\<exists>pkt. fst (sealControl A t si p payload s) = Inr pkt \<and>
     fst (open_wire_control A pkt r) =
       Inr (\<lparr> oh_Type = t, oh_Version = Version, oh_SessionIndex = si, oh_Nonce = buildNonce p (ctr_of s p) \<rparr>,
            payload)"
proof -
  have new: "ae_new A (sendKey s)" and op: "\<And>n p ad. ae_open A (sendKey s) n (ae_seal A (sendKey s) n p ad) ad = Some p"
    using assms(1,2) by (simp_all add: aead_ok_def)
  show ?thesis
    using assms(3,4) new op
    by (simp add: sealControl_eq [OF new] open_wire_control_def openControl_def Open_accepts Let_def)
qed

theorem control_roundtrip_witness:
  "\<exists>pkt. fst (sealControl sum_aead TypeProbe 9 2 [1, 2, 3] ex_sender) = Inr pkt \<and>
     fst (open_wire_control sum_aead pkt ex_receiver) =
       Inr (\<lparr> oh_Type = TypeProbe, oh_Version = Version, oh_SessionIndex = 9,
              oh_Nonce = buildNonce 2 (ctr_of ex_sender 2) \<rparr>, [1, 2, 3])"
  by (rule control_roundtrip [OF sum_aead_ok ex_sessions(1) ex_sessions(2) ex_sessions(3)])

end
