(* ===== verification/Gsn_Heap.thy ===== *)
theory Gsn_Heap
  imports Prelude
begin

text \<open>
  The packet heap of \<^verbatim>\<open>core/reorder/buffer.go\<close>: the \<^verbatim>\<open>gsnHeap\<close> slice with its \<^verbatim>\<open>Less\<close>,
  \<^verbatim>\<open>Swap\<close>, \<^verbatim>\<open>Push\<close> and \<^verbatim>\<open>Pop\<close>, driven by the sift-up and sift-down loops of the standard
  library's \<^verbatim>\<open>container/heap\<close>. The reordering buffer only relies on the priority-queue
  interface \<open>prio_queue\<close>, which is interpreted here on the array heap.
\<close>

section \<open>Packets and the heap slice\<close>

record packet =
  pk_GSN :: u64
  pk_Payload :: bytes
  pk_Push :: bool

definition pk_size :: "packet \<Rightarrow> int" where
  "pk_size p = int (length (pk_Payload p))"

definition heap_Less :: "packet list \<Rightarrow> nat \<Rightarrow> nat \<Rightarrow> bool" where
  "heap_Less h i j \<longleftrightarrow> pk_GSN (h ! i) < pk_GSN (h ! j)"

definition heap_Swap :: "packet list \<Rightarrow> nat \<Rightarrow> nat \<Rightarrow> packet list" where
  "heap_Swap h i j = h[i := h ! j, j := h ! i]"

definition heap_slice_Push :: "packet list \<Rightarrow> packet \<Rightarrow> packet list" where
  "heap_slice_Push h x = h @ [x]"

definition heap_slice_Pop :: "packet list \<Rightarrow> packet \<times> packet list" where
  "heap_slice_Pop h = (let n = length h in (h ! (n - 1), take (n - 1) h))"

function heap_up :: "packet list \<Rightarrow> nat \<Rightarrow> packet list" where
  "heap_up h j =
     (let i = (j - 1) div 2
      in if i = j \<or> \<not> heap_Less h j i then h else heap_up (heap_Swap h i j) i)"
  by pat_completeness auto
termination
proof (relation "measure snd", goal_cases)
  case (2 h j i)
  then show ?case by (cases j) auto
qed simp

function heap_down :: "packet list \<Rightarrow> nat \<Rightarrow> nat \<Rightarrow> packet list" where
  "heap_down h i n =
     (let j1 = 2 * i + 1
      in if j1 \<ge> n then h
         else let j2 = j1 + 1;
                  j = (if j2 < n \<and> heap_Less h j2 j1 then j2 else j1)
              in if \<not> heap_Less h j i then h else heap_down (heap_Swap h i j) j n)"
  by pat_completeness auto
termination
  by (relation "measure (\<lambda>(h, i, n). n - i)") auto

declare heap_up.simps [simp del] heap_down.simps [simp del]

definition heap_Push :: "packet list \<Rightarrow> packet \<Rightarrow> packet list" where
  "heap_Push h x = (let h = heap_slice_Push h x in heap_up h (length h - 1))"

definition heap_Pop :: "packet list \<Rightarrow> packet \<times> packet list" where
  "heap_Pop h =
     (let n = length h - 1;
          h = heap_Swap h 0 n;
          h = heap_down h 0 n
      in heap_slice_Pop h)"

section \<open>Heap order\<close>

definition heap_ok_upto :: "packet list \<Rightarrow> nat \<Rightarrow> bool" where
  "heap_ok_upto h n \<longleftrightarrow> (\<forall>k. 0 < k \<and> k < n \<longrightarrow> pk_GSN (h ! ((k - 1) div 2)) \<le> pk_GSN (h ! k))"

abbreviation heap_ok :: "packet list \<Rightarrow> bool" where
  "heap_ok h \<equiv> heap_ok_upto h (length h)"

text \<open>Order everywhere but between \<open>j\<close> and its parent, the state of the sift-up loop.\<close>

definition up_ok :: "packet list \<Rightarrow> nat \<Rightarrow> bool" where
  "up_ok h j \<longleftrightarrow>
     (\<forall>k. 0 < k \<and> k < length h \<and> k \<noteq> j \<longrightarrow> pk_GSN (h ! ((k - 1) div 2)) \<le> pk_GSN (h ! k)) \<and>
     (\<forall>k. 0 < j \<and> 0 < k \<and> k < length h \<and> (k - 1) div 2 = j \<longrightarrow>
        pk_GSN (h ! ((j - 1) div 2)) \<le> pk_GSN (h ! k))"

text \<open>Order everywhere but between \<open>i\<close> and its children, the state of the sift-down loop.\<close>

definition down_ok :: "packet list \<Rightarrow> nat \<Rightarrow> nat \<Rightarrow> bool" where
  "down_ok h i n \<longleftrightarrow>
     (\<forall>k. 0 < k \<and> k < n \<and> (k - 1) div 2 \<noteq> i \<longrightarrow> pk_GSN (h ! ((k - 1) div 2)) \<le> pk_GSN (h ! k)) \<and>
     (\<forall>k. 0 < i \<and> 0 < k \<and> k < n \<and> (k - 1) div 2 = i \<longrightarrow>
        pk_GSN (h ! ((i - 1) div 2)) \<le> pk_GSN (h ! k))"

section \<open>Swaps\<close>

lemma length_heap_Swap [simp]: "length (heap_Swap h i j) = length h"
  by (simp add: heap_Swap_def)

lemma nth_heap_Swap:
  "i < length h \<Longrightarrow> j < length h \<Longrightarrow> k < length h \<Longrightarrow>
   heap_Swap h i j ! k = (if k = j then h ! i else if k = i then h ! j else h ! k)"
  by (auto simp: heap_Swap_def nth_list_update)

lemma mset_heap_Swap [simp]: "i < length h \<Longrightarrow> j < length h \<Longrightarrow> mset (heap_Swap h i j) = mset h"
  by (simp add: heap_Swap_def mset_swap)

section \<open>Sift up\<close>

lemma heap_up_stop: "(j - 1) div 2 = i \<Longrightarrow> i = j \<or> \<not> heap_Less h j i \<Longrightarrow> heap_up h j = h"
  by (subst heap_up.simps) (simp add: Let_def)

lemma heap_up_rec:
  "(j - 1) div 2 = i \<Longrightarrow> i \<noteq> j \<Longrightarrow> heap_Less h j i \<Longrightarrow> heap_up h j = heap_up (heap_Swap h i j) i"
  by (subst heap_up.simps) (simp add: Let_def)

lemma mset_heap_up: "j < length h \<Longrightarrow> mset (heap_up h j) = mset h"
proof (induction h j rule: heap_up.induct)
  case (1 h j)
  then show ?case
    by (subst heap_up.simps) (auto simp: Let_def)
qed

lemma up_ok_step:
  assumes "up_ok h j" and j: "j < length h" and i: "i = (j - 1) div 2" and "i \<noteq> j"
    and less: "pk_GSN (h ! j) < pk_GSN (h ! i)"
  shows "up_ok (heap_Swap h i j) i"
proof -
  have "i < j" using i \<open>i \<noteq> j\<close> by (cases j) auto
  note sw = nth_heap_Swap [of i h j]
  have par: "(k - 1) div 2 < k" if "0 < k" for k :: nat using that by linarith
  have ord: "pk_GSN (h ! ((k - 1) div 2)) \<le> pk_GSN (h ! k)" if "0 < k" "k < length h" "k \<noteq> j" for k
    using assms(1) that by (simp add: up_ok_def)
  have child: "pk_GSN (h ! i) \<le> pk_GSN (h ! k)" if "0 < k" "k < length h" "(k - 1) div 2 = j" for k
    using assms(1) that \<open>i < j\<close> i by (auto simp: up_ok_def)
  show ?thesis
    unfolding up_ok_def
  proof (intro conjI allI impI, goal_cases)
    case (1 k)
    then have k: "0 < k" "k < length h" "k \<noteq> i" by auto
    have pk: "(k - 1) div 2 < k" using par k by simp
    consider "k = j" | "(k - 1) div 2 = j" | "(k - 1) div 2 = i" "k \<noteq> j"
      | "k \<noteq> j" "(k - 1) div 2 \<noteq> i" "(k - 1) div 2 \<noteq> j" by blast
    then show ?case
    proof cases
      case 1
      with less \<open>i < j\<close> j i [symmetric] show ?thesis by (simp add: sw)
    next
      case 2
      with k pk child [of k] \<open>i < j\<close> j show ?thesis by (simp add: sw)
    next
      case 3
      with k pk ord [of k] less \<open>i < j\<close> j show ?thesis by (simp add: sw)
    next
      case 4
      with k pk ord [of k] \<open>i < j\<close> j show ?thesis by (simp add: sw)
    qed
  next
    case (2 k)
    then have k: "0 < k" "k < length h" "(k - 1) div 2 = i" "0 < i" by auto
    then have "(i - 1) div 2 < i" "i < k" using par [of i] par [of k] by auto
    with k ord [of i] ord [of k] \<open>i < j\<close> j show ?case
      by (auto simp: sw intro: order.trans)
  qed
qed

lemma heap_up_ok: "up_ok h j \<Longrightarrow> j < length h \<Longrightarrow> heap_ok (heap_up h j)"
proof (induction h j rule: heap_up.induct)
  case (1 h j)
  define i where "i = (j - 1) div 2"
  show ?case
  proof (cases "i = j \<or> \<not> heap_Less h j i")
    case True
    then have "heap_up h j = h" by (intro heap_up_stop) (auto simp: i_def)
    moreover have "heap_ok h"
      using 1(2,3) True by (auto simp: heap_ok_upto_def up_ok_def heap_Less_def i_def)
    ultimately show ?thesis by simp
  next
    case False
    then have "up_ok (heap_Swap h i j) i"
      using 1(2,3) by (intro up_ok_step) (auto simp: i_def heap_Less_def)
    moreover have "i < length h" using 1(3) i_def by linarith
    ultimately have "heap_ok (heap_up (heap_Swap h i j) i)"
      using 1(1) False by (simp add: i_def)
    moreover have "heap_up h j = heap_up (heap_Swap h i j) i"
      using False by (intro heap_up_rec) (auto simp: i_def)
    ultimately show ?thesis by simp
  qed
qed

section \<open>Sift down\<close>

definition heap_child :: "packet list \<Rightarrow> nat \<Rightarrow> nat \<Rightarrow> nat" where
  "heap_child h i n =
     (if 2 * i + 2 < n \<and> heap_Less h (2 * i + 2) (2 * i + 1) then 2 * i + 2 else 2 * i + 1)"

lemma heap_down_unfold:
  "heap_down h i n =
     (if 2 * i + 1 \<ge> n \<or> \<not> heap_Less h (heap_child h i n) i then h
      else heap_down (heap_Swap h i (heap_child h i n)) (heap_child h i n) n)"
  by (subst heap_down.simps) (simp add: Let_def heap_child_def)

lemma length_heap_down [simp]: "length (heap_down h i n) = length h"
  by (induction h i n rule: heap_down.induct) (subst heap_down.simps, simp add: Let_def)

lemma heap_down_frame:
  "n \<le> length h \<Longrightarrow> n \<le> k \<Longrightarrow> k < length h \<Longrightarrow> heap_down h i n ! k = h ! k"
proof (induction h i n rule: heap_down.induct)
  case (1 h i n)
  then show ?case
    by (subst heap_down.simps) (auto simp: Let_def nth_heap_Swap)
qed

lemma mset_heap_down: "n \<le> length h \<Longrightarrow> mset (heap_down h i n) = mset h"
proof (induction h i n rule: heap_down.induct)
  case (1 h i n)
  then show ?case
    by (subst heap_down.simps) (auto simp: Let_def)
qed

lemma children: "0 < k \<Longrightarrow> (k - 1) div 2 = i \<longleftrightarrow> k = 2 * i + 1 \<or> k = 2 * i + 2" for k i :: nat
  by auto

lemma down_ok_step:
  assumes ok: "down_ok h i n" and n: "n \<le> length h"
    and j: "j < n" "j = 2 * i + 1 \<or> j = 2 * i + 2"
    and min: "\<And>k. k < n \<Longrightarrow> k = 2 * i + 1 \<or> k = 2 * i + 2 \<Longrightarrow> pk_GSN (h ! j) \<le> pk_GSN (h ! k)"
    and less: "pk_GSN (h ! j) < pk_GSN (h ! i)"
  shows "down_ok (heap_Swap h i j) j n"
proof -
  have ij: "i < j" using j by auto
  have pj: "(j - 1) div 2 = i" using j by auto
  note sw = nth_heap_Swap [of i h j]
  have par: "(k - 1) div 2 < k" if "0 < k" for k :: nat using that by linarith
  have ord: "pk_GSN (h ! ((k - 1) div 2)) \<le> pk_GSN (h ! k)"
    if "0 < k" "k < n" "(k - 1) div 2 \<noteq> i" for k
    using ok that by (simp add: down_ok_def)
  have up: "pk_GSN (h ! ((i - 1) div 2)) \<le> pk_GSN (h ! j)" if "0 < i"
    using ok that j pj ij by (auto simp: down_ok_def)
  have sib: "pk_GSN (h ! j) \<le> pk_GSN (h ! k)" if "0 < k" "k < n" "(k - 1) div 2 = i" for k
    using that by (intro min) (auto simp: children)
  show ?thesis
    unfolding down_ok_def
  proof (intro conjI allI impI, goal_cases)
    case (1 k)
    then have k: "0 < k" "k < n" "(k - 1) div 2 \<noteq> j" by auto
    show ?case
    proof (cases "k = j \<or> k = i")
      case True
      with k par [of k] up less pj ij n j(1) show ?thesis by (auto simp: sw)
    next
      case False
      with k par [of k] ord [of k] sib [of k] ij n j(1) show ?thesis by (auto simp: sw)
    qed
  next
    case (2 k)
    then have "(k - 1) div 2 = j" "0 < k" "k < n" "k \<noteq> i" "k \<noteq> j" using par [of k] ij by auto
    with ord [of k] pj ij n j(1) show ?case by (auto simp: sw)
  qed
qed

lemma heap_child_min:
  "k < n \<Longrightarrow> k = 2 * i + 1 \<or> k = 2 * i + 2 \<Longrightarrow> pk_GSN (h ! heap_child h i n) \<le> pk_GSN (h ! k)"
  by (auto simp: heap_child_def heap_Less_def)

lemma heap_child_range:
  "2 * i + 1 < n \<Longrightarrow> heap_child h i n < n \<and>
     (heap_child h i n = 2 * i + 1 \<or> heap_child h i n = 2 * i + 2)"
  by (auto simp: heap_child_def)

lemma heap_down_ok: "down_ok h i n \<Longrightarrow> n \<le> length h \<Longrightarrow> heap_ok_upto (heap_down h i n) n"
proof (induction "n - i" arbitrary: h i rule: less_induct)
  case (less i h)
  let ?j = "heap_child h i n"
  have ord: "pk_GSN (h ! ((k - 1) div 2)) \<le> pk_GSN (h ! k)"
    if "0 < k" "k < n" "(k - 1) div 2 \<noteq> i" for k
    using less.prems(1) that by (simp add: down_ok_def)
  show ?case
  proof (cases "2 * i + 1 < n \<and> heap_Less h ?j i")
    case False
    then have "heap_down h i n = h" by (subst heap_down_unfold) auto
    moreover have "pk_GSN (h ! i) \<le> pk_GSN (h ! k)" if "0 < k" "k < n" "(k - 1) div 2 = i" for k
    proof -
      have c: "k = 2 * i + 1 \<or> k = 2 * i + 2" using that by auto
      then have "pk_GSN (h ! ?j) \<le> pk_GSN (h ! k)" using that by (intro heap_child_min)
      moreover have "pk_GSN (h ! i) \<le> pk_GSN (h ! ?j)"
        using False c that by (auto simp: heap_Less_def)
      ultimately show ?thesis by simp
    qed
    ultimately show ?thesis using ord by (auto simp: heap_ok_upto_def)
  next
    case True
    then have "down_ok (heap_Swap h i ?j) ?j n"
      using less.prems heap_child_range [of i n h] heap_child_min [of _ n i h]
      by (intro down_ok_step) (auto simp: heap_Less_def)
    then have "heap_ok_upto (heap_down (heap_Swap h i ?j) ?j n) n"
      using True less.prems heap_child_range [of i n h] by (intro less.hyps) auto
    then show ?thesis using True by (subst heap_down_unfold) auto
  qed
qed

section \<open>Push and Pop\<close>

lemma heap_root_min:
  assumes "heap_ok_upto h n" and "k < n"
  shows "pk_GSN (h ! 0) \<le> pk_GSN (h ! k)"
  using assms(2)
proof (induction k rule: less_induct)
  case (less k)
  show ?case
  proof (cases "k = 0")
    case False
    then have "(k - 1) div 2 < k" by linarith
    with less have "pk_GSN (h ! 0) \<le> pk_GSN (h ! ((k - 1) div 2))" by simp
    also have "\<dots> \<le> pk_GSN (h ! k)"
      using assms(1) less.prems False by (simp add: heap_ok_upto_def)
    finally show ?thesis .
  qed simp
qed

lemma mset_heap_Push: "mset (heap_Push h x) = add_mset x (mset h)"
  by (simp add: heap_Push_def heap_slice_Push_def mset_heap_up)

lemma heap_ok_Push: "heap_ok h \<Longrightarrow> heap_ok (heap_Push h x)"
proof -
  assume ok: "heap_ok h"
  have "up_ok (h @ [x]) (length h)"
    unfolding up_ok_def
  proof (intro conjI allI impI, goal_cases)
    case (1 k)
    then have "0 < k" "k < length h" "(k - 1) div 2 < length h" by auto
    with ok show ?case by (auto simp: heap_ok_upto_def nth_append)
  qed auto
  then show ?thesis
    by (simp add: heap_Push_def heap_slice_Push_def heap_up_ok)
qed

lemma heap_Pop_parts:
  assumes "heap_ok h" and "h \<noteq> []" and "heap_Pop h = (x, h')"
  shows "x = h ! 0" and "heap_ok h'" and "mset h = add_mset x (mset h')"
proof -
  define n where "n = length h - 1"
  define g where "g = heap_down (heap_Swap h 0 n) 0 n"
  have n: "length h = Suc n" using assms(2) by (simp add: n_def)
  have lg: "length g = Suc n" by (simp add: g_def n)
  have "heap_Pop h = heap_slice_Pop g"
    unfolding heap_Pop_def g_def n_def Let_def by (rule refl)
  then have x: "x = g ! n" and h': "h' = take n g"
    using assms(3) lg by (simp_all add: heap_slice_Pop_def Let_def)
  have last: "g ! n = h ! 0"
    using n by (simp add: g_def heap_down_frame nth_heap_Swap)
  with x show "x = h ! 0" by simp
  have "down_ok (heap_Swap h 0 n) 0 n"
    using assms(1) n by (auto simp: down_ok_def heap_ok_upto_def nth_heap_Swap)
  then have "heap_ok_upto g n"
    unfolding g_def using n by (intro heap_down_ok) auto
  then show "heap_ok h'"
    using lg by (auto simp: h' heap_ok_upto_def)
  have "mset g = mset h"
    using n by (simp add: g_def mset_heap_down)
  moreover have "g = h' @ [x]"
    using lg take_Suc_conv_app_nth [of n g] by (simp add: h' x)
  then have "mset g = add_mset x (mset h')" by simp
  ultimately show "mset h = add_mset x (mset h')" by simp
qed

lemma length_heap_Pop: "length (snd (heap_Pop h)) = length h - 1"
  by (simp add: heap_Pop_def heap_slice_Pop_def Let_def)

section \<open>The priority-queue interface\<close>

locale prio_queue =
  fixes push :: "'q \<Rightarrow> 'a \<Rightarrow> 'q"
    and pop :: "'q \<Rightarrow> 'a \<times> 'q"
    and peek :: "'q \<Rightarrow> 'a"
    and key :: "'a \<Rightarrow> 'k::linorder"
    and invar :: "'q \<Rightarrow> bool"
    and elems :: "'q \<Rightarrow> 'a multiset"
  assumes push_invar: "invar q \<Longrightarrow> invar (push q x)"
    and push_elems: "invar q \<Longrightarrow> elems (push q x) = add_mset x (elems q)"
    and pop_invar: "invar q \<Longrightarrow> elems q \<noteq> {#} \<Longrightarrow> invar (snd (pop q))"
    and pop_elems: "invar q \<Longrightarrow> elems q \<noteq> {#} \<Longrightarrow> elems q = add_mset (peek q) (elems (snd (pop q)))"
    and pop_peek: "invar q \<Longrightarrow> elems q \<noteq> {#} \<Longrightarrow> fst (pop q) = peek q"
    and peek_min: "invar q \<Longrightarrow> x \<in># elems q \<Longrightarrow> key (peek q) \<le> key x"
begin

lemma peek_in: "invar q \<Longrightarrow> elems q \<noteq> {#} \<Longrightarrow> peek q \<in># elems q"
  by (metis pop_elems union_single_eq_member add_mset_add_single union_commute)

lemma size_pop: "invar q \<Longrightarrow> elems q \<noteq> {#} \<Longrightarrow> size (elems (snd (pop q))) < size (elems q)"
  by (metis pop_elems size_add_mset lessI)

text \<open>If the keys are distinct, everything left after a pop lies strictly above the popped key.\<close>

lemma pop_strict:
  assumes "invar q" and "elems q \<noteq> {#}" and "\<And>x. count (image_mset key (elems q)) x \<le> 1"
    and "x \<in># elems (snd (pop q))"
  shows "key (peek q) < key x"
proof -
  have el: "elems q = add_mset (peek q) (elems (snd (pop q)))" using assms by (intro pop_elems)
  then have "key (peek q) \<le> key x" using assms by (intro peek_min) (metis union_iff add_mset_add_single)+
  moreover have "key (peek q) \<noteq> key x"
  proof
    assume eq: "key (peek q) = key x"
    obtain r where "elems (snd (pop q)) = add_mset x r" using assms(4) by (metis mset_add)
    with el have "image_mset key (elems q) = {#key x, key x#} + image_mset key r"
      by (simp add: eq)
    then have "2 \<le> count (image_mset key (elems q)) (key x)" by simp
    with assms(3) [of "key x"] show False by simp
  qed
  ultimately show ?thesis by simp
qed

end

interpretation gh: prio_queue heap_Push heap_Pop "\<lambda>h. h ! 0" pk_GSN heap_ok mset
proof (unfold_locales, goal_cases)
  case (1 q x) then show ?case by (rule heap_ok_Push)
next
  case (2 q x) then show ?case by (simp add: mset_heap_Push)
next
  case (3 q) then show ?case using heap_Pop_parts(2) [of q] by (metis mset_zero_iff surjective_pairing)
next
  case (4 q) then show ?case using heap_Pop_parts(1,3) [of q] by (metis mset_zero_iff surjective_pairing)
next
  case (5 q) then show ?case using heap_Pop_parts(1) [of q] by (metis mset_zero_iff surjective_pairing)
next
  case (6 q x) then show ?case by (auto simp: in_set_conv_nth intro: heap_root_min)
qed

end
