(* ===== verification/Reorder.thy ===== *)
theory Reorder
  imports Gsn_Heap
begin

text \<open>
  The reordering buffer, \<^verbatim>\<open>core/reorder/buffer.go\<close>. The state is the \<^verbatim>\<open>Buffer\<close> struct; the
  delivery channel is the list of packets waiting in it (capacity 1024, a send to a full channel
  drops); the deadline timer is \<open>None\<close> while \<^verbatim>\<open>b.timer\<close> is nil and otherwise says whether the
  callback of the current timer is still to run and for which head it was armed. Every public
  operation holds the mutex for its whole body, so operations are atomic steps, and their
  interleaving (pushes from several paths, the timer callback, a callback of a timer that was
  already stopped, the consumer) is a list of events.
\<close>

section \<open>State\<close>

definition DefaultDeadlineMin :: duration where "DefaultDeadlineMin = 20 * millisecond"
definition DefaultDeadlineMax :: duration where "DefaultDeadlineMax = 400 * millisecond"
definition DefaultBufMin :: int where "DefaultBufMin = 256 * 1024"
definition DefaultBufMax :: int where "DefaultBufMax = 16 * 1024 * 1024"
definition outCap :: nat where "outCap = 1024"

lemmas reorder_consts = DefaultDeadlineMin_def DefaultDeadlineMax_def DefaultBufMin_def
  DefaultBufMax_def

record rtimer =
  t_armed :: bool
  t_head :: u64
  t_dur :: duration

record buffer =
  b_h :: "packet list"
  b_inHeap :: "u64 set"
  b_nextExpected :: u64
  b_deadline :: duration
  b_maxBytes :: int
  b_curBytes :: int
  b_headGSN :: u64
  b_headSet :: bool
  b_timer :: "rtimer option"
  b_forcedReleases :: u64
  b_out :: "packet list"

section \<open>Operations\<close>

definition clamp_deadline :: "duration \<Rightarrow> duration" where
  "clamp_deadline d =
     (let d = (if d < DefaultDeadlineMin then DefaultDeadlineMin else d)
      in if d > DefaultDeadlineMax then DefaultDeadlineMax else d)"

definition NewFrom :: "u64 \<Rightarrow> duration \<Rightarrow> int \<Rightarrow> buffer" where
  "NewFrom startGSN deadline maxBytes =
     (let maxBytes = (if maxBytes < DefaultBufMin then DefaultBufMin else maxBytes);
          maxBytes = (if maxBytes > DefaultBufMax then DefaultBufMax else maxBytes)
      in \<lparr> b_h = [], b_inHeap = {}, b_nextExpected = startGSN,
           b_deadline = clamp_deadline deadline, b_maxBytes = maxBytes, b_curBytes = 0,
           b_headGSN = 0, b_headSet = False, b_timer = None, b_forcedReleases = 0, b_out = [] \<rparr>)"

definition reorder_New :: "duration \<Rightarrow> int \<Rightarrow> buffer" where
  "reorder_New deadline maxBytes = NewFrom 0 deadline maxBytes"

definition SetDeadline :: "duration \<Rightarrow> buffer \<Rightarrow> buffer" where
  "SetDeadline d b = b\<lparr>b_deadline := clamp_deadline d\<rparr>"

definition Occupancy :: "buffer \<Rightarrow> int" where "Occupancy b = b_curBytes b"
definition MaxBytes :: "buffer \<Rightarrow> int" where "MaxBytes b = b_maxBytes b"
definition ForcedReleases :: "buffer \<Rightarrow> u64" where "ForcedReleases b = b_forcedReleases b"

definition emitLocked :: "packet \<Rightarrow> buffer \<Rightarrow> buffer" where
  "emitLocked pkt b = (if length (b_out b) < outCap then b\<lparr>b_out := b_out b @ [pkt]\<rparr> else b)"

function drainLocked :: "buffer \<Rightarrow> buffer" where
  "drainLocked b =
     (if b_h b \<noteq> [] \<and> pk_GSN (b_h b ! 0) = b_nextExpected b
      then let r = heap_Pop (b_h b);
               pkt = fst r;
               b = b\<lparr>b_h := snd r, b_inHeap := b_inHeap b - {pk_GSN pkt},
                     b_curBytes := b_curBytes b - pk_size pkt,
                     b_nextExpected := b_nextExpected b + 1\<rparr>
           in drainLocked (emitLocked pkt b)
      else b)"
  by pat_completeness auto
termination
  by (relation "measure (\<lambda>b. length (b_h b))") (auto simp: emitLocked_def length_heap_Pop)

declare drainLocked.simps [simp del]

definition forceReleaseHeadLocked :: "buffer \<Rightarrow> buffer" where
  "forceReleaseHeadLocked b =
     (if b_h b = [] then b
      else let r = heap_Pop (b_h b);
               pkt = fst r;
               b = b\<lparr>b_h := snd r, b_inHeap := b_inHeap b - {pk_GSN pkt},
                     b_curBytes := b_curBytes b - pk_size pkt,
                     b_nextExpected := pk_GSN pkt + 1,
                     b_forcedReleases := b_forcedReleases b + 1\<rparr>
           in emitLocked pkt b)"

definition timer_Stop :: "rtimer option \<Rightarrow> rtimer option" where
  "timer_Stop t = map_option (\<lambda>t. t\<lparr>t_armed := False\<rparr>) t"

definition rearmTimerLocked :: "buffer \<Rightarrow> buffer" where
  "rearmTimerLocked b =
     (if b_h b = [] then b\<lparr>b_headSet := False, b_timer := timer_Stop (b_timer b)\<rparr>
      else let head = pk_GSN (b_h b ! 0)
           in if b_headSet b \<and> head = b_headGSN b \<and> b_timer b \<noteq> None then b
              else b\<lparr>b_headGSN := head, b_headSet := True,
                     b_timer := Some \<lparr>t_armed = True, t_head = head, t_dur = b_deadline b\<rparr>\<rparr>)"

definition Push :: "packet \<Rightarrow> buffer \<Rightarrow> buffer" where
  "Push pkt b =
     (if pk_Push pkt then emitLocked pkt b
      else if pk_GSN pkt < b_nextExpected b then b
      else if pk_GSN pkt \<in> b_inHeap b then b
      else let b = b\<lparr>b_h := heap_Push (b_h b) pkt, b_inHeap := insert (pk_GSN pkt) (b_inHeap b),
                     b_curBytes := b_curBytes b + pk_size pkt\<rparr>;
               b = drainLocked b;
               b = (if b_curBytes b > b_maxBytes b
                    then drainLocked (forceReleaseHeadLocked b) else b)
           in rearmTimerLocked b)"

definition onDeadline :: "u64 \<Rightarrow> buffer \<Rightarrow> buffer" where
  "onDeadline expectedHead b =
     (if b_h b = [] \<or> pk_GSN (b_h b ! 0) \<noteq> expectedHead then b
      else rearmTimerLocked (drainLocked (forceReleaseHeadLocked b)))"

section \<open>Interleavings\<close>

text \<open>\<open>EvFire\<close>: the callback of the current timer runs. \<open>EvLate g\<close>: the callback of a timer armed
  for \<open>g\<close> that was stopped after it had already started. \<open>EvRecv\<close>: the consumer takes one packet.\<close>

datatype rb_event = EvPush packet | EvFire | EvLate u64 | EvRecv | EvSetDeadline duration

type_synonym rb_sys = "buffer \<times> packet list"

fun rb_step :: "rb_sys \<Rightarrow> rb_event \<Rightarrow> rb_sys" where
  "rb_step (b, rcv) (EvPush p) = (Push p b, rcv)"
| "rb_step (b, rcv) EvFire =
     (case b_timer b of
        None \<Rightarrow> (b, rcv)
      | Some t \<Rightarrow> if t_armed t
                  then (onDeadline (t_head t) (b\<lparr>b_timer := Some (t\<lparr>t_armed := False\<rparr>)\<rparr>), rcv)
                  else (b, rcv))"
| "rb_step (b, rcv) (EvLate g) = (onDeadline g b, rcv)"
| "rb_step (b, rcv) EvRecv =
     (case b_out b of [] \<Rightarrow> (b, rcv) | p # ps \<Rightarrow> (b\<lparr>b_out := ps\<rparr>, rcv @ [p]))"
| "rb_step (b, rcv) (EvSetDeadline d) = (SetDeadline d b, rcv)"

definition rb_run :: "rb_sys \<Rightarrow> rb_event list \<Rightarrow> rb_sys" where
  "rb_run s es = foldl rb_step s es"

section \<open>Invariant\<close>

definition queue_inv :: "buffer \<Rightarrow> bool" where
  "queue_inv b \<longleftrightarrow>
     heap_ok (b_h b) \<and> distinct (map pk_GSN (b_h b)) \<and>
     b_inHeap b = pk_GSN ` set (b_h b) \<and>
     b_curBytes b = sum_list (map pk_size (b_h b)) \<and>
     (\<forall>p \<in> set (b_h b). b_nextExpected b \<le> pk_GSN p \<and> \<not> pk_Push p) \<and>
     length (b_out b) \<le> outCap \<and>
     DefaultDeadlineMin \<le> b_deadline b \<and> b_deadline b \<le> DefaultDeadlineMax \<and>
     DefaultBufMin \<le> b_maxBytes b \<and> b_maxBytes b \<le> DefaultBufMax"

text \<open>Between operations nothing deliverable is left in the heap.\<close>

definition settled :: "buffer \<Rightarrow> bool" where
  "settled b \<longleftrightarrow> b_nextExpected b \<notin> pk_GSN ` set (b_h b)"

text \<open>Between operations a non-empty heap has a running timer for its head.\<close>

definition timer_inv :: "buffer \<Rightarrow> bool" where
  "timer_inv b \<longleftrightarrow>
     (if b_h b = [] then \<not> b_headSet b \<and> (\<forall>t. b_timer b = Some t \<longrightarrow> \<not> t_armed t)
      else b_headSet b \<and> b_headGSN b = pk_GSN (b_h b ! 0) \<and>
           (\<exists>t. b_timer b = Some t \<and> t_armed t \<and> t_head t = b_headGSN b))"

definition buf_inv :: "buffer \<Rightarrow> bool" where
  "buf_inv b \<longleftrightarrow> queue_inv b \<and> settled b \<and> timer_inv b"

section \<open>One released packet\<close>

text \<open>Draining and forced release share this step: pop the head, move the cursor past it.\<close>

lemma pop_facts:
  assumes "queue_inv b" and "b_h b \<noteq> []"
  defines "x \<equiv> b_h b ! 0" and "h' \<equiv> snd (heap_Pop (b_h b))"
  shows "fst (heap_Pop (b_h b)) = x" and "heap_ok h'" and "mset (b_h b) = add_mset x (mset h')"
    and "x \<in> set (b_h b)" and "distinct (pk_GSN x # map pk_GSN h')"
    and "\<forall>p \<in> set h'. pk_GSN x < pk_GSN p" and "set (b_h b) = insert x (set h')"
proof -
  have ok: "heap_ok (b_h b)" and dist: "distinct (map pk_GSN (b_h b))"
    using assms(1) by (auto simp: queue_inv_def)
  have ne: "mset (b_h b) \<noteq> {#}" using assms(2) by simp
  show "fst (heap_Pop (b_h b)) = x" unfolding x_def using ok ne by (rule gh.pop_peek)
  show "heap_ok h'" unfolding h'_def using ok ne by (rule gh.pop_invar)
  show m: "mset (b_h b) = add_mset x (mset h')"
    unfolding x_def h'_def using ok ne by (rule gh.pop_elems)
  show "x \<in> set (b_h b)" using assms(2) by (simp add: x_def)
  have "mset (map pk_GSN (b_h b)) = mset (pk_GSN x # map pk_GSN h')" using m by simp
  with dist show d: "distinct (pk_GSN x # map pk_GSN h')"
    by (metis mset_eq_imp_distinct_iff)
  show s: "set (b_h b) = insert x (set h')"
    using m by (metis set_mset_add_mset_insert set_mset_mset)
  show "\<forall>p \<in> set h'. pk_GSN x < pk_GSN p"
  proof
    fix p assume p: "p \<in> set h'"
    then have "pk_GSN x \<le> pk_GSN p"
      unfolding x_def using ok s by (intro gh.peek_min) auto
    moreover have "pk_GSN x \<noteq> pk_GSN p" using d p by auto
    ultimately show "pk_GSN x < pk_GSN p" by simp
  qed
qed

lemma emitLocked_sel [simp]:
  "b_h (emitLocked p b) = b_h b" "b_inHeap (emitLocked p b) = b_inHeap b"
  "b_nextExpected (emitLocked p b) = b_nextExpected b" "b_curBytes (emitLocked p b) = b_curBytes b"
  "b_deadline (emitLocked p b) = b_deadline b" "b_maxBytes (emitLocked p b) = b_maxBytes b"
  "b_headGSN (emitLocked p b) = b_headGSN b" "b_headSet (emitLocked p b) = b_headSet b"
  "b_timer (emitLocked p b) = b_timer b" "b_forcedReleases (emitLocked p b) = b_forcedReleases b"
  by (simp_all add: emitLocked_def)

lemma emitLocked_out: "length (b_out b) \<le> outCap \<Longrightarrow> b_out (emitLocked p b) = take outCap (b_out b @ [p])"
  by (auto simp: emitLocked_def)

lemma emitLocked_cap: "length (b_out b) \<le> outCap \<Longrightarrow> length (b_out (emitLocked p b)) \<le> outCap"
  by (simp add: emitLocked_out)

text \<open>The state after one released packet, whatever the caller does to the release counter.\<close>

definition released :: "buffer \<Rightarrow> buffer" where
  "released b =
     (let r = heap_Pop (b_h b); pkt = fst r
      in emitLocked pkt (b\<lparr>b_h := snd r, b_inHeap := b_inHeap b - {pk_GSN pkt},
           b_curBytes := b_curBytes b - pk_size pkt, b_nextExpected := pk_GSN pkt + 1\<rparr>))"

lemma queue_inv_released:
  assumes "queue_inv b" and "b_h b \<noteq> []"
  shows "queue_inv (released b)"
proof -
  define x h' where "x = b_h b ! 0" and "h' = snd (heap_Pop (b_h b))"
  note pf = pop_facts [OF assms, folded x_def h'_def]
  have rel: "released b = emitLocked x (b\<lparr>b_h := h', b_inHeap := b_inHeap b - {pk_GSN x},
           b_curBytes := b_curBytes b - pk_size x, b_nextExpected := pk_GSN x + 1\<rparr>)"
    by (simp add: released_def Let_def pf(1) h'_def)
  have "mset (map pk_size (b_h b)) = mset (pk_size x # map pk_size h')" using pf(3) by simp
  then have "sum_list (map pk_size (b_h b)) = pk_size x + sum_list (map pk_size h')"
    by (metis sum_mset_sum_list sum_list.Cons)
  moreover have "pk_GSN ` set (b_h b) - {pk_GSN x} = pk_GSN ` set h'"
    using pf(5,7) by auto
  moreover have "pk_GSN x + 1 \<le> pk_GSN p" if "p \<in> set h'" for p
    using pf(6) that by (intro inc_le) auto
  ultimately show ?thesis
    using assms(1) pf(2,5,7) unfolding queue_inv_def rel
    by (simp add: emitLocked_cap)
qed

lemma released_out:
  assumes "queue_inv b" and "b_h b \<noteq> []"
  shows "b_out (released b) = take outCap (b_out b @ [b_h b ! 0])"
  using assms pop_facts(1) [OF assms]
  by (simp add: released_def Let_def emitLocked_out queue_inv_def)

lemma released_next:
  assumes "queue_inv b" and "b_h b \<noteq> []"
  shows "b_nextExpected (released b) = pk_GSN (b_h b ! 0) + 1"
  using pop_facts(1) [OF assms] by (simp add: released_def Let_def)

lemma released_sel [simp]:
  "b_h (released b) = snd (heap_Pop (b_h b))"
  "b_deadline (released b) = b_deadline b" "b_maxBytes (released b) = b_maxBytes b"
  "b_headGSN (released b) = b_headGSN b" "b_headSet (released b) = b_headSet b"
  "b_timer (released b) = b_timer b" "b_forcedReleases (released b) = b_forcedReleases b"
  by (simp_all add: released_def Let_def)

lemma drainLocked_rec:
  assumes "queue_inv b" and "b_h b \<noteq> []" and "pk_GSN (b_h b ! 0) = b_nextExpected b"
  shows "drainLocked b = drainLocked (released b)"
  using assms(2,3) pop_facts(1) [OF assms(1,2)]
  by (subst drainLocked.simps) (simp add: released_def Let_def)

lemma drainLocked_stop:
  "b_h b = [] \<or> pk_GSN (b_h b ! 0) \<noteq> b_nextExpected b \<Longrightarrow> drainLocked b = b"
  by (subst drainLocked.simps) auto

lemma forceReleaseHeadLocked_eq:
  assumes "queue_inv b" and "b_h b \<noteq> []"
  shows "forceReleaseHeadLocked b = (released b)\<lparr>b_forcedReleases := b_forcedReleases b + 1\<rparr>"
  using assms(2)
  by (simp add: forceReleaseHeadLocked_def released_def Let_def emitLocked_def)

lemma queue_inv_force: "queue_inv b \<Longrightarrow> queue_inv (forceReleaseHeadLocked b)"
proof (cases "b_h b = []")
  case True
  then show "queue_inv b \<Longrightarrow> ?thesis" by (simp add: forceReleaseHeadLocked_def)
next
  case False
  then show "queue_inv b \<Longrightarrow> ?thesis"
    using queue_inv_released [of b] by (simp add: forceReleaseHeadLocked_eq queue_inv_def)
qed

section \<open>Draining\<close>

text \<open>Draining releases the longest run of consecutive numbers from the cursor.\<close>

lemma drainLocked_spec:
  assumes "queue_inv b"
  shows "queue_inv (drainLocked b) \<and> settled (drainLocked b) \<and>
    (\<exists>ps. b_out (drainLocked b) = take outCap (b_out b @ ps) \<and>
       mset (b_h b) = mset ps + mset (b_h (drainLocked b)) \<and>
       map pk_GSN ps = map (\<lambda>i. b_nextExpected b + of_nat i) [0..<length ps] \<and>
       b_nextExpected (drainLocked b) = b_nextExpected b + of_nat (length ps))"
  using assms
proof (induction "length (b_h b)" arbitrary: b rule: less_induct)
  case less
  have out: "length (b_out b) \<le> outCap" using less.prems by (simp add: queue_inv_def)
  show ?case
  proof (cases "b_h b \<noteq> [] \<and> pk_GSN (b_h b ! 0) = b_nextExpected b")
    case False
    have "settled b"
    proof (cases "b_h b = []")
      case False
      with \<open>\<not> (b_h b \<noteq> [] \<and> _)\<close> less.prems have "b_nextExpected b < pk_GSN (b_h b ! 0)"
        by (auto simp: queue_inv_def order.not_eq_order_implies_strict)
      moreover have "pk_GSN (b_h b ! 0) \<le> pk_GSN p" if "p \<in> set (b_h b)" for p
        using less.prems that by (intro gh.peek_min) (auto simp: queue_inv_def)
      ultimately show ?thesis by (fastforce simp: settled_def)
    qed (simp add: settled_def)
    with False less.prems out show ?thesis
      by (auto simp: drainLocked_stop intro!: exI [of _ "[]"])
  next
    case True
    define x where "x = b_h b ! 0"
    have gx: "pk_GSN x = b_nextExpected b" using True by (simp add: x_def)
    have q: "queue_inv (released b)" using less.prems True by (intro queue_inv_released) auto
    have nx: "b_nextExpected (released b) = b_nextExpected b + 1"
      using released_next [OF less.prems] True by simp
    have "length (b_h (released b)) < length (b_h b)" using True by (simp add: length_heap_Pop)
    from less.hyps [OF this q] obtain ps where IH:
      "queue_inv (drainLocked (released b))" "settled (drainLocked (released b))"
      "b_out (drainLocked (released b)) = take outCap (b_out (released b) @ ps)"
      "mset (b_h (released b)) = mset ps + mset (b_h (drainLocked (released b)))"
      "map pk_GSN ps = map (\<lambda>i. b_nextExpected b + 1 + of_nat i) [0..<length ps]"
      "b_nextExpected (drainLocked (released b)) = b_nextExpected b + 1 + of_nat (length ps)"
      unfolding nx by blast
    have eq: "drainLocked b = drainLocked (released b)"
      using less.prems True by (intro drainLocked_rec) auto
    have "b_out (drainLocked b) = take outCap (b_out b @ (x # ps))"
      using IH(3) released_out [OF less.prems True [THEN conjunct1]]
      by (simp only: eq x_def take_take_append append_assoc append_Cons append_Nil)
    moreover have "mset (b_h b) = mset (x # ps) + mset (b_h (drainLocked b))"
      using IH(4) pop_facts(3) [OF less.prems] True by (simp add: eq x_def)
    moreover have "map pk_GSN (x # ps) = map (\<lambda>i. b_nextExpected b + of_nat i) [0..<length (x # ps)]"
      using IH(5) gx by (simp add: upt_conv_Cons map_Suc_upt [symmetric] add.assoc o_def del: upt_Suc)
    ultimately show ?thesis
      using IH(1,2,6) eq by (intro conjI exI [of _ "x # ps"]) (simp_all add: add.assoc)
  qed
qed

lemma drainLocked_preserve:
  assumes "queue_inv b" and "P b"
    and "\<And>b. queue_inv b \<Longrightarrow> b_h b \<noteq> [] \<Longrightarrow> P b \<Longrightarrow> P (released b)"
  shows "P (drainLocked b)"
  using assms(1,2)
proof (induction "length (b_h b)" arbitrary: b rule: less_induct)
  case less
  show ?case
  proof (cases "b_h b \<noteq> [] \<and> pk_GSN (b_h b ! 0) = b_nextExpected b")
    case True
    then have "P (drainLocked (released b))"
      using less assms(3) by (auto simp: length_heap_Pop queue_inv_released)
    with True less.prems show ?thesis by (simp add: drainLocked_rec)
  qed (use less.prems in \<open>auto simp: drainLocked_stop\<close>)
qed

lemma drainLocked_sel [simp]:
  "b_deadline (drainLocked b) = b_deadline b" "b_maxBytes (drainLocked b) = b_maxBytes b"
  "b_headGSN (drainLocked b) = b_headGSN b" "b_headSet (drainLocked b) = b_headSet b"
  "b_timer (drainLocked b) = b_timer b" "b_forcedReleases (drainLocked b) = b_forcedReleases b"
  by (induction b rule: drainLocked.induct; subst drainLocked.simps; simp add: Let_def)+

lemma drainLocked_subset: "queue_inv b \<Longrightarrow> set (b_h (drainLocked b)) \<subseteq> set (b_h b)"
  using drainLocked_spec [of b] by (metis mset_subset_eq_add_right set_mset_mset set_mset_mono)

lemmas queue_inv_drain = drainLocked_spec [THEN conjunct1]
lemmas settled_drain = drainLocked_spec [THEN conjunct2, THEN conjunct1]

section \<open>The invariant is kept\<close>

lemma queue_inv_enqueue:
  assumes "queue_inv b" and "\<not> pk_Push p" and "b_nextExpected b \<le> pk_GSN p" and "pk_GSN p \<notin> b_inHeap b"
  shows "queue_inv (b\<lparr>b_h := heap_Push (b_h b) p, b_inHeap := insert (pk_GSN p) (b_inHeap b),
                      b_curBytes := b_curBytes b + pk_size p\<rparr>)"
proof -
  have m: "mset (heap_Push (b_h b) p) = mset (p # b_h b)" by (simp add: mset_heap_Push)
  then have "set (heap_Push (b_h b) p) = insert p (set (b_h b))"
    by (metis list.set(2) set_mset_mset)
  moreover have "distinct (map pk_GSN (heap_Push (b_h b) p)) = distinct (map pk_GSN (p # b_h b))"
    using m by (intro mset_eq_imp_distinct_iff) (metis mset_map)
  moreover have "sum_list (map pk_size (heap_Push (b_h b) p)) = sum_list (map pk_size (p # b_h b))"
    using m by (metis mset_map sum_mset_sum_list)
  moreover have "heap_ok (heap_Push (b_h b) p)"
    using assms(1) by (intro heap_ok_Push) (simp add: queue_inv_def)
  ultimately show ?thesis
    using assms by (auto simp: queue_inv_def)
qed

lemma rearm_buf_inv:
  assumes "queue_inv b" and "settled b"
    and "b_headSet b \<Longrightarrow> b_h b \<noteq> [] \<Longrightarrow> pk_GSN (b_h b ! 0) = b_headGSN b \<Longrightarrow>
         \<exists>t. b_timer b = Some t \<and> t_armed t \<and> t_head t = b_headGSN b"
  shows "buf_inv (rearmTimerLocked b)"
proof (cases "b_h b = []")
  case True
  with assms(1,2) show ?thesis
    by (auto simp: buf_inv_def queue_inv_def settled_def timer_inv_def rearmTimerLocked_def timer_Stop_def)
next
  case False
  with assms show ?thesis
    by (auto simp: buf_inv_def queue_inv_def settled_def timer_inv_def rearmTimerLocked_def Let_def)
qed

lemma force_sel [simp]:
  "b_headGSN (forceReleaseHeadLocked b) = b_headGSN b" "b_headSet (forceReleaseHeadLocked b) = b_headSet b"
  "b_timer (forceReleaseHeadLocked b) = b_timer b" "b_deadline (forceReleaseHeadLocked b) = b_deadline b"
  "b_maxBytes (forceReleaseHeadLocked b) = b_maxBytes b"
  by (simp_all add: forceReleaseHeadLocked_def Let_def)

lemma buf_inv_Push: "buf_inv b \<Longrightarrow> buf_inv (Push p b)"
proof -
  assume inv: "buf_inv b"
  then have q: "queue_inv b" and t: "b_headSet b \<Longrightarrow>
      \<exists>t. b_timer b = Some t \<and> t_armed t \<and> t_head t = b_headGSN b"
    by (auto simp: buf_inv_def timer_inv_def split: if_splits)
  consider "pk_Push p" | "\<not> pk_Push p" "pk_GSN p < b_nextExpected b \<or> pk_GSN p \<in> b_inHeap b"
    | "\<not> pk_Push p" "b_nextExpected b \<le> pk_GSN p" "pk_GSN p \<notin> b_inHeap b" by fastforce
  then show ?thesis
  proof cases
    case 1
    with inv show ?thesis
      by (auto simp: Push_def buf_inv_def queue_inv_def settled_def timer_inv_def emitLocked_cap
          split: if_splits)
  next
    case 2
    with inv show ?thesis by (auto simp: Push_def)
  next
    case 3
    define c where "c = b\<lparr>b_h := heap_Push (b_h b) p, b_inHeap := insert (pk_GSN p) (b_inHeap b),
                      b_curBytes := b_curBytes b + pk_size p\<rparr>"
    define d where "d = (if b_curBytes (drainLocked c) > b_maxBytes (drainLocked c)
                    then drainLocked (forceReleaseHeadLocked (drainLocked c)) else drainLocked c)"
    have qc: "queue_inv c" unfolding c_def using q 3 by (rule queue_inv_enqueue)
    have "queue_inv d" "settled d"
      unfolding d_def using qc by (auto intro!: queue_inv_drain settled_drain queue_inv_force)
    moreover have "b_headSet d = b_headSet b" "b_timer d = b_timer b" "b_headGSN d = b_headGSN b"
      by (simp_all add: d_def c_def)
    ultimately have "buf_inv (rearmTimerLocked d)"
      using t by (intro rearm_buf_inv) auto
    moreover have "Push p b = rearmTimerLocked d"
      using 3 by (simp add: Push_def d_def c_def Let_def)
    ultimately show ?thesis by simp
  qed
qed

lemma buf_inv_deadline:
  assumes "queue_inv b" and "settled b" and "b_h b \<noteq> []" and "b_headGSN b = pk_GSN (b_h b ! 0)"
  shows "buf_inv (rearmTimerLocked (drainLocked (forceReleaseHeadLocked b)))"
proof -
  let ?f = "forceReleaseHeadLocked b"
  have qf: "queue_inv ?f" using assms(1) by (rule queue_inv_force)
  have "b_h ?f = snd (heap_Pop (b_h b))" using assms by (simp add: forceReleaseHeadLocked_eq)
  then have above: "b_headGSN b < pk_GSN p" if "p \<in> set (b_h ?f)" for p
    using pop_facts(6) [OF assms(1,3)] that assms(4) by simp
  have "pk_GSN (b_h (drainLocked ?f) ! 0) \<noteq> b_headGSN b" if "b_h (drainLocked ?f) \<noteq> []"
  proof -
    have "b_h (drainLocked ?f) ! 0 \<in> set (b_h ?f)"
      using that drainLocked_subset [OF qf] by (metis length_greater_0_conv nth_mem subsetD)
    from above [OF this] show ?thesis by simp
  qed
  then show ?thesis
    using qf by (intro rearm_buf_inv queue_inv_drain settled_drain) auto
qed

lemma buf_inv_step: "buf_inv (fst s) \<Longrightarrow> buf_inv (fst (rb_step s e))"
proof (induction s e rule: rb_step.induct)
  case (1 b rcv p)
  then show ?case by (simp add: buf_inv_Push)
next
  case (2 b rcv)
  show ?case
  proof (cases "\<exists>t. b_timer b = Some t \<and> t_armed t")
    case True
    then obtain t where t: "b_timer b = Some t" "t_armed t" by blast
    with 2 have ne: "b_h b \<noteq> []" and hd: "t_head t = pk_GSN (b_h b ! 0)"
      by (auto simp: buf_inv_def timer_inv_def split: if_splits)
    define c where "c = b\<lparr>b_timer := Some (t\<lparr>t_armed := False\<rparr>)\<rparr>"
    have "buf_inv (rearmTimerLocked (drainLocked (forceReleaseHeadLocked c)))"
      using 2 ne by (intro buf_inv_deadline)
        (auto simp: c_def buf_inv_def queue_inv_def settled_def timer_inv_def)
    moreover have "fst (rb_step (b, rcv) EvFire) = rearmTimerLocked (drainLocked (forceReleaseHeadLocked c))"
      using t ne hd by (simp add: c_def onDeadline_def)
    ultimately show ?thesis by simp
  qed (use 2 in \<open>auto split: option.splits\<close>)
next
  case (3 b rcv g)
  then show ?case
    using buf_inv_deadline [of b]
    by (auto simp: onDeadline_def buf_inv_def timer_inv_def split: if_splits)
next
  case (4 b rcv)
  then show ?case
    by (auto simp: buf_inv_def queue_inv_def settled_def timer_inv_def split: list.splits)
next
  case (5 b rcv d)
  then show ?case
    by (auto simp: SetDeadline_def clamp_deadline_def Let_def reorder_consts buf_inv_def queue_inv_def
        settled_def timer_inv_def)
qed

lemma buf_inv_New: "buf_inv (NewFrom g d m)"
  by (auto simp: NewFrom_def Let_def buf_inv_def queue_inv_def settled_def timer_inv_def heap_ok_upto_def
      clamp_deadline_def reorder_consts)

interpretation rb: step_system rb_step "\<lambda>s. buf_inv (fst s)" "\<lambda>_. True"
  by unfold_locales (rule buf_inv_step)

section \<open>Delivery order\<close>

text \<open>What the consumer has received or will find in the channel, without the packets that asked
  to bypass ordering.\<close>

definition ordered_part :: "rb_sys \<Rightarrow> packet list" where
  "ordered_part s = filter (\<lambda>p. \<not> pk_Push p) (snd s @ b_out (fst s))"

definition no_wrap :: "rb_event \<Rightarrow> bool" where
  "no_wrap e = (case e of EvPush p \<Rightarrow> pk_GSN p \<noteq> - 1 | _ \<Rightarrow> True)"

text \<open>Delivered numbers increase strictly and lie below the cursor.\<close>

definition ord_inv :: "packet list \<Rightarrow> buffer \<Rightarrow> bool" where
  "ord_inv rcv b \<longleftrightarrow>
     sorted_wrt (<) (map pk_GSN (ordered_part (b, rcv))) \<and>
     (\<forall>p \<in> set (ordered_part (b, rcv)). pk_GSN p < b_nextExpected b) \<and>
     (\<forall>p \<in> set (b_h b). pk_GSN p \<noteq> - 1)"

lemma ord_inv_emit:
  assumes "ord_inv rcv b" and "\<not> pk_Push x" and "b_nextExpected b \<le> pk_GSN x" and "pk_GSN x \<noteq> - 1"
    and "b_out c = b_out b \<or> b_out c = b_out b @ [x]" and "b_nextExpected c = pk_GSN x + 1"
    and "set (b_h c) \<subseteq> set (b_h b)"
  shows "ord_inv rcv c"
proof -
  have lt: "pk_GSN x < pk_GSN x + 1" using assms(4) by (rule word_lt_succ)
  have old: "pk_GSN p < pk_GSN x" if "p \<in> set (ordered_part (b, rcv))" for p
    using assms(1,3) that by (auto simp: ord_inv_def)
  then have old': "pk_GSN p < pk_GSN x + 1" if "p \<in> set (ordered_part (b, rcv))" for p
    using that lt by (meson order.strict_trans)
  have "ordered_part (c, rcv) = ordered_part (b, rcv) \<or>
        ordered_part (c, rcv) = ordered_part (b, rcv) @ [x]"
    using assms(2,5) by (auto simp: ordered_part_def)
  then show ?thesis
    using assms(1,6,7) old old' lt
    by (auto simp: ord_inv_def sorted_wrt_append)
qed

lemma ord_inv_released:
  assumes "queue_inv b" and "b_h b \<noteq> []" and "ord_inv rcv b"
  shows "ord_inv rcv (released b)"
proof -
  note pf = pop_facts [OF assms(1,2)]
  show ?thesis
  proof (rule ord_inv_emit [OF assms(3)])
    show "\<not> pk_Push (b_h b ! 0)" "b_nextExpected b \<le> pk_GSN (b_h b ! 0)"
      using assms(1) pf(4) by (auto simp: queue_inv_def)
    show "pk_GSN (b_h b ! 0) \<noteq> - 1" using assms(3) pf(4) by (auto simp: ord_inv_def)
    show "b_out (released b) = b_out b \<or> b_out (released b) = b_out b @ [b_h b ! 0]"
      using pf(1) by (auto simp: released_def Let_def emitLocked_def)
    show "b_nextExpected (released b) = pk_GSN (b_h b ! 0) + 1"
      using assms(1,2) by (rule released_next)
    show "set (b_h (released b)) \<subseteq> set (b_h b)" using pf(7) by auto
  qed
qed

lemma ord_inv_drain: "queue_inv b \<Longrightarrow> ord_inv rcv b \<Longrightarrow> ord_inv rcv (drainLocked b)"
  by (rule drainLocked_preserve) (auto intro: ord_inv_released)

lemma ord_inv_update [simp]:
  "ord_inv rcv (b\<lparr>b_forcedReleases := n\<rparr>) = ord_inv rcv b"
  "ord_inv rcv (b\<lparr>b_timer := t\<rparr>) = ord_inv rcv b"
  "ord_inv rcv (b\<lparr>b_deadline := d\<rparr>) = ord_inv rcv b"
  "ord_inv rcv (rearmTimerLocked b) = ord_inv rcv b"
  by (simp_all add: ord_inv_def ordered_part_def rearmTimerLocked_def Let_def)

lemma ord_inv_force: "queue_inv b \<Longrightarrow> ord_inv rcv b \<Longrightarrow> ord_inv rcv (forceReleaseHeadLocked b)"
proof (cases "b_h b = []")
  case True
  then show "ord_inv rcv b \<Longrightarrow> ?thesis" by (simp add: forceReleaseHeadLocked_def)
next
  case False
  then show "queue_inv b \<Longrightarrow> ord_inv rcv b \<Longrightarrow> ?thesis"
    using ord_inv_released [of b rcv] by (simp add: forceReleaseHeadLocked_eq)
qed

lemmas ord_inv_release = ord_inv_drain [OF queue_inv_force ord_inv_force]

lemma ord_inv_Push:
  assumes "queue_inv b" and "ord_inv rcv b" and "pk_GSN p \<noteq> - 1"
  shows "ord_inv rcv (Push p b)"
proof -
  consider "pk_Push p" | "\<not> pk_Push p" "pk_GSN p < b_nextExpected b \<or> pk_GSN p \<in> b_inHeap b"
    | "\<not> pk_Push p" "b_nextExpected b \<le> pk_GSN p" "pk_GSN p \<notin> b_inHeap b" by fastforce
  then show ?thesis
  proof cases
    case 1
    then have "ordered_part (emitLocked p b, rcv) = ordered_part (b, rcv)"
      by (simp add: ordered_part_def emitLocked_def)
    with 1 assms(2) show ?thesis by (simp add: Push_def ord_inv_def)
  next
    case 2
    with assms(2) show ?thesis by (auto simp: Push_def)
  next
    case 3
    define c where "c = b\<lparr>b_h := heap_Push (b_h b) p, b_inHeap := insert (pk_GSN p) (b_inHeap b),
                      b_curBytes := b_curBytes b + pk_size p\<rparr>"
    have q: "queue_inv c" unfolding c_def using assms(1) 3 by (rule queue_inv_enqueue)
    have "set (heap_Push (b_h b) p) = insert p (set (b_h b))"
      using mset_heap_Push [of "b_h b" p] by (metis set_mset_add_mset_insert set_mset_mset)
    then have "ord_inv rcv c"
      using assms(2,3) by (auto simp: c_def ord_inv_def ordered_part_def)
    with q 3 show ?thesis
      by (auto simp: Push_def Let_def c_def [symmetric]
          intro!: ord_inv_drain ord_inv_release queue_inv_drain queue_inv_force ord_inv_force)
  qed
qed

lemma ord_inv_onDeadline: "queue_inv b \<Longrightarrow> ord_inv rcv b \<Longrightarrow> ord_inv rcv (onDeadline g b)"
  by (simp add: onDeadline_def ord_inv_drain queue_inv_force ord_inv_force)

lemma ord_inv_step:
  "buf_inv (fst s) \<Longrightarrow> ord_inv (snd s) (fst s) \<Longrightarrow> no_wrap e \<Longrightarrow>
   ord_inv (snd (rb_step s e)) (fst (rb_step s e))"
proof (induction s e rule: rb_step.induct)
  case (2 b rcv)
  have "queue_inv (b\<lparr>b_timer := t\<rparr>)" for t using 2 by (simp add: buf_inv_def queue_inv_def)
  with 2 show ?case by (auto split: option.splits intro!: ord_inv_onDeadline)
next
  case (4 b rcv)
  then show ?case by (auto simp: ord_inv_def ordered_part_def split: list.splits if_splits)
qed (auto simp: no_wrap_def buf_inv_def SetDeadline_def intro: ord_inv_Push ord_inv_onDeadline)

interpretation rbo: step_system rb_step "\<lambda>s. buf_inv (fst s) \<and> ord_inv (snd s) (fst s)" no_wrap
  by unfold_locales (auto intro: buf_inv_step ord_inv_step)

lemma ord_inv_New: "ord_inv [] (NewFrom g d m)"
  by (simp add: NewFrom_def Let_def ord_inv_def ordered_part_def)

section \<open>Restoring the sender's order\<close>

definition push_all :: "buffer \<Rightarrow> packet list \<Rightarrow> buffer" where
  "push_all b xs = foldl (\<lambda>b p. Push p b) b xs"

text \<open>The first copy of a sequence number among the arrivals.\<close>

definition first_copy :: "packet list \<Rightarrow> u64 \<Rightarrow> packet option" where
  "first_copy xs g = find (\<lambda>p. pk_GSN p = g) xs"

lemma first_copy_snoc:
  "first_copy (xs @ [p]) g =
     (case first_copy xs g of Some q \<Rightarrow> Some q | None \<Rightarrow> if pk_GSN p = g then Some p else None)"
  by (induction xs) (auto simp: first_copy_def)

lemma first_copy_snoc_old: "g \<in> pk_GSN ` set xs \<Longrightarrow> first_copy (xs @ [p]) g = first_copy xs g"
  by (induction xs) (auto simp: first_copy_def)

lemma first_copy_Some: "first_copy xs g = Some p \<Longrightarrow> p \<in> set xs \<and> pk_GSN p = g"
  by (auto simp: first_copy_def find_Some_iff)

lemma first_copy_None: "first_copy xs g = None \<longleftrightarrow> g \<notin> pk_GSN ` set xs"
  by (auto simp: first_copy_def find_None_iff)

text \<open>What has been pushed so far, with all numbers below \<open>n\<close> and room for everything: the first
  \<open>m\<close> numbers are out, the first copies of the later ones are in the heap.\<close>

definition sort_inv :: "nat \<Rightarrow> packet list \<Rightarrow> buffer \<Rightarrow> nat \<Rightarrow> bool" where
  "sort_inv n xs b m \<longleftrightarrow>
     buf_inv b \<and> m \<le> n \<and> b_nextExpected b = of_nat m \<and> b_forcedReleases b = 0 \<and>
     b_out b = map (\<lambda>i. the (first_copy xs (of_nat i))) [0..<m] \<and>
     (\<forall>i < m. of_nat i \<in> pk_GSN ` set xs) \<and>
     set (b_h b) = {p. first_copy xs (pk_GSN p) = Some p \<and> of_nat m \<le> pk_GSN p} \<and>
     b_curBytes b \<le> sum_list (map pk_size xs)"

lemma of_nat_u64_le: "m < 2 ^ 64 \<Longrightarrow> of_nat m \<le> (g :: u64) \<longleftrightarrow> m \<le> unat g"
  by (simp add: word_le_nat_alt unat_of_nat take_bit_nat_eq_self)

lemma pk_size_nonneg: "0 \<le> pk_size p"
  by (simp add: pk_size_def)

text \<open>The drain step of the sorting run, on sets of numbers.\<close>

lemma drained_numbers:
  fixes n m k :: nat
  assumes "n \<le> 1024" and "m \<le> n" and "\<And>i. i < k \<Longrightarrow> unat (of_nat (m + i) :: u64) < n"
  shows "m + k \<le> n"
proof (rule ccontr)
  assume "\<not> m + k \<le> n"
  with assms(2,3) have "unat (of_nat (m + (n - m)) :: u64) < n" by (intro assms(3)) linarith
  then have "unat (of_nat n :: u64) < n" using assms(2) by simp
  then show False using assms(1) by (simp add: unat_of_nat take_bit_nat_eq_self)
qed

definition enqueued :: "packet \<Rightarrow> buffer \<Rightarrow> buffer" where
  "enqueued p b = b\<lparr>b_h := heap_Push (b_h b) p, b_inHeap := insert (pk_GSN p) (b_inHeap b),
                      b_curBytes := b_curBytes b + pk_size p\<rparr>"

lemma enqueued_sel [simp]:
  "b_out (enqueued p b) = b_out b" "b_nextExpected (enqueued p b) = b_nextExpected b"
  "b_maxBytes (enqueued p b) = b_maxBytes b" "b_forcedReleases (enqueued p b) = b_forcedReleases b"
  "b_curBytes (enqueued p b) = b_curBytes b + pk_size p"
  "set (b_h (enqueued p b)) = insert p (set (b_h b))"
  using mset_heap_Push [of "b_h b" p]
  by (simp_all add: enqueued_def) (metis set_mset_add_mset_insert set_mset_mset)

lemma Push_enqueued:
  assumes "\<not> pk_Push p" and "b_nextExpected b \<le> pk_GSN p" and "pk_GSN p \<notin> b_inHeap b"
    and "b_curBytes (drainLocked (enqueued p b)) \<le> b_maxBytes b"
  shows "Push p b = rearmTimerLocked (drainLocked (enqueued p b))"
  using assms by (simp add: Push_def Let_def enqueued_def [symmetric])

lemma drained_curBytes: "queue_inv c \<Longrightarrow> b_curBytes (drainLocked c) \<le> b_curBytes c"
proof -
  assume q: "queue_inv c"
  obtain ps where "mset (b_h c) = mset ps + mset (b_h (drainLocked c))"
    using drainLocked_spec [OF q] by blast
  then have "sum_list (map pk_size (b_h c)) =
      sum_list (map pk_size ps) + sum_list (map pk_size (b_h (drainLocked c)))"
    by (metis mset_map image_mset_union sum_mset_sum_list sum_mset.union)
  moreover have "0 \<le> sum_list (map pk_size ps)"
    by (intro sum_list_nonneg) (auto simp: pk_size_nonneg)
  ultimately show ?thesis
    using q queue_inv_drain [OF q] by (simp add: queue_inv_def)
qed

lemma sort_enqueued:
  assumes inv: "sort_inv n xs b m"
    and new: "b_nextExpected b \<le> pk_GSN p" "pk_GSN p \<notin> b_inHeap b"
  shows "first_copy xs (pk_GSN p) = None"
    and "set (b_h (enqueued p b)) =
         {r. first_copy (xs @ [p]) (pk_GSN r) = Some r \<and> of_nat m \<le> pk_GSN r}"
proof -
  have nx: "b_nextExpected b = of_nat m" and inh: "b_inHeap b = pk_GSN ` set (b_h b)"
    and heap: "set (b_h b) = {p. first_copy xs (pk_GSN p) = Some p \<and> of_nat m \<le> pk_GSN p}"
    using inv by (auto simp: sort_inv_def buf_inv_def queue_inv_def)
  show none: "first_copy xs (pk_GSN p) = None"
  proof (rule ccontr)
    assume "first_copy xs (pk_GSN p) \<noteq> None"
    then obtain r where r: "first_copy xs (pk_GSN p) = Some r" by blast
    with first_copy_Some [OF r] new(1) nx have "r \<in> set (b_h b)" and "pk_GSN r = pk_GSN p"
      by (simp_all add: heap)
    then have "pk_GSN p \<in> b_inHeap b" by (metis inh image_eqI)
    with new(2) show False by simp
  qed
  show "set (b_h (enqueued p b)) =
         {r. first_copy (xs @ [p]) (pk_GSN r) = Some r \<and> of_nat m \<le> pk_GSN r}"
    using none new(1) nx heap by (auto simp: first_copy_snoc split: option.splits if_splits)
qed

lemma sort_drained_heap:
  assumes "queue_inv c" and "n \<le> 1024" and "m + length ps \<le> n"
    and ps: "mset (b_h c) = mset ps + mset (b_h (drainLocked c))"
      "\<And>i. i < length ps \<Longrightarrow> pk_GSN (ps ! i) = of_nat (m + i)"
      "b_nextExpected (drainLocked c) = of_nat (m + length ps)"
  shows "set (b_h (drainLocked c)) = {r \<in> set (b_h c). of_nat (m + length ps) \<le> pk_GSN r}"
proof -
  have un: "set (b_h c) = set ps \<union> set (b_h (drainLocked c))"
    using ps(1) by (metis set_mset_mset set_mset_union)
  have "of_nat (m + length ps) \<le> pk_GSN r" if "r \<in> set (b_h (drainLocked c))" for r
    using queue_inv_drain [OF assms(1)] that ps(3) by (auto simp: queue_inv_def)
  moreover have "\<not> of_nat (m + length ps) \<le> pk_GSN r" if r: "r \<in> set ps" for r
  proof -
    obtain i where "i < length ps" "r = ps ! i" using r by (auto simp: in_set_conv_nth)
    then have "pk_GSN r = of_nat (m + i)" "i < length ps" by (simp_all add: ps(2))
    then have "unat (pk_GSN r) < m + length ps" using assms(2,3)
      by (simp add: unat_of_nat take_bit_nat_eq_self del: of_nat_add)
    then show ?thesis using assms(2,3) by (subst of_nat_u64_le) auto
  qed
  ultimately show ?thesis using un by blast
qed

lemma sort_drain:
  assumes q: "queue_inv c" and n: "n \<le> 1024" and mn: "m \<le> n" and nx: "b_nextExpected c = of_nat m"
    and ys: "\<forall>r \<in> set ys. unat (pk_GSN r) < n" and len: "length (b_out c) = m"
    and hc: "set (b_h c) = {r. first_copy ys (pk_GSN r) = Some r \<and> of_nat m \<le> pk_GSN r}"
  obtains k where "m + k \<le> n" and "b_nextExpected (drainLocked c) = of_nat (m + k)"
    and "b_out (drainLocked c) = b_out c @ map (\<lambda>i. the (first_copy ys (of_nat i))) [m..<m + k]"
    and "\<forall>i. m \<le> i \<and> i < m + k \<longrightarrow> of_nat i \<in> pk_GSN ` set ys"
    and "set (b_h (drainLocked c)) =
         {r. first_copy ys (pk_GSN r) = Some r \<and> of_nat (m + k) \<le> pk_GSN r}"
proof -
  let ?d = "drainLocked c"
  obtain ps where ps: "b_out ?d = take outCap (b_out c @ ps)" "mset (b_h c) = mset ps + mset (b_h ?d)"
      "map pk_GSN ps = map (\<lambda>i. of_nat m + of_nat i) [0..<length ps]"
      "b_nextExpected ?d = of_nat (m + length ps)"
    using drainLocked_spec [OF q] by (auto simp: nx)
  have psn: "pk_GSN (ps ! i) = of_nat (m + i)" if "i < length ps" for i
    using arg_cong [OF ps(3), of "\<lambda>l. l ! i"] that by simp
  have "set ps \<subseteq> set (b_h c)" using ps(2) by (metis set_mset_mset set_mset_union Un_upper1)
  then have fc: "first_copy ys (of_nat (m + i)) = Some (ps ! i)" if "i < length ps" for i
  proof -
    have "ps ! i \<in> {r. first_copy ys (pk_GSN r) = Some r \<and> of_nat m \<le> pk_GSN r}"
      using that \<open>set ps \<subseteq> set (b_h c)\<close> hc nth_mem by blast
    then show ?thesis using psn [OF that] by simp
  qed
  have mem: "of_nat (m + i) \<in> pk_GSN ` set ys" if "i < length ps" for i
    using first_copy_Some [OF fc [OF that]] by (metis image_eqI)
  have mk: "m + length ps \<le> n"
    using n mn
  proof (rule drained_numbers)
    fix i assume "i < length ps"
    from mem [OF this] ys show "unat (of_nat (m + i) :: u64) < n" by auto
  qed
  have "b_out ?d = b_out c @ ps" using ps(1) len mk n by (simp add: outCap_def)
  moreover have "ps = map (\<lambda>i. the (first_copy ys (of_nat i))) [m..<m + length ps]"
    using fc by (intro nth_equalityI) (simp_all del: of_nat_add)
  moreover have "of_nat i \<in> pk_GSN ` set ys" if "m \<le> i" "i < m + length ps" for i
    using mem [of "i - m"] that by (simp del: of_nat_add)
  moreover have "set (b_h ?d) = {r \<in> set (b_h c). of_nat (m + length ps) \<le> pk_GSN r}"
    using q n mk ps(2) psn ps(4) by (rule sort_drained_heap)
  moreover have "of_nat m \<le> g" if "of_nat (m + length ps) \<le> (g :: u64)" for g
    using that mk n of_nat_u64_le [of "m + length ps" g] of_nat_u64_le [of m g] by simp
  ultimately show ?thesis
    using mk ps(4) hc by (intro that [of "length ps"]) auto
qed

lemma sort_inv_new:
  assumes inv: "sort_inv n xs b m" and n: "n \<le> 1024"
    and xs: "\<forall>q \<in> set (xs @ [p]). unat (pk_GSN q) < n" "\<not> pk_Push p"
    and room: "sum_list (map pk_size (xs @ [p])) \<le> b_maxBytes b"
    and new: "b_nextExpected b \<le> pk_GSN p" "pk_GSN p \<notin> b_inHeap b"
  shows "\<exists>m'. sort_inv n (xs @ [p]) (Push p b) m'"
proof -
  let ?ys = "xs @ [p]" and ?c = "enqueued p b" and ?d = "drainLocked (enqueued p b)"
  have q: "queue_inv b" and mn: "m \<le> n" and nx: "b_nextExpected b = of_nat m"
    and out: "b_out b = map (\<lambda>i. the (first_copy xs (of_nat i))) [0..<m]"
    and seen: "\<forall>i < m. of_nat i \<in> pk_GSN ` set xs" and fr: "b_forcedReleases b = 0"
    and cb: "b_curBytes b \<le> sum_list (map pk_size xs)" and bi: "buf_inv b"
    using inv by (auto simp: sort_inv_def buf_inv_def)
  have qc: "queue_inv ?c" unfolding enqueued_def using q xs(2) new by (rule queue_inv_enqueue)
  have nc: "b_nextExpected ?c = of_nat m" and lc: "length (b_out ?c) = m" using nx out by simp_all
  obtain k where k: "m + k \<le> n" "b_nextExpected ?d = of_nat (m + k)"
     "b_out ?d = b_out ?c @ map (\<lambda>i. the (first_copy ?ys (of_nat i))) [m..<m + k]"
     "\<forall>i. m \<le> i \<and> i < m + k \<longrightarrow> of_nat i \<in> pk_GSN ` set ?ys"
     "set (b_h ?d) = {r. first_copy ?ys (pk_GSN r) = Some r \<and> of_nat (m + k) \<le> pk_GSN r}"
    by (rule sort_drain [OF qc n mn nc xs(1) lc sort_enqueued(2) [OF inv new]])
  have "b_out b = map (\<lambda>i. the (first_copy ?ys (of_nat i))) [0..<m]"
    unfolding out using seen by (intro map_cong) (auto simp: first_copy_snoc_old)
  with k(3) have od: "b_out ?d = map (\<lambda>i. the (first_copy ?ys (of_nat i))) [0..<m + k]"
    by (simp add: upt_add_eq_append [of 0 m k] del: upt_Suc)
  have cd: "b_curBytes ?d \<le> sum_list (map pk_size ?ys)" using drained_curBytes [OF qc] cb by simp
  have P: "Push p b = rearmTimerLocked ?d" using xs(2) new cd room by (intro Push_enqueued) auto
  have r: "b_out (rearmTimerLocked ?d) = b_out ?d" "b_h (rearmTimerLocked ?d) = b_h ?d"
    "b_nextExpected (rearmTimerLocked ?d) = b_nextExpected ?d"
    "b_curBytes (rearmTimerLocked ?d) = b_curBytes ?d" "b_forcedReleases (rearmTimerLocked ?d) = 0"
    using fr by (simp_all add: rearmTimerLocked_def Let_def)
  have "\<forall>i < m + k. of_nat i \<in> pk_GSN ` set ?ys"
    using k(4) seen by (metis image_Un UnI1 set_append linorder_not_less)
  then have "sort_inv n ?ys (Push p b) (m + k)"
    using buf_inv_Push [OF bi, of p] k(1,2,5) od cd r unfolding sort_inv_def P by simp
  then show ?thesis by blast
qed

lemma sort_inv_dup:
  assumes inv: "sort_inv n xs b m" and n: "n \<le> 1024" and "\<not> pk_Push p"
    and dup: "pk_GSN p < b_nextExpected b \<or> pk_GSN p \<in> b_inHeap b"
  shows "sort_inv n (xs @ [p]) (Push p b) m"
proof -
  have "pk_GSN p \<in> pk_GSN ` set xs"
  proof (cases "pk_GSN p \<in> b_inHeap b")
    case True
    with inv show ?thesis
      by (auto simp: sort_inv_def buf_inv_def queue_inv_def dest: first_copy_Some)
  next
    case False
    with dup inv have "unat (pk_GSN p) < m" and "m \<le> n"
      using n of_nat_u64_le [of m "pk_GSN p"] by (auto simp: sort_inv_def not_le [symmetric])
    with inv show ?thesis by (auto simp: sort_inv_def)
  qed
  then have "first_copy (xs @ [p]) = first_copy xs"
    using first_copy_None [of xs "pk_GSN p"]
    by (auto simp: fun_eq_iff first_copy_snoc split: option.splits)
  moreover have "Push p b = b" using dup assms(3) by (auto simp: Push_def)
  ultimately show ?thesis using inv pk_size_nonneg [of p] by (auto simp: sort_inv_def)
qed

lemma Push_maxBytes [simp]: "b_maxBytes (Push p b) = b_maxBytes b"
  by (simp add: Push_def Let_def rearmTimerLocked_def)

lemma sort_inv_push_all:
  assumes "n \<le> 1024" and "\<forall>p \<in> set xs. unat (pk_GSN p) < n \<and> \<not> pk_Push p"
    and "sum_list (map pk_size xs) \<le> b_maxBytes (reorder_New d mb)"
  shows "b_maxBytes (push_all (reorder_New d mb) xs) = b_maxBytes (reorder_New d mb) \<and>
         (\<exists>m. sort_inv n xs (push_all (reorder_New d mb) xs) m)"
  using assms(2,3)
proof (induction xs rule: rev_induct)
  case Nil
  have "sort_inv n [] (reorder_New d mb) 0"
    using buf_inv_New [of 0 d mb] by (simp add: sort_inv_def reorder_New_def NewFrom_def Let_def first_copy_def)
  then show ?case by (auto simp: push_all_def)
next
  case (snoc p xs)
  let ?b = "push_all (reorder_New d mb) xs"
  obtain m where m: "sort_inv n xs ?b m" and mb: "b_maxBytes ?b = b_maxBytes (reorder_New d mb)"
    using snoc pk_size_nonneg [of p] by auto
  have P: "push_all (reorder_New d mb) (xs @ [p]) = Push p ?b" by (simp add: push_all_def)
  have "\<exists>m'. sort_inv n (xs @ [p]) (Push p ?b) m'"
  proof (cases "pk_GSN p < b_nextExpected ?b \<or> pk_GSN p \<in> b_inHeap ?b")
    case True
    then show ?thesis using sort_inv_dup [OF m assms(1)] snoc.prems(1) by auto
  next
    case False
    then show ?thesis using sort_inv_new [OF m assms(1)] snoc.prems mb by auto
  qed
  then show ?case using mb P by simp
qed

lemma sort_inv_complete:
  assumes "sort_inv n xs b m" and "n \<le> 1024" and "pk_GSN ` set xs = of_nat ` {0..<n}"
  shows "m = n" and "b_h b = []"
proof -
  have settled: "b_nextExpected b \<notin> pk_GSN ` set (b_h b)" "m \<le> n" "b_nextExpected b = of_nat m"
    and heap: "set (b_h b) = {p. first_copy xs (pk_GSN p) = Some p \<and> of_nat m \<le> pk_GSN p}"
    using assms(1) by (auto simp: sort_inv_def buf_inv_def settled_def)
  show "m = n"
  proof (rule ccontr)
    assume "m \<noteq> n"
    with settled assms(3) have "of_nat m \<in> pk_GSN ` set xs" by auto
    then obtain r where r: "first_copy xs (of_nat m) = Some r"
      using first_copy_None [of xs "of_nat m"] by auto
    with first_copy_Some [OF r] have "r \<in> set (b_h b)" and "pk_GSN r = of_nat m" by (auto simp: heap)
    with settled show False by (metis image_eqI)
  qed
  have "\<not> of_nat n \<le> g" if "g \<in> pk_GSN ` set xs" for g
    using that assms(2,3) by (auto simp: of_nat_u64_le unat_of_nat take_bit_nat_eq_self)
  then have "set (b_h b) = {}"
    unfolding heap \<open>m = n\<close> using first_copy_Some by (metis (mono_tags, lifting) Collect_empty_eq image_eqI)
  then show "b_h b = []" by simp
qed

section \<open>Firing the timer\<close>

lemma rearm_sel [simp]:
  "b_h (rearmTimerLocked b) = b_h b" "b_out (rearmTimerLocked b) = b_out b"
  "b_nextExpected (rearmTimerLocked b) = b_nextExpected b"
  "b_forcedReleases (rearmTimerLocked b) = b_forcedReleases b"
  by (simp_all add: rearmTimerLocked_def Let_def)

lemma fire_releases:
  assumes "buf_inv b" and "b_h b \<noteq> []"
  shows "\<exists>ps. b_out (fst (rb_step (b, rcv) EvFire)) = take outCap (b_out b @ b_h b ! 0 # ps)"
    and "length (b_h (fst (rb_step (b, rcv) EvFire))) < length (b_h b)"
    and "snd (rb_step (b, rcv) EvFire) = rcv"
    and "b_forcedReleases (fst (rb_step (b, rcv) EvFire)) = b_forcedReleases b + 1"
proof -
  obtain t where t: "b_timer b = Some t" "t_armed t" "t_head t = pk_GSN (b_h b ! 0)"
    using assms by (auto simp: buf_inv_def timer_inv_def)
  define c where "c = b\<lparr>b_timer := Some (t\<lparr>t_armed := False\<rparr>)\<rparr>"
  let ?f = "forceReleaseHeadLocked c"
  have step: "rb_step (b, rcv) EvFire = (rearmTimerLocked (drainLocked ?f), rcv)"
    using t assms(2) by (simp add: c_def onDeadline_def)
  then show "snd (rb_step (b, rcv) EvFire) = rcv" by simp
  have qc: "queue_inv c" using assms(1) by (simp add: c_def buf_inv_def queue_inv_def)
  have hc: "b_h c = b_h b" "b_out c = b_out b" "b_forcedReleases c = b_forcedReleases b"
    by (simp_all add: c_def)
  have qf: "queue_inv ?f" using qc by (rule queue_inv_force)
  have f: "?f = (released c)\<lparr>b_forcedReleases := b_forcedReleases c + 1\<rparr>"
    using qc assms(2) hc by (intro forceReleaseHeadLocked_eq) auto
  obtain ps where ps: "b_out (drainLocked ?f) = take outCap (b_out ?f @ ps)"
      "mset (b_h ?f) = mset ps + mset (b_h (drainLocked ?f))"
    using drainLocked_spec [OF qf] by blast
  have of: "b_out ?f = take outCap (b_out b @ [b_h b ! 0])"
    using released_out [OF qc] assms(2) hc by (simp add: f)
  have "b_out (drainLocked ?f) = take outCap (b_out b @ b_h b ! 0 # ps)"
    unfolding ps(1) of take_take_append by simp
  then show "\<exists>ps. b_out (fst (rb_step (b, rcv) EvFire)) = take outCap (b_out b @ b_h b ! 0 # ps)"
    unfolding step by auto
  have "length (b_h ?f) < length (b_h b)" using assms(2) hc by (simp add: f length_heap_Pop)
  moreover have "length (b_h (drainLocked ?f)) \<le> length (b_h ?f)"
    using arg_cong [OF ps(2), of size] by simp
  ultimately show "length (b_h (fst (rb_step (b, rcv) EvFire))) < length (b_h b)"
    unfolding step by simp
  show "b_forcedReleases (fst (rb_step (b, rcv) EvFire)) = b_forcedReleases b + 1"
    unfolding step by (simp add: f hc)
qed

lemma fire_empty: "buf_inv b \<Longrightarrow> b_h b = [] \<Longrightarrow> rb_step (b, rcv) EvFire = (b, rcv)"
  by (auto simp: buf_inv_def timer_inv_def split: option.splits)

lemma fires_drain:
  "buf_inv (fst s) \<Longrightarrow> length (b_h (fst s)) \<le> k \<Longrightarrow>
   b_h (fst (foldl rb_step s (replicate k EvFire))) = []"
proof (induction k arbitrary: s)
  case (Suc k)
  obtain b rcv where s: "s = (b, rcv)" by (cases s)
  have "length (b_h (fst (rb_step s EvFire))) \<le> k"
  proof (cases "b_h b = []")
    case True
    then show ?thesis using Suc.prems fire_empty [of b rcv] by (simp add: s)
  next
    case False
    then show ?thesis using Suc.prems fire_releases(2) [of b rcv] by (simp add: s)
  qed
  then show ?case using Suc buf_inv_step [of s EvFire] by simp
qed simp

lemma push_all_sorts:
  assumes "n \<le> 1024" and "\<forall>p \<in> set xs. \<not> pk_Push p" and "pk_GSN ` set xs = of_nat ` {0..<n}"
    and "sum_list (map pk_size xs) \<le> b_maxBytes (reorder_New d mb)"
  shows "b_out (push_all (reorder_New d mb) xs) = map (\<lambda>i. the (first_copy xs (of_nat i))) [0..<n]
       \<and> b_h (push_all (reorder_New d mb) xs) = []
       \<and> b_forcedReleases (push_all (reorder_New d mb) xs) = 0"
proof -
  have "unat (pk_GSN p) < n" if "p \<in> set xs" for p
  proof -
    have "pk_GSN p \<in> of_nat ` {0..<n}" using that assms(3) by auto
    then show ?thesis using assms(1) by (auto simp: unat_of_nat take_bit_nat_eq_self)
  qed
  then obtain m where m: "sort_inv n xs (push_all (reorder_New d mb) xs) m"
    using sort_inv_push_all [OF assms(1) _ assms(4)] assms(2) by blast
  show ?thesis
    using m sort_inv_complete [OF m assms(1,3)] by (simp add: sort_inv_def)
qed

abbreviation mk_packet :: "u64 \<Rightarrow> bytes \<Rightarrow> packet" where
  "mk_packet g bs \<equiv> \<lparr>pk_GSN = g, pk_Payload = bs, pk_Push = False\<rparr>"

section \<open>Properties\<close>

text \<open>C5. Pushing any arrival sequence that contains every sequence number below \<open>n\<close> at least once,
  in any order and with any number of later duplicate copies, delivers exactly the first copy of each
  number, in sequence order, with nothing forced out and nothing left behind, as long as the payloads
  fit the buffer and the channel.\<close>

theorem reorder_sorts:
  assumes "n \<le> 1024" and "\<forall>p \<in> set xs. \<not> pk_Push p" and "pk_GSN ` set xs = of_nat ` {0..<n}"
    and "sum_list (map pk_size xs) \<le> b_maxBytes (reorder_New d mb)"
  shows "b_out (push_all (reorder_New d mb) xs) = map (\<lambda>i. the (first_copy xs (of_nat i))) [0..<n]
       \<and> b_h (push_all (reorder_New d mb) xs) = []
       \<and> b_forcedReleases (push_all (reorder_New d mb) xs) = 0"
  using assms by (rule push_all_sorts)

theorem reorder_sorts_witness:
  "b_out (push_all (reorder_New 0 0) [mk_packet 2 [7], mk_packet 0 [5], mk_packet 2 [9], mk_packet 1 [6]])
     = [mk_packet 0 [5], mk_packet 1 [6], mk_packet 2 [7]]"
proof -
  let ?xs = "[mk_packet 2 [7], mk_packet 0 [5], mk_packet 2 [9], mk_packet 1 [6]]"
  have "{0..<3} = {0, 1, 2 :: nat}" by auto
  then have "pk_GSN ` set ?xs = of_nat ` {0..<3}" by auto
  from reorder_sorts [OF _ _ this, of 0 0] show ?thesis
    by (simp add: reorder_New_def NewFrom_def Let_def DefaultBufMin_def DefaultBufMax_def pk_size_def
        first_copy_def eval_nat_numeral)
qed

text \<open>C6. Whatever the interleaving of pushes, timer callbacks (also late ones), deadline changes and
  receives, the packets handed to the consumer outside the PUSH bypass have strictly increasing sequence
  numbers: no reordering and no duplicate, as long as no packet carries the last number of the space.\<close>

theorem reorder_in_order:
  assumes "list_all no_wrap es"
  shows "sorted_wrt (<) (map pk_GSN (ordered_part (rb_run (NewFrom g d m, []) es)))"
proof -
  have "buf_inv (NewFrom g d m) \<and> ord_inv [] (NewFrom g d m)"
    by (simp add: buf_inv_New ord_inv_New)
  then have "ord_inv (snd (rb_run (NewFrom g d m, []) es)) (fst (rb_run (NewFrom g d m, []) es))"
    using rbo.inv_run [of "(NewFrom g d m, [])" es] assms by (simp add: rb_run_def)
  then show ?thesis by (simp add: ord_inv_def)
qed

theorem reorder_in_order_witness:
  "sorted_wrt (<) (map pk_GSN (ordered_part (rb_run (NewFrom 0 0 0, [])
     [EvPush (mk_packet 3 []), EvPush (mk_packet 0 []), EvFire, EvRecv, EvPush (mk_packet 1 []),
      EvLate 3, EvPush (mk_packet 3 [])])))"
  by (rule reorder_in_order) (simp add: no_wrap_def)

text \<open>C7. After any interleaving the buffer is consistent: the heap is ordered and free of duplicate
  numbers, \<^verbatim>\<open>inHeap\<close> is exactly the set of queued numbers, \<^verbatim>\<open>curBytes\<close> is exactly the queued
  payload bytes, everything queued lies strictly beyond the cursor, and whenever something is queued a
  timer for the head is running.\<close>

theorem reorder_invariant: "buf_inv (fst (rb_run (NewFrom g d m, []) es))"
  using rb.inv_run [of "(NewFrom g d m, [])" es] by (simp add: rb_run_def buf_inv_New list_all_iff)

text \<open>C8. Delivery never stalls: in every reachable state with queued packets the deadline callback can
  run, each run releases the head (into the channel if it has room), and as many callbacks as there are
  queued packets empty the buffer without any further arrival.\<close>

theorem reorder_no_stall:
  assumes "(b, rcv) = rb_run (NewFrom g d m, []) es" and "b_h b \<noteq> []"
  shows "(\<exists>t. b_timer b = Some t \<and> t_armed t \<and> t_head t = pk_GSN (b_h b ! 0))
     \<and> (\<exists>ps. b_out (fst (rb_step (b, rcv) EvFire)) = take outCap (b_out b @ b_h b ! 0 # ps))
     \<and> b_h (fst (rb_run (b, rcv) (replicate (length (b_h b)) EvFire))) = []"
proof -
  have inv: "buf_inv b"
    using rb.inv_run [of "(NewFrom g d m, [])" es] assms(1)
    by (metis rb_run_def buf_inv_New fst_conv list_all_iff)
  then show ?thesis
    using assms(2) fire_releases(1) [OF inv assms(2), of rcv] fires_drain [of "(b, rcv)"]
    by (auto simp: rb_run_def buf_inv_def timer_inv_def)
qed

theorem reorder_no_stall_witness:
  "b_h (fst (rb_run (rb_run (NewFrom 0 0 0, []) [EvPush (mk_packet 2 []), EvPush (mk_packet 4 [])])
     [EvFire, EvFire])) = []"
proof -
  let ?s = "rb_run (NewFrom 0 0 0, []) [EvPush (mk_packet 2 []), EvPush (mk_packet 4 [])]"
  have h: "map pk_GSN (b_h (fst ?s)) = [2, 4]" by code_simp
  have len: "length (b_h (fst ?s)) = 2" using arg_cong [OF h, of length] by simp
  then have ne: "b_h (fst ?s) \<noteq> []" by auto
  have eq: "(fst ?s, snd ?s) = ?s" by simp
  from reorder_no_stall [OF eq ne] have "b_h (fst (rb_run ?s (replicate 2 EvFire))) = []"
    unfolding len eq by blast
  then show ?thesis by (simp add: numeral_2_eq_2)
qed

end
