(* ===== verification/Tunnel.thy ===== *)
theory Tunnel
  imports Mode Bond_Fec Wire Reorder
begin

text \<open>
  What the two ends of a tunnel share: the libraries they call, gathered in one record, and the steps
  that \<^verbatim>\<open>core/bond/client.go\<close> and \<^verbatim>\<open>core/bond/relay.go\<close> both contain, namely stamping a data packet with its
  place in a generation, packing a parity shard, counting, and pushing recovered packets into the
  reorder buffer. Go leaves the order of ranging over a map open; \<open>te_mapOrder\<close> and \<open>te_pathOrder\<close> stand for
  the order it happens to take.
\<close>

section \<open>Environment\<close>

record tunnel_env =
  te_arch :: goarch
  te_aead :: aead_impl
  te_rs :: reedsolomon
  te_probe :: "ProbePayload cbor"
  te_probeAck :: "ProbeAckPayload cbor"
  te_pathAdd :: "PathAddPayload cbor"
  te_pathAddAck :: "CtrlPathAddAck cbor"
  te_handshakeResp :: "HandshakeRespPayload cbor"
  te_mapOrder :: "(nat \<times> bytes) list \<Rightarrow> (nat \<times> bytes) list"
  te_pathOrder :: "u8 list"

section \<open>Shared steps\<close>

definition zeroStats :: Stats where
  "zeroStats = \<lparr> st_TxPackets = 0, st_RxPackets = 0, st_TxBytes = 0, st_RxBytes = 0, st_RxErrors = 0 \<rparr>"

definition count_tx :: "bytes \<Rightarrow> Stats \<Rightarrow> Stats" where
  "count_tx payload st = st\<lparr>st_TxPackets := st_TxPackets st + 1, st_TxBytes := st_TxBytes st + of_nat (length payload)\<rparr>"

definition count_rx :: "bytes \<Rightarrow> Stats \<Rightarrow> Stats" where
  "count_rx payload st = st\<lparr>st_RxPackets := st_RxPackets st + 1, st_RxBytes := st_RxBytes st + of_nat (length payload)\<rparr>"

definition count_err :: "Stats \<Rightarrow> Stats" where
  "count_err st = st\<lparr>st_RxErrors := st_RxErrors st + 1\<rparr>"

definition path_tx :: "bytes \<Rightarrow> 'a path \<Rightarrow> 'a path" where
  "path_tx payload p = p\<lparr>pt_Stats := count_tx payload (pt_Stats p)\<rparr>"

definition path_rx :: "bytes \<Rightarrow> 'a path \<Rightarrow> 'a path" where
  "path_rx payload p = p\<lparr>pt_Stats := count_rx payload (pt_Stats p)\<rparr>"

definition dataHeader :: "u64 \<Rightarrow> u32 \<Rightarrow> u8 \<Rightarrow> u8 \<Rightarrow> bytes \<Rightarrow> InnerDataHeader" where
  "dataHeader gsn psn pathID flags payload =
     \<lparr> ih_GSN = gsn, ih_PSN = psn, ih_PathID = pathID, ih_Flags = flags, ih_PayloadLen = of_nat (length payload),
       ih_GenerationID = 0, ih_GenIndex = 0 \<rparr>"

text \<open>The header followed by the payload, as \<^verbatim>\<open>sealPacket\<close> encrypts it and the generations protect it.\<close>

definition innerPlain :: "InnerDataHeader \<Rightarrow> bytes \<Rightarrow> bytes option" where
  "innerPlain header payload =
     (case MarshalInner (replicate (InnerHeaderLen + length payload) 0) header of
        Inl e \<Rightarrow> None
      | Inr buf \<Rightarrow> Some (put_at InnerHeaderLen payload buf))"

text \<open>With FEC on, a data packet takes the next slot of the open generation and carries it in its header.
  The result also says what to record once the packet is out.\<close>

definition fecStamp :: "instant \<Rightarrow> InnerDataHeader \<Rightarrow> bytes \<Rightarrow> fecSender option \<Rightarrow>
    InnerDataHeader \<times> (u16 \<times> nat \<times> bytes) option \<times> fecSender option" where
  "fecStamp now header payload fs =
     (case fs of
        None \<Rightarrow> (header, None, None)
      | Some f \<Rightarrow>
          let ((genID, genIndex), f) = NextSlot now f;
              header = header\<lparr>ih_GenerationID := genID, ih_GenIndex := of_nat genIndex,
                              ih_Flags := ih_Flags header OR FlagFECProtected\<rparr>
          in (header, map_option (\<lambda>inner. (genID, genIndex, inner)) (innerPlain header payload), Some f))"

definition fecPayload :: "parityShard \<Rightarrow> bytes option" where
  "fecPayload c =
     (case MarshalFECHeader (replicate (FECHeaderLen + length (ps_shard c)) 0)
             \<lparr> fh_N = of_int (ps_n c), fh_M = of_int (ps_m c), fh_W = of_int (ps_w c) \<rparr> of
        Inl e \<Rightarrow> None
      | Inr buf \<Rightarrow> Some (put_at FECHeaderLen (ps_shard c) buf))"

definition parityHeader :: "u32 \<Rightarrow> u8 \<Rightarrow> bytes \<Rightarrow> parityShard \<Rightarrow> InnerDataHeader" where
  "parityHeader psn pathID payload c =
     \<lparr> ih_GSN = 0, ih_PSN = psn, ih_PathID = pathID, ih_Flags = 0, ih_PayloadLen = of_nat (length payload),
       ih_GenerationID = ps_genID c, ih_GenIndex = of_int (ps_genIndex c) \<rparr>"

definition reorderPacket :: "InnerDataHeader \<Rightarrow> bytes \<Rightarrow> packet" where
  "reorderPacket header payload =
     \<lparr> pk_GSN = ih_GSN header, pk_Payload = payload, pk_Push = HasFlag (ih_Flags header) FlagPUSH \<rparr>"

text \<open>A data packet of a protected generation is kept for the reconstruction of its siblings.\<close>

definition fecKeep :: "instant \<Rightarrow> InnerDataHeader \<Rightarrow> bytes \<Rightarrow> fecGenBuffer option \<Rightarrow> fecGenBuffer option" where
  "fecKeep now inner payload fr =
     (case fr of
        None \<Rightarrow> None
      | Some b \<Rightarrow>
          if HasFlag (ih_Flags inner) FlagFECProtected
          then (case innerPlain inner payload of
                  None \<Rightarrow> Some b
                | Some plain \<Rightarrow> Some (HandleData now (ih_GenerationID inner) (unat (ih_GenIndex inner)) plain b))
          else Some b)"

text \<open>The parity step: what is recovered, in the order of the map, as packets for the reorder buffer.\<close>

definition fecParity :: "tunnel_env \<Rightarrow> instant \<Rightarrow> InnerDataHeader \<Rightarrow> bytes \<Rightarrow> fecGenBuffer \<Rightarrow>
    (InnerDataHeader \<times> bytes) list \<times> fecGenBuffer" where
  "fecParity E now inner payload b =
     (case UnmarshalFECHeader payload of
        Inl e \<Rightarrow> ([], b)
      | Inr (fh, fhLen) \<Rightarrow>
          let shard = drop fhLen payload;
              parityIndex = uint (ih_GenIndex inner) - uint (fh_N fh);
              (recovered, b) = HandleFEC (te_rs E) now (ih_GenerationID inner) (uint (fh_N fh)) (uint (fh_M fh))
                                 (uint (fh_W fh)) parityIndex shard b
          in (List.map_filter (\<lambda>(i, plain). unmarshalRecovered plain) (te_mapOrder E recovered), b))"

definition pushAll :: "(InnerDataHeader \<times> bytes) list \<Rightarrow> buffer \<Rightarrow> buffer" where
  "pushAll rs b = fold (\<lambda>(h, payload). Push (reorderPacket h payload)) rs b"

definition countAll :: "(InnerDataHeader \<times> bytes) list \<Rightarrow> Stats \<Rightarrow> Stats" where
  "countAll rs st = fold (\<lambda>(h, payload). count_rx payload) rs st"

section \<open>Lemmas\<close>

lemma innerPlain_eq: "innerPlain header payload = Some (inner_bytes header @ payload)"
  by (simp add: innerPlain_def MarshalInner_eq inner_bytes_def put_at_def)

lemma unmarshalRecovered_inner: "unmarshalRecovered (inner_bytes x @ payload) = Some (x, payload)"
  by (simp add: unmarshalRecovered_def)

end
