(* ===== verification/Pool.thy ===== *)
theory Pool
  imports Prelude
begin

text \<open>
  The relay's address pool, \<^verbatim>\<open>core/bond/pool.go\<close>. \<^verbatim>\<open>net.ParseCIDR\<close> is represented by its result: the
  parsed address and the masked network with the size of its mask. Addresses are byte slices as in
  package \<^verbatim>\<open>net\<close>; an index panic of the code is an error value.
\<close>

section \<open>State and operations\<close>

record ipnet =
  in_IP :: bytes
  in_ones :: nat
  in_bits :: nat

definition v4InV6Prefix :: bytes where
  "v4InV6Prefix = replicate 10 0 @ [0xff, 0xff]"

definition To4 :: "bytes \<Rightarrow> bytes option" where
  "To4 ip = (if length ip = 4 then Some ip
             else if length ip = 16 \<and> take 12 ip = v4InV6Prefix then Some (drop 12 ip)
             else None)"

datatype pool_error = ErrBadCIDR | ErrNotIPv4 | ErrTooSmall | ErrPoolExhausted | PanicIndex

record IPPool =
  ip_network :: ipnet
  ip_next :: u32
  ip_end :: u32
  ip_released :: "u32 list"

definition NewIPPool :: "(bytes \<times> ipnet) option \<Rightarrow> pool_error + IPPool" where
  "NewIPPool parsed =
     (case parsed of None \<Rightarrow> Inl ErrBadCIDR
      | Some (ip, network) \<Rightarrow>
        (case To4 ip of None \<Rightarrow> Inl ErrNotIPv4
         | Some _ \<Rightarrow>
           (case To4 (in_IP network) of None \<Rightarrow> Inl PanicIndex
            | Some ip4 \<Rightarrow>
              (let base = get_be ip4 :: u32;
                   size = push_bit (in_bits network - in_ones network) 1 :: u32
               in if size < 4 then Inl ErrTooSmall
                  else Inr \<lparr> ip_network = network, ip_next = base + 2, ip_end = base + size - 1,
                             ip_released = [] \<rparr>))))"

definition uint32ToIP :: "u32 \<Rightarrow> bytes" where
  "uint32ToIP v = put_at 0 (put_be 4 v) (replicate 4 0)"

definition Gateway :: "IPPool \<Rightarrow> pool_error + bytes" where
  "Gateway p = (case To4 (in_IP (ip_network p)) of None \<Rightarrow> Inl PanicIndex
                | Some ip4 \<Rightarrow> Inr (uint32ToIP (get_be ip4 + 1)))"

definition Prefix :: "IPPool \<Rightarrow> nat" where
  "Prefix p = in_ones (ip_network p)"

definition Allocate :: "IPPool \<Rightarrow> (pool_error + bytes) \<times> IPPool" where
  "Allocate p =
     (if length (ip_released p) > 0
      then (Inr (uint32ToIP (ip_released p ! (length (ip_released p) - 1))),
            p\<lparr>ip_released := take (length (ip_released p) - 1) (ip_released p)\<rparr>)
      else if ip_next p > ip_end p then (Inl ErrPoolExhausted, p)
      else (Inr (uint32ToIP (ip_next p)), p\<lparr>ip_next := ip_next p + 1\<rparr>))"

definition Release :: "bytes \<Rightarrow> IPPool \<Rightarrow> IPPool" where
  "Release ip p =
     (case To4 ip of None \<Rightarrow> p | Some ip4 \<Rightarrow> p\<lparr>ip_released := ip_released p @ [get_be ip4]\<rparr>)"

section \<open>Pools in use\<close>

text \<open>Clients come and go: an allocation adds the address to those in use, a departing client gives back
  an address it holds.\<close>

datatype pool_op = OpAlloc | OpFree bytes

type_synonym pool_sys = "IPPool \<times> bytes list"

fun pool_step :: "pool_sys \<Rightarrow> pool_op \<Rightarrow> pool_sys" where
  "pool_step (p, held) OpAlloc =
     (case Allocate p of (Inr ip, p) \<Rightarrow> (p, ip # held) | (Inl _, p) \<Rightarrow> (p, held))"
| "pool_step (p, held) (OpFree ip) =
     (if ip \<in> set held then (Release ip p, remove1 ip held) else (p, held))"

definition fresh_pool :: "u32 \<Rightarrow> nat \<Rightarrow> IPPool" where
  "fresh_pool base ones = \<lparr> ip_network = \<lparr> in_IP = put_be 4 base, in_ones = ones, in_bits = 32 \<rparr>,
     ip_next = base + 2, ip_end = base + push_bit (32 - ones) 1 - 1, ip_released = [] \<rparr>"

text \<open>The handed-out addresses are partitioned into those in use and the free list.\<close>

definition pool_inv :: "u32 \<Rightarrow> u32 \<Rightarrow> pool_sys \<Rightarrow> bool" where
  "pool_inv lo hi s \<longleftrightarrow>
     (case s of (p, held) \<Rightarrow>
        ip_end p = hi \<and> lo \<le> ip_next p \<and> ip_next p \<le> hi + 1 \<and>
        (\<exists>vs. held = map uint32ToIP vs \<and> distinct (vs @ ip_released p) \<and>
              set (vs @ ip_released p) = {v. lo \<le> v \<and> v < ip_next p}))"

section \<open>Lemmas\<close>

lemma uint32ToIP_eq: "uint32ToIP v = put_be 4 v"
  by (simp add: uint32ToIP_def put_at_def)

lemma To4_uint32ToIP [simp]: "To4 (uint32ToIP v) = Some (put_be 4 v)"
  by (simp add: To4_def uint32ToIP_eq)

lemma get_be_uint32ToIP [simp]: "(get_be (uint32ToIP v) :: u32) = v"
  by (simp add: uint32ToIP_eq)

lemma uint32ToIP_inj [simp]: "uint32ToIP v = uint32ToIP w \<longleftrightarrow> v = w"
  by (metis get_be_uint32ToIP)

lemma inj_uint32ToIP: "inj uint32ToIP"
  by (simp add: inj_def)

lemma Allocate_eq:
  "Allocate p =
     (if ip_released p \<noteq> [] then (Inr (uint32ToIP (last (ip_released p))), p\<lparr>ip_released := butlast (ip_released p)\<rparr>)
      else if ip_next p > ip_end p then (Inl ErrPoolExhausted, p)
      else (Inr (uint32ToIP (ip_next p)), p\<lparr>ip_next := ip_next p + 1\<rparr>))"
  by (simp add: Allocate_def last_conv_nth butlast_conv_take)

lemma Release_eq: "Release (uint32ToIP v) p = p\<lparr>ip_released := ip_released p @ [v]\<rparr>"
  by (simp add: Release_def)

lemma word_not_max: "n \<le> hi \<Longrightarrow> hi \<noteq> - 1 \<Longrightarrow> n \<noteq> - 1" for n hi :: u32
  using word_order.extremum_uniqueI by blast

lemma below_succ: "hi \<noteq> - 1 \<Longrightarrow> n \<le> hi \<Longrightarrow> lo \<le> n \<Longrightarrow> {v. lo \<le> v \<and> v < n + 1} = insert n {v. lo \<le> v \<and> v < n}"
  for n hi lo :: u32
  using word_lt_succ_iff [of n] word_not_max [of n hi] by (simp add: order_le_less) auto

lemma pool_invI:
  "ip_end p = hi \<Longrightarrow> lo \<le> ip_next p \<Longrightarrow> ip_next p \<le> hi + 1 \<Longrightarrow> distinct (vs @ ip_released p) \<Longrightarrow>
   set (vs @ ip_released p) = {v. lo \<le> v \<and> v < ip_next p} \<Longrightarrow> pool_inv lo hi (p, map uint32ToIP vs)"
  unfolding pool_inv_def by blast

lemma pool_invE:
  assumes "pool_inv lo hi (p, held)"
  obtains vs where "ip_end p = hi" "lo \<le> ip_next p" "ip_next p \<le> hi + 1"
    "held = map uint32ToIP vs" "distinct (vs @ ip_released p)"
    "set (vs @ ip_released p) = {v. lo \<le> v \<and> v < ip_next p}"
  using assms by (auto simp: pool_inv_def)

lemma pool_inv_alloc:
  assumes "hi \<noteq> - 1" and "pool_inv lo hi (p, held)"
  shows "pool_inv lo hi (pool_step (p, held) OpAlloc)"
proof -
  from assms(2) obtain vs where inv: "ip_end p = hi" "lo \<le> ip_next p" "ip_next p \<le> hi + 1"
    "held = map uint32ToIP vs" "distinct (vs @ ip_released p)"
    "set (vs @ ip_released p) = {v. lo \<le> v \<and> v < ip_next p}"
    by (rule pool_invE)
  consider (reuse) rs r where "ip_released p = rs @ [r]" | (exhausted) "ip_released p = []" "ip_next p > hi"
    | (new) "ip_released p = []" "ip_next p \<le> hi"
    by (metis rev_exhaust linorder_not_less)
  then show ?thesis
  proof cases
    case reuse
    then have "pool_step (p, held) OpAlloc = (p\<lparr>ip_released := rs\<rparr>, map uint32ToIP (r # vs))"
      by (simp add: Allocate_eq inv(4))
    moreover have "pool_inv lo hi (p\<lparr>ip_released := rs\<rparr>, map uint32ToIP (r # vs))"
      by (rule pool_invI) (use inv(1-3,5,6) reuse in auto)
    ultimately show ?thesis by simp
  next
    case exhausted
    with inv(1) assms(2) show ?thesis by (simp add: Allocate_eq)
  next
    case new
    have "ip_next p + 1 \<le> hi + 1" and "lo \<le> ip_next p + 1"
      using assms(1) new inv(2)
      word_lt_succ_iff [of hi "ip_next p"] word_lt_succ_iff [of "ip_next p" lo]
      word_not_max [OF new(2) assms(1)] inc_le [of "ip_next p" "hi + 1"]
      by (simp_all add: order_less_imp_le)
    moreover have "set (ip_next p # vs) = {v. lo \<le> v \<and> v < ip_next p + 1}"
      using below_succ [OF assms(1) new(2) inv(2)] inv(6) new(1) by simp
    moreover have "ip_next p \<notin> set vs" using inv(6) new(1) by auto
    ultimately have "pool_inv lo hi (p\<lparr>ip_next := ip_next p + 1\<rparr>, map uint32ToIP (ip_next p # vs))"
      by (intro pool_invI) (use inv(1,5) new(1) in simp_all)
    moreover have "pool_step (p, held) OpAlloc = (p\<lparr>ip_next := ip_next p + 1\<rparr>, map uint32ToIP (ip_next p # vs))"
      using new inv(1) by (simp add: Allocate_eq inv(4))
    ultimately show ?thesis by simp
  qed
qed

lemma pool_inv_free:
  assumes "pool_inv lo hi (p, held)"
  shows "pool_inv lo hi (pool_step (p, held) (OpFree ip))"
proof (cases "ip \<in> set held")
  case True
  from assms obtain vs where inv: "ip_end p = hi" "lo \<le> ip_next p" "ip_next p \<le> hi + 1"
    "held = map uint32ToIP vs" "distinct (vs @ ip_released p)"
    "set (vs @ ip_released p) = {v. lo \<le> v \<and> v < ip_next p}"
    by (rule pool_invE)
  from True inv(4) obtain v where v: "ip = uint32ToIP v" "v \<in> set vs" by auto
  have "remove1 (uint32ToIP v) (map uint32ToIP vs) = map uint32ToIP (remove1 v vs)"
    by (induction vs) auto
  moreover have "set (remove1 v vs @ ip_released p @ [v]) = set (vs @ ip_released p)"
    using inv(5) v(2) by auto
  moreover have "pool_inv lo hi (p\<lparr>ip_released := ip_released p @ [v]\<rparr>, map uint32ToIP (remove1 v vs))"
    by (rule pool_invI) (use inv(1-3,5,6) calculation(2) v(2) in auto)
  ultimately show ?thesis using True by (simp add: v(1) inv(4) Release_eq)
next
  case False
  with assms show ?thesis by simp
qed

lemma pool_inv_step: "hi \<noteq> - 1 \<Longrightarrow> pool_inv lo hi s \<Longrightarrow> pool_inv lo hi (pool_step s e)"
  by (cases s; cases e) (use pool_inv_alloc pool_inv_free in blast)+

section \<open>Fresh pools\<close>

text \<open>The network \<open>base/(32 - h)\<close>, with \<open>base\<close> masked as \<^verbatim>\<open>ParseCIDR\<close> returns it and not touching the top of
  the address space.\<close>

definition pool_net :: "u32 \<Rightarrow> nat \<Rightarrow> ipnet \<Rightarrow> bool" where
  "pool_net base h net \<longleftrightarrow> To4 (in_IP net) = Some (put_be 4 base) \<and> in_bits net - in_ones net = h \<and>
     2 \<le> h \<and> h < 32 \<and> unat base + 2 ^ h < 2 ^ 32"

lemma pool_net_words:
  assumes "pool_net base h net"
  shows "unat (base + 2) = unat base + 2" and "unat (base + push_bit h 1 - 1) = unat base + 2 ^ h - 1"
    and "unat (push_bit h 1 :: u32) = 2 ^ h" and "(4::nat) \<le> 2 ^ h"
proof -
  have h: "2 \<le> h" "h < 32" "unat base + 2 ^ h < 2 ^ 32" using assms by (auto simp: pool_net_def)
  show four: "(4::nat) \<le> 2 ^ h" using power_increasing [OF h(1), of "2::nat"] by simp
  show p: "unat (push_bit h 1 :: u32) = 2 ^ h"
  proof -
    have "unat (of_nat n :: u32) = n" if "n < 2 ^ 32" for n
      using that by (simp add: unat_of_nat take_bit_nat_eq_self)
    from this [of "2 ^ h"] h(3) show ?thesis by (simp add: push_bit_eq_mult)
  qed
  show "unat (base + 2) = unat base + 2"
    using h four by (simp add: unat_word_ariths)
  have "unat (base + push_bit h 1) = unat base + 2 ^ h"
    using h p unat_add_lem [of base "push_bit h 1"] by simp
  then show "unat (base + push_bit h 1 - 1) = unat base + 2 ^ h - 1"
    using four by (simp add: unat_sub_if')
qed

lemma NewIPPool_eq:
  assumes "pool_net base h net" and "To4 ip = Some ip4"
  shows "NewIPPool (Some (ip, net)) = Inr \<lparr> ip_network = net, ip_next = base + 2,
           ip_end = base + push_bit h 1 - 1, ip_released = [] \<rparr>"
proof -
  have "\<not> push_bit h 1 < (4 :: u32)"
    using pool_net_words(3,4) [OF assms(1)] by (simp add: word_less_nat_alt)
  with assms show ?thesis by (simp add: NewIPPool_def pool_net_def Let_def)
qed

lemma pool_inv_new:
  assumes "pool_net base h net" and "To4 ip = Some ip4" and "NewIPPool (Some (ip, net)) = Inr p"
  shows "pool_inv (base + 2) (base + push_bit h 1 - 1) (p, []) \<and> base + push_bit h 1 - 1 \<noteq> - 1"
proof -
  let ?hi = "base + push_bit h 1 - 1"
  note u = pool_net_words [OF assms(1)]
  have b: "unat base + 2 ^ h < 2 ^ 32" using assms(1) by (simp add: pool_net_def)
  have ne: "?hi \<noteq> - 1"
  proof
    assume "?hi = - 1"
    then have "unat ?hi = unat (- 1 :: u32)" by (rule arg_cong)
    with u(2) b show False by (simp add: unsigned_minus_1_eq_mask mask_eq_exp_minus_1)
  qed
  have "base + 2 \<le> ?hi" using u by (simp add: word_le_nat_alt)
  then have "base + 2 \<le> ?hi + 1" using word_lt_succ_iff [OF ne] by (simp add: order_less_imp_le)
  moreover have "p = \<lparr> ip_network = net, ip_next = base + 2, ip_end = ?hi, ip_released = [] \<rparr>"
    using assms(3) NewIPPool_eq [OF assms(1,2)] by simp
  ultimately have "pool_inv (base + 2) ?hi (p, map uint32ToIP [])"
    by (intro pool_invI) auto
  with ne show ?thesis by simp
qed

fun alloc_n :: "nat \<Rightarrow> IPPool \<Rightarrow> (pool_error + bytes) list \<times> IPPool" where
  "alloc_n 0 p = ([], p)"
| "alloc_n (Suc n) p = (let (r, p) = Allocate p; (rs, p) = alloc_n n p in (r # rs, p))"

lemma alloc_n_fresh:
  assumes "ip_released p = []" and "ip_end p = hi" and "hi \<noteq> - 1" and "unat (ip_next p) + k = unat hi + 1"
  shows "fst (alloc_n (Suc k) p) =
    map (\<lambda>i. Inr (uint32ToIP (ip_next p + of_nat i))) [0..<k] @ [Inl ErrPoolExhausted]"
  using assms
proof (induction k arbitrary: p)
  case 0
  then have "ip_next p > ip_end p" by (simp add: word_less_nat_alt)
  with 0 show ?case by (simp add: Allocate_eq)
next
  case (Suc k)
  have lt: "unat (ip_next p) < unat hi + 1" and le: "ip_next p \<le> hi"
    using Suc.prems(4) by (simp_all add: word_le_nat_alt)
  have "unat (ip_next p + 1) = unat (ip_next p) + 1"
    using word_not_max [OF le Suc.prems(3)] unatSuc [of "ip_next p"]
    by (metis Suc_eq_plus1 add.commute add_eq_0_iff)
  then have "fst (alloc_n (Suc k) (p\<lparr>ip_next := ip_next p + 1\<rparr>)) =
      map (\<lambda>i. Inr (uint32ToIP (ip_next p + 1 + of_nat i))) [0..<k] @ [Inl ErrPoolExhausted]"
    using Suc.IH [of "p\<lparr>ip_next := ip_next p + 1\<rparr>"] Suc.prems by simp
  moreover have "Allocate p = (Inr (uint32ToIP (ip_next p)), p\<lparr>ip_next := ip_next p + 1\<rparr>)"
    using Suc.prems(1,2) le by (simp add: Allocate_eq)
  ultimately show ?case
    by (simp add: split_beta Let_def upt_conv_Cons map_Suc_upt [symmetric] ac_simps comp_def del: upt_Suc alloc_n.simps(2))
       (simp add: split_beta Let_def)
qed

interpretation ipp: step_system pool_step "\<lambda>s. hi \<noteq> - 1 \<and> pool_inv lo hi s" "\<lambda>_. True" for lo hi
  by unfold_locales (simp add: pool_inv_step)

section \<open>Properties\<close>

text \<open>C22. No two clients share a tunnel address: over any sequence of allocations and of releases by clients
  that hold an address, the addresses in use are pairwise distinct, lie in the pool's network and are
  never the relay's own gateway address.\<close>

theorem pool_unique:
  assumes "pool_net base h net" and "To4 ip = Some ip4" and "NewIPPool (Some (ip, net)) = Inr p"
    and "foldl pool_step (p, []) ops = (q, held)"
  shows "distinct held \<and>
    (\<forall>a \<in> set held. \<exists>v. a = uint32ToIP v \<and> base + 2 \<le> v \<and> v \<le> base + push_bit h 1 - 1) \<and>
    Gateway p = Inr (uint32ToIP (base + 1)) \<and> uint32ToIP (base + 1) \<notin> set held"
proof -
  let ?hi = "base + push_bit h 1 - 1"
  note new = pool_inv_new [OF assms(1-3)]
  have "pool_inv (base + 2) ?hi (q, held)"
    using ipp.inv_run [of ?hi "base + 2" "(p, [])" ops] new assms(4) by (simp add: list_all_iff)
  then obtain vs where vs: "ip_next q \<le> ?hi + 1" "held = map uint32ToIP vs" "distinct (vs @ ip_released q)"
    "set (vs @ ip_released q) = {v. base + 2 \<le> v \<and> v < ip_next q}"
    by (rule pool_invE)
  have rng: "base + 2 \<le> v \<and> v \<le> ?hi" if "v \<in> set vs" for v
  proof -
    have "v \<in> {v. base + 2 \<le> v \<and> v < ip_next q}" using vs(4) that by (metis UnI1 set_append)
    then have "base + 2 \<le> v" "v < ?hi + 1" using vs(1) by auto
    then show ?thesis using new word_lt_succ_iff by blast
  qed
  have "unat (base + 1) = unat base + 1"
    using pool_net_words(4) [OF assms(1)] assms(1) by (simp add: unat_word_ariths pool_net_def)
  then have "\<not> base + 2 \<le> base + 1"
    using pool_net_words(1) [OF assms(1)] by (simp add: word_le_nat_alt)
  then have "uint32ToIP (base + 1) \<notin> set held" using rng vs(2) by auto
  moreover have "distinct held" using vs(2,3) by (simp add: distinct_map inj_on_subset [OF inj_uint32ToIP])
  moreover have "Gateway p = Inr (uint32ToIP (base + 1))"
    using assms(3) NewIPPool_eq [OF assms(1,2)] assms(1) by (auto simp: Gateway_def pool_net_def)
  ultimately show ?thesis using rng vs(2) by auto
qed

definition ex_net :: ipnet where "ex_net = \<lparr> in_IP = [10, 77, 0, 0], in_ones = 24, in_bits = 32 \<rparr>"

lemma ex_net_ok: "pool_net 0x0A4D0000 8 ex_net"
  by (simp add: pool_net_def ex_net_def To4_def) code_simp

lemma ex_pool: "NewIPPool (Some ([10, 77, 0, 0], ex_net)) =
  Inr \<lparr> ip_network = ex_net, ip_next = 0x0A4D0002, ip_end = 0x0A4D00FF, ip_released = [] \<rparr>"
  by code_simp

theorem pool_unique_witness:
  "distinct [[10, 77, 0, 2], [10, 77, 0, 3 :: u8]] \<and>
   foldl pool_step (projr (NewIPPool (Some ([10, 77, 0, 0], ex_net))), []) [OpAlloc, OpAlloc, OpFree [10, 77, 0, 2], OpAlloc] =
     (\<lparr> ip_network = ex_net, ip_next = 0x0A4D0004, ip_end = 0x0A4D00FF, ip_released = [] \<rparr>,
      [[10, 77, 0, 2], [10, 77, 0, 3]])"
proof -
  have run: "foldl pool_step (projr (NewIPPool (Some ([10, 77, 0, 0], ex_net))), [])
      [OpAlloc, OpAlloc, OpFree [10, 77, 0, 2], OpAlloc] =
     (\<lparr> ip_network = ex_net, ip_next = 0x0A4D0004, ip_end = 0x0A4D00FF, ip_released = [] \<rparr>,
      [[10, 77, 0, 2], [10, 77, 0, 3]])" by code_simp
  have "To4 [10, 77, 0, 0] = Some [10, 77, 0, 0]" by (simp add: To4_def)
  from pool_unique [OF ex_net_ok this ex_pool] run show ?thesis by (simp add: ex_pool)
qed

text \<open>Exhaustion: a fresh pool over a network of \<open>2^h\<close> addresses hands out the \<open>2^h - 2\<close> addresses after
  the gateway in ascending order, the network's broadcast address being the last, and then reports
  exhaustion.\<close>

theorem pool_exhaustion:
  assumes "pool_net base h net" and "To4 ip = Some ip4" and "NewIPPool (Some (ip, net)) = Inr p"
  shows "fst (alloc_n (2 ^ h - 1) p) =
    map (\<lambda>i. Inr (uint32ToIP (base + 2 + of_nat i))) [0..<2 ^ h - 2] @ [Inl ErrPoolExhausted]"
proof -
  let ?hi = "base + push_bit h 1 - 1"
  note u = pool_net_words [OF assms(1)]
  have p: "p = \<lparr> ip_network = net, ip_next = base + 2, ip_end = ?hi, ip_released = [] \<rparr>"
    using assms(3) NewIPPool_eq [OF assms(1,2)] by simp
  have "unat (ip_next p) + (2 ^ h - 2) = unat ?hi + 1"
    using u(1,2,4) by (simp only: p) simp
  moreover have "?hi \<noteq> - 1" using pool_inv_new [OF assms] by simp
  ultimately have "fst (alloc_n (Suc (2 ^ h - 2)) p) =
    map (\<lambda>i. Inr (uint32ToIP (ip_next p + of_nat i))) [0..<2 ^ h - 2] @ [Inl ErrPoolExhausted]"
    by (intro alloc_n_fresh [where hi = ?hi]) (simp_all add: p)
  moreover have "Suc (2 ^ h - 2) = 2 ^ h - 1" using u(4) by simp
  ultimately show ?thesis by (simp only: p IPPool.select_convs)
qed

theorem pool_exhaustion_witness:
  "fst (alloc_n 3 (projr (NewIPPool (Some ([10, 77, 0, 0], \<lparr> in_IP = [10, 77, 0, 0], in_ones = 30, in_bits = 32 \<rparr>))))) =
     [Inr [10, 77, 0, 2], Inr [10, 77, 0, 3], Inl ErrPoolExhausted]"
proof -
  let ?net = "\<lparr> in_IP = [10, 77, 0, 0], in_ones = 30, in_bits = 32 \<rparr>"
  have net: "pool_net 0x0A4D0000 2 ?net" by (simp add: pool_net_def To4_def) code_simp
  have ip: "To4 [10, 77, 0, 0] = Some [10, 77, 0, 0]" by (simp add: To4_def)
  have "NewIPPool (Some ([10, 77, 0, 0], ?net)) =
      Inr \<lparr> ip_network = ?net, ip_next = 0x0A4D0002, ip_end = 0x0A4D0003, ip_released = [] \<rparr>"
    by code_simp
  from pool_exhaustion [OF net ip this] this show ?thesis
    by (simp add: upt_rec) code_simp
qed

text \<open>At the top of the address space the exhaustion test never fires: a pool whose last address is
  255.255.255.255 grants every allocation, however many there are, wrapping around to 0.0.0.0 and
  on through addresses outside its network.\<close>

theorem pool_top_never_exhausts:
  assumes "ip_end p = - 1"
  shows "list_all (\<lambda>r. \<not> isl r) (fst (alloc_n n p))"
proof -
  have "\<not> isl (fst (Allocate q)) \<and> ip_end (snd (Allocate q)) = - 1" if "ip_end q = - 1" for q
    using that by (simp add: Allocate_eq)
  then show ?thesis
    using assms by (induction n arbitrary: p) (auto simp: split_beta Let_def)
qed

theorem pool_top_never_exhausts_witness:
  "let p = projr (NewIPPool (Some ([255, 255, 255, 252],
       \<lparr> in_IP = [255, 255, 255, 252], in_ones = 30, in_bits = 32 \<rparr>)))
   in list_all (\<lambda>r. \<not> isl r) (fst (alloc_n 1000 p)) \<and>
      fst (alloc_n 3 p) = [Inr [255, 255, 255, 254], Inr [255, 255, 255, 255], Inr [0, 0, 0, 0]]"
proof -
  let ?p = "projr (NewIPPool (Some ([255, 255, 255, 252],
       \<lparr> in_IP = [255, 255, 255, 252], in_ones = 30, in_bits = 32 \<rparr>)))"
  have "ip_end ?p = - 1" by code_simp
  then have "list_all (\<lambda>r. \<not> isl r) (fst (alloc_n 1000 ?p))" by (rule pool_top_never_exhausts)
  moreover have "fst (alloc_n 3 ?p) = [Inr [255, 255, 255, 254], Inr [255, 255, 255, 255], Inr [0, 0, 0, 0]]"
    by code_simp
  ultimately show ?thesis by (simp only: Let_def simp_thms)
qed

end
