(* ===== verification/Client.thy ===== *)
theory Client
  imports Tunnel
begin

text \<open>
  The client's end of a tunnel, \<^verbatim>\<open>core/bond/client.go\<close>: dialling, sending in both modes, the parity callback,
  the read loop of a path, the drain to the TUN device, the probe loop and the maintenance tick. Each
  goroutine's loop body is one operation on the tunnel's state; an operation returns the datagrams it
  wrote, each with the path it went out on. A socket is not modelled: \<open>wr\<close> says whether a write
  succeeds, and reading hands the operation its datagram. A path is named by its position in the path
  list, which stands for the pointer.
\<close>

section \<open>State\<close>

record PathSpec =
  sp_LocalAddr :: gostring
  sp_Device :: gostring
  sp_Conn :: bool

record ClientConfig =
  cf_RelayPubKey :: bytes
  cf_ClientKey :: Keypair
  cf_Paths :: "PathSpec list"
  cf_HandshakeTO :: duration
  cf_HandshakeTry :: int
  cf_Scheduler :: string
  cf_Mode :: Mode
  cf_FEC :: bool

datatype dial_error = ErrResolve | ErrDial | ErrInitiator crypto_error | ErrWriteInit crypto_error
  | ErrOuter proto_error | ErrSend | ErrDeadline | ErrTimeout | ErrUnexpected | ErrOpen bond_error
  | ErrResponse crypto_error | ErrPayload bond_error | ErrScheduler | ErrMalformedAck

record ClientTunnel =
  ct_sess :: session
  ct_sessionIndex :: u32
  ct_tunnelIP :: string
  ct_startedAt :: instant
  ct_sched :: scheduler
  ct_reorderBuf :: buffer
  ct_mode :: Mode
  ct_fecSend :: "fecSender option"
  ct_fecRecv :: "fecGenBuffer option"
  ct_paths :: "unit path list"
  ct_pathErrs :: "dial_error list"
  ct_sendGSN :: u64
  ct_Stats :: Stats

type_synonym writes = "(u8 \<times> bytes) list"
type_synonym writer = "u8 \<Rightarrow> bytes \<Rightarrow> bool"

definition client_Paths :: "ClientTunnel \<Rightarrow> (nat \<times> unit path) list" where
  "client_Paths t = enumerate 0 (ct_paths t)"

definition client_schedPaths :: "instant \<Rightarrow> ClientTunnel \<Rightarrow> spath list" where
  "client_schedPaths now t = map (sched_view now) (ct_paths t)"

text \<open>The scheduler answers with a path of the list it was given, found here by its identifier.\<close>

definition path_index :: "u8 \<Rightarrow> 'a path list \<Rightarrow> nat option" where
  "path_index i ps = List.find (\<lambda>k. pt_id (ps ! k) = i) [0..<length ps]"

definition set_path :: "nat \<Rightarrow> unit path \<Rightarrow> ClientTunnel \<Rightarrow> ClientTunnel" where
  "set_path k p t = t\<lparr>ct_paths := (ct_paths t)[k := p]\<rparr>"

section \<open>Sending\<close>

fun max_loss :: "'a path list \<Rightarrow> rat \<Rightarrow> rat" where
  "max_loss [] maxLoss = maxLoss"
| "max_loss (p # ps) maxLoss =
     (if pt_state p \<noteq> StateActive \<or> pt_role p \<noteq> RoleBond then max_loss ps maxLoss
      else let l = Loss p in max_loss ps (if l > maxLoss then l else maxLoss))"

definition client_fecLossEstimate :: "ClientTunnel \<Rightarrow> rat" where
  "client_fecLossEstimate t = max_loss (ct_paths t) 0"

definition client_sendFECParity ::
  "tunnel_env \<Rightarrow> writer \<Rightarrow> instant \<Rightarrow> parityShard \<Rightarrow> ClientTunnel \<Rightarrow> writes \<times> ClientTunnel" where
  "client_sendFECParity E wr now c t =
     (case healthiestPath now (client_Paths t) of
        None \<Rightarrow> ([], t)
      | Some (k, p) \<Rightarrow>
          (case fecPayload c of
             None \<Rightarrow> ([], t)
           | Some payload \<Rightarrow>
               let (psn, p) = NextSendPSN p;
                   t = set_path k p t
               in case sealPacket (te_aead E) TypeFEC (ct_sessionIndex t) (pt_id p)
                         (parityHeader psn (pt_id p) payload c) payload (ct_sess t) of
                    (Inl e, s) \<Rightarrow> ([], t\<lparr>ct_sess := s\<rparr>)
                  | (Inr pkt, s) \<Rightarrow> (if wr (pt_id p) pkt then [(pt_id p, pkt)] else [], t\<lparr>ct_sess := s\<rparr>)))"

fun client_sendParities ::
  "tunnel_env \<Rightarrow> writer \<Rightarrow> instant \<Rightarrow> parityShard list \<Rightarrow> ClientTunnel \<Rightarrow> writes \<times> ClientTunnel" where
  "client_sendParities E wr now [] t = ([], t)"
| "client_sendParities E wr now (c # cs) t =
     (let (ws, t) = client_sendFECParity E wr now c t;
          (ws', t) = client_sendParities E wr now cs t
      in (ws @ ws', t))"

text \<open>Recording a packet that went out, with the parity this may close.\<close>

definition client_record ::
  "tunnel_env \<Rightarrow> writer \<Rightarrow> instant \<Rightarrow> (u16 \<times> nat \<times> bytes) option \<Rightarrow> ClientTunnel \<Rightarrow> writes \<times> ClientTunnel" where
  "client_record E wr now slot t =
     (case (slot, ct_fecSend t) of
        (Some (genID, genIndex, inner), Some f) \<Rightarrow>
          (let (cs, f) = Record (te_arch E) (te_rs E) (client_fecLossEstimate t) genID genIndex inner f
           in client_sendParities E wr now cs (t\<lparr>ct_fecSend := Some f\<rparr>))
      | _ \<Rightarrow> ([], t))"

definition client_sendSpeed ::
  "tunnel_env \<Rightarrow> writer \<Rightarrow> instant \<Rightarrow> bytes \<Rightarrow> ClientTunnel \<Rightarrow> writes \<times> ClientTunnel" where
  "client_sendSpeed E wr now payload t =
     (let (choice, sch) = sched_Next (te_arch E) (ct_sched t) (client_schedPaths now t) (int (length payload));
          t = t\<lparr>ct_sched := sch\<rparr>
      in case Option.bind choice (\<lambda>sp. path_index (sp_ID sp) (ct_paths t)) of
           None \<Rightarrow> ([], t)
         | Some k \<Rightarrow>
             let gsn = ct_sendGSN t;
                 t = t\<lparr>ct_sendGSN := gsn + 1\<rparr>;
                 (psn, p) = NextSendPSN (ct_paths t ! k);
                 t = set_path k p t;
                 (header, slot, fs) = fecStamp now (dataHeader gsn psn (pt_id p) 0 payload) payload (ct_fecSend t);
                 t = t\<lparr>ct_fecSend := fs\<rparr>
             in case sealPacket (te_aead E) TypeData (ct_sessionIndex t) (pt_id p) header payload (ct_sess t) of
                  (Inl e, s) \<Rightarrow> ([], t\<lparr>ct_sess := s\<rparr>)
                | (Inr pkt, s) \<Rightarrow>
                    let t = t\<lparr>ct_sess := s\<rparr>
                    in if \<not> wr (pt_id p) pkt then ([], t)
                       else let t = t\<lparr>ct_Stats := count_tx payload (ct_Stats t)\<rparr>;
                                t = set_path k (path_tx payload p) t;
                                (ws, t) = client_record E wr now slot t
                            in ((pt_id p, pkt) # ws, t))"

text \<open>The loop over the chosen paths; \<open>i\<close> counts the copies.\<close>

fun client_dup_loop ::
  "tunnel_env \<Rightarrow> writer \<Rightarrow> u64 \<Rightarrow> bytes \<Rightarrow> nat \<Rightarrow> nat list \<Rightarrow> ClientTunnel \<Rightarrow> writes \<times> ClientTunnel" where
  "client_dup_loop E wr gsn payload i [] t = ([], t)"
| "client_dup_loop E wr gsn payload i (k # ks) t =
     (let (psn, p) = NextSendPSN (ct_paths t ! k);
          t = set_path k p t;
          flags = (if i > 0 then 0 OR FlagDUP else 0);
          (r, s) = sealPacket (te_aead E) TypeData (ct_sessionIndex t) (pt_id p)
                     (dataHeader gsn psn (pt_id p) flags payload) payload (ct_sess t);
          t = t\<lparr>ct_sess := s\<rparr>;
          (w, t) = (case r of
                      Inl e \<Rightarrow> ([], t)
                    | Inr pkt \<Rightarrow> if \<not> wr (pt_id p) pkt then ([], t)
                                 else ([(pt_id p, pkt)], set_path k (path_tx payload p) t));
          (ws, t) = client_dup_loop E wr gsn payload (i + 1) ks t
      in (w @ ws, t))"

definition client_sendRedundant ::
  "tunnel_env \<Rightarrow> writer \<Rightarrow> instant \<Rightarrow> bytes \<Rightarrow> ClientTunnel \<Rightarrow> writes \<times> ClientTunnel" where
  "client_sendRedundant E wr now payload t =
     (let paths = selectRedundantPaths now (client_Paths t) DupFactor
      in if length paths = 0 then ([], t)
         else let gsn = ct_sendGSN t;
                  t = t\<lparr>ct_sendGSN := gsn + 1\<rparr>;
                  (ws, t) = client_dup_loop E wr gsn payload 0 (map fst paths) t
              in (ws, t\<lparr>ct_Stats := count_tx payload (ct_Stats t)\<rparr>))"

text \<open>One packet read from the TUN device.\<close>

definition client_tunToNet ::
  "tunnel_env \<Rightarrow> writer \<Rightarrow> instant \<Rightarrow> bytes \<Rightarrow> ClientTunnel \<Rightarrow> writes \<times> ClientTunnel" where
  "client_tunToNet E wr now payload t =
     (if ct_mode t = ModeRedundant then client_sendRedundant E wr now payload t
      else client_sendSpeed E wr now payload t)"

definition client_fecMaintenance ::
  "tunnel_env \<Rightarrow> writer \<Rightarrow> instant \<Rightarrow> ClientTunnel \<Rightarrow> writes \<times> ClientTunnel" where
  "client_fecMaintenance E wr now t =
     (let (ws, t) =
            (case ct_fecSend t of
               None \<Rightarrow> ([], t)
             | Some f \<Rightarrow> let (cs, f) = Flush (te_arch E) (te_rs E) (client_fecLossEstimate t) now FECGenTimeout f
                         in client_sendParities E wr now cs (t\<lparr>ct_fecSend := Some f\<rparr>))
      in (ws, t\<lparr>ct_fecRecv := map_option (FEC_GC now second) (ct_fecRecv t)\<rparr>))"

section \<open>Receiving\<close>

definition client_onData :: "tunnel_env \<Rightarrow> instant \<Rightarrow> nat \<Rightarrow> OuterHeader \<Rightarrow> bytes \<Rightarrow> ClientTunnel \<Rightarrow> ClientTunnel" where
  "client_onData E now k oh ciphertext t =
     (case openPacket (te_aead E) oh (pt_id (ct_paths t ! k)) ciphertext (ct_sess t) of
        (Inl e, s) \<Rightarrow> t\<lparr>ct_sess := s, ct_Stats := count_err (ct_Stats t)\<rparr>
      | (Inr (inner, payload), s) \<Rightarrow>
          let p = snd (RecordRecv now (ct_paths t ! k));
              t = set_path k (path_rx payload p) (t\<lparr>ct_sess := s, ct_Stats := count_rx payload (ct_Stats t)\<rparr>)
          in t\<lparr>ct_reorderBuf := Push (reorderPacket inner payload) (ct_reorderBuf t),
               ct_fecRecv := fecKeep now inner payload (ct_fecRecv t)\<rparr>)"

definition client_onFEC :: "tunnel_env \<Rightarrow> instant \<Rightarrow> nat \<Rightarrow> OuterHeader \<Rightarrow> bytes \<Rightarrow> ClientTunnel \<Rightarrow> ClientTunnel" where
  "client_onFEC E now k oh ciphertext t =
     (case openPacket (te_aead E) oh (pt_id (ct_paths t ! k)) ciphertext (ct_sess t) of
        (Inl e, s) \<Rightarrow> t\<lparr>ct_sess := s, ct_Stats := count_err (ct_Stats t)\<rparr>
      | (Inr (inner, payload), s) \<Rightarrow>
          let t = set_path k (snd (RecordRecv now (ct_paths t ! k))) (t\<lparr>ct_sess := s\<rparr>)
          in case ct_fecRecv t of
               None \<Rightarrow> t
             | Some b \<Rightarrow>
                 let (rs, b) = fecParity E now inner payload b
                 in t\<lparr>ct_fecRecv := Some b, ct_Stats := countAll rs (ct_Stats t),
                      ct_reorderBuf := pushAll rs (ct_reorderBuf t)\<rparr>)"

definition client_onProbeAck :: "tunnel_env \<Rightarrow> instant \<Rightarrow> nat \<Rightarrow> OuterHeader \<Rightarrow> bytes \<Rightarrow> ClientTunnel \<Rightarrow> ClientTunnel" where
  "client_onProbeAck E now k oh ciphertext t =
     (case openControl (te_aead E) oh (pt_id (ct_paths t ! k)) ciphertext (ct_sess t) of
        (Inl e, s) \<Rightarrow> t\<lparr>ct_sess := s\<rparr>
      | (Inr payload, s) \<Rightarrow>
          let t = t\<lparr>ct_sess := s\<rparr>
          in case unmarshalCBOR (te_probeAck E) payload of
               Inl e \<Rightarrow> t
             | Inr ack \<Rightarrow> set_path k (HandleProbeAck (te_arch E) ack now (ct_paths t ! k)) t)"

definition client_onProbe ::
  "tunnel_env \<Rightarrow> writer \<Rightarrow> instant \<Rightarrow> nat \<Rightarrow> OuterHeader \<Rightarrow> bytes \<Rightarrow> ClientTunnel \<Rightarrow> writes \<times> ClientTunnel" where
  "client_onProbe E wr now k oh ciphertext t =
     (case openControl (te_aead E) oh (pt_id (ct_paths t ! k)) ciphertext (ct_sess t) of
        (Inl e, s) \<Rightarrow> ([], t\<lparr>ct_sess := s\<rparr>)
      | (Inr payload, s) \<Rightarrow>
          let t = t\<lparr>ct_sess := s\<rparr>
          in case unmarshalCBOR (te_probe E) payload of
               Inl e \<Rightarrow> ([], t)
             | Inr probe \<Rightarrow>
                 let (recvPSN, p) = RecordRecv now (ct_paths t ! k);
                     t = set_path k p t
                 in case marshalCBOR (te_probeAck E) \<lparr> pa_SentAtUnixNano = pb_SentAtUnixNano probe,
                           pa_SentPSN = pb_SentPSN probe, pa_RecvPSN = recvPSN \<rparr> of
                      Inl e \<Rightarrow> ([], t)
                    | Inr ackPayload \<Rightarrow>
                        (case sealControl (te_aead E) TypeProbeAck (ct_sessionIndex t) (pt_id p) ackPayload (ct_sess t) of
                           (Inl e, s) \<Rightarrow> ([], t\<lparr>ct_sess := s\<rparr>)
                         | (Inr pkt, s) \<Rightarrow> (if wr (pt_id p) pkt then [(pt_id p, pkt)] else [], t\<lparr>ct_sess := s\<rparr>)))"

text \<open>One datagram read on path \<open>k\<close>.\<close>

definition client_pathRead ::
  "tunnel_env \<Rightarrow> writer \<Rightarrow> instant \<Rightarrow> nat \<Rightarrow> bytes \<Rightarrow> ClientTunnel \<Rightarrow> writes \<times> ClientTunnel" where
  "client_pathRead E wr now k buf t =
     (case UnmarshalOuter buf of
        Inl e \<Rightarrow> ([], t)
      | Inr (oh, consumed) \<Rightarrow>
          if oh_Type oh = TypeData then ([], client_onData E now k oh (drop consumed buf) t)
          else if oh_Type oh = TypeFEC then ([], client_onFEC E now k oh (drop consumed buf) t)
          else if oh_Type oh = TypeProbeAck then ([], client_onProbeAck E now k oh (drop consumed buf) t)
          else if oh_Type oh = TypeProbe then client_onProbe E wr now k oh (drop consumed buf) t
          else ([], t))"

text \<open>One packet taken from the reorder buffer's channel and written to the TUN device.\<close>

definition client_drainReorderToTun :: "ClientTunnel \<Rightarrow> bytes option \<times> ClientTunnel" where
  "client_drainReorderToTun t =
     (case b_out (ct_reorderBuf t) of
        [] \<Rightarrow> (None, t)
      | pkt # rest \<Rightarrow> (Some (take 65536 (pk_Payload pkt)), t\<lparr>ct_reorderBuf := (ct_reorderBuf t)\<lparr>b_out := rest\<rparr>\<rparr>))"

section \<open>Probing\<close>

record probe_loop =
  pl_interval :: duration
  pl_lastAckSeen :: int
  pl_first :: bool

definition probe_start :: probe_loop where
  "probe_start = \<lparr> pl_interval = ProbeInterval, pl_lastAckSeen = 0, pl_first = True \<rparr>"

text \<open>One tick of \<^verbatim>\<open>probeLoop\<close>; \<open>None\<close> when the loop ends. The clock is read at the tick, when the send is noted
  and when the idle time is computed.\<close>

definition client_probeTick ::
  "tunnel_env \<Rightarrow> writer \<Rightarrow> instant \<Rightarrow> instant \<Rightarrow> instant \<Rightarrow> nat \<Rightarrow> probe_loop \<Rightarrow> ClientTunnel
     \<Rightarrow> writes \<times> probe_loop option \<times> ClientTunnel" where
  "client_probeTick E wr now sentAt idleAt k pl t =
     (if pt_state (ct_paths t ! k) = StateDead then ([], None, t)
      else let p = ct_paths t ! k;
               p = (if \<not> pl_first pl \<and> pt_lastProbeAckAt p = pl_lastAckSeen pl then HandleProbeMissed now p else p);
               pl = pl\<lparr>pl_first := False\<rparr>;
               (probe, p) = BuildProbe now p;
               t = set_path k p t;
               (ws, t) = (case marshalCBOR (te_probe E) probe of
                            Inl e \<Rightarrow> ([], t)
                          | Inr payload \<Rightarrow>
                              (case sealControl (te_aead E) TypeProbe (ct_sessionIndex t) (pt_id p) payload (ct_sess t) of
                                 (Inl e, s) \<Rightarrow> ([], t\<lparr>ct_sess := s\<rparr>)
                               | (Inr pkt, s) \<Rightarrow> (if wr (pt_id p) pkt then [(pt_id p, pkt)] else [], t\<lparr>ct_sess := s\<rparr>)));
               lastSentAt = sentAt;
               pl = pl\<lparr>pl_lastAckSeen := pt_lastProbeAckAt p\<rparr>;
               idle = time_Sub idleAt lastSentAt > ProbeIdleAfter;
               want = (if idle then ProbeIdleInterval else ProbeInterval);
               pl = (if want \<noteq> pl_interval pl then pl\<lparr>pl_interval := want\<rparr> else pl)
           in (ws, Some pl, t))"

section \<open>Dialling\<close>

text \<open>What one attempt meets on the network.\<close>

datatype attempt = WriteFails | DeadlineFails | ReadFails | Reads bytes

text \<open>\<open>dial\<close> is the outcome of opening a socket; a socket handed in by the platform is used as it is.\<close>

definition dialPath :: "(PathSpec \<Rightarrow> bool) \<Rightarrow> PathSpec \<Rightarrow> bool" where
  "dialPath dial spec = (if sp_Conn spec then True else dial spec)"

definition acked :: "tunnel_env \<Rightarrow> u8 \<Rightarrow> bytes \<Rightarrow> session \<Rightarrow> (dial_error + unit) \<times> session" where
  "acked E i buf s =
     (case UnmarshalOuter buf of
        Inl e \<Rightarrow> (Inl ErrUnexpected, s)
      | Inr (oh, consumed) \<Rightarrow>
          if oh_Type oh \<noteq> TypeCtrl then (Inl ErrUnexpected, s)
          else case openControl (te_aead E) oh i (drop consumed buf) s of
                 (Inl e, s) \<Rightarrow> (Inl (ErrOpen e), s)
               | (Inr payload, s) \<Rightarrow>
                   (case unmarshalCBOR (te_pathAddAck E) payload of
                      Inl e \<Rightarrow> (Inl ErrMalformedAck, s)
                    | Inr ack \<Rightarrow> if ca_Kind ack \<noteq> ''path_add_ack'' \<or> ca_PathID ack \<noteq> i then (Inl ErrMalformedAck, s)
                                 else (Inr (), s)))"

text \<open>The attempts of \<^verbatim>\<open>addPath\<close>: the last error, or success.\<close>

fun addPath_loop :: "tunnel_env \<Rightarrow> u8 \<Rightarrow> attempt list \<Rightarrow> dial_error option \<Rightarrow> session \<Rightarrow> (dial_error option + unit) \<times> session" where
  "addPath_loop E i [] lastErr s = (Inl lastErr, s)"
| "addPath_loop E i (WriteFails # as) lastErr s = addPath_loop E i as (Some ErrSend) s"
| "addPath_loop E i (DeadlineFails # as) lastErr s = addPath_loop E i as (Some ErrDeadline) s"
| "addPath_loop E i (ReadFails # as) lastErr s = addPath_loop E i as (Some ErrTimeout) s"
| "addPath_loop E i (Reads buf # as) lastErr s =
     (case acked E i buf s of
        (Inl e, s) \<Rightarrow> addPath_loop E i as (Some e) s
      | (Inr _, s) \<Rightarrow> (Inr (), s))"

definition addPath ::
  "tunnel_env \<Rightarrow> (PathSpec \<Rightarrow> bool) \<Rightarrow> u8 \<Rightarrow> PathSpec \<Rightarrow> attempt list \<Rightarrow> ClientTunnel
     \<Rightarrow> (dial_error option + unit) \<times> ClientTunnel" where
  "addPath E dial i spec attempts t =
     (if \<not> dialPath dial spec then (Inl (Some ErrDial), t)
      else case marshalCBOR (te_pathAdd E) \<lparr> pad_PathID = i \<rparr> of
             Inl e \<Rightarrow> (Inl (Some (ErrPayload e)), t)
           | Inr payload \<Rightarrow>
               (case sealControl (te_aead E) TypePathAdd (ct_sessionIndex t) i payload (ct_sess t) of
                  (Inl e, s) \<Rightarrow> (Inl (Some (ErrOpen e)), t\<lparr>ct_sess := s\<rparr>)
                | (Inr pkt, s) \<Rightarrow>
                    (case addPath_loop E i attempts None s of
                       (Inl e, s) \<Rightarrow> (Inl e, t\<lparr>ct_sess := s\<rparr>)
                     | (Inr _, s) \<Rightarrow> (Inr (), t\<lparr>ct_sess := s, ct_paths := ct_paths t @ [SetActive (NewPath i)]\<rparr>))))"


text \<open>The first message: initiator, its Noise message without payload, and the datagram that carries it.\<close>

definition initPacket :: "'hs noise_impl \<Rightarrow> ClientConfig \<Rightarrow> dial_error + (bytes \<times> 'hs)" where
  "initPacket N cfg =
     (case NewInitiator N (cf_ClientKey cfg) (cf_RelayPubKey cfg) of
        Inl e \<Rightarrow> Inl (ErrInitiator e)
      | Inr hs \<Rightarrow>
          (case WriteInit N hs [] of
             Inl e \<Rightarrow> Inl (ErrWriteInit e)
           | Inr (initMsg, hs) \<Rightarrow>
               (case MarshalOuter (replicate (OuterPrefixLen + length initMsg) 0)
                       \<lparr> oh_Type = TypeHandshakeInit, oh_Version = Version, oh_SessionIndex = 0,
                         oh_Nonce = replicate NonceLen 0 \<rparr> of
                  Inl e \<Rightarrow> Inl (ErrOuter e)
                | Inr pkt \<Rightarrow> Inr (put_at OuterPrefixLen initMsg pkt, hs))))"

text \<open>A response read within the deadline.\<close>

definition handshake_response ::
  "'hs noise_impl \<Rightarrow> tunnel_env \<Rightarrow> 'hs \<Rightarrow> bytes \<Rightarrow> dial_error + (HandshakeRespPayload \<times> session)" where
  "handshake_response N E hs buf =
     (case UnmarshalOuter buf of
        Inl e \<Rightarrow> Inl ErrUnexpected
      | Inr (oh, consumed) \<Rightarrow>
          if oh_Type oh \<noteq> TypeHandshakeResp then Inl ErrUnexpected
          else case ReadResponse N hs (drop consumed buf) of
                 Inl e \<Rightarrow> Inl (ErrResponse e)
               | Inr (payload, s) \<Rightarrow>
                   (case UnmarshalHandshakeResp (te_handshakeResp E) payload of
                      Inl e \<Rightarrow> Inl (ErrPayload e)
                    | Inr cfgPush \<Rightarrow> Inr (cfgPush, s)))"

fun handshake_loop ::
  "'hs noise_impl \<Rightarrow> tunnel_env \<Rightarrow> 'hs \<Rightarrow> attempt list \<Rightarrow> dial_error \<Rightarrow> dial_error + (HandshakeRespPayload \<times> session)" where
  "handshake_loop N E hs [] lastErr = Inl lastErr"
| "handshake_loop N E hs (WriteFails # as) lastErr = handshake_loop N E hs as ErrSend"
| "handshake_loop N E hs (DeadlineFails # as) lastErr = handshake_loop N E hs as ErrDeadline"
| "handshake_loop N E hs (ReadFails # as) lastErr = handshake_loop N E hs as ErrTimeout"
| "handshake_loop N E hs (Reads buf # as) lastErr =
     (case handshake_response N E hs buf of
        Inl e \<Rightarrow> handshake_loop N E hs as e
      | Inr r \<Rightarrow> Inr r)"

definition newTunnel :: "instant \<Rightarrow> ClientConfig \<Rightarrow> HandshakeRespPayload \<Rightarrow> session \<Rightarrow> scheduler \<Rightarrow> ClientTunnel" where
  "newTunnel now cfg resp s sch =
     \<lparr> ct_sess = s, ct_sessionIndex = hr_SessionIndex resp, ct_tunnelIP = hr_TunnelIP resp, ct_startedAt = now, ct_sched = sch,
       ct_reorderBuf = reorder_New DefaultDeadlineMin 0, ct_mode = cf_Mode cfg,
       ct_fecSend = (if cf_FEC cfg then Some newFECSender else None),
       ct_fecRecv = (if cf_FEC cfg then Some newFECGenBuffer else None),
       ct_paths = [SetActive (NewPath 0)], ct_pathErrs = [], ct_sendGSN = 0, ct_Stats = zeroStats \<rparr>"

text \<open>The further paths; one that fails to join is noted and left out.\<close>

fun addPaths ::
  "tunnel_env \<Rightarrow> (PathSpec \<Rightarrow> bool) \<Rightarrow> (nat \<Rightarrow> nat \<Rightarrow> attempt) \<Rightarrow> nat \<Rightarrow> nat \<Rightarrow> PathSpec list \<Rightarrow> ClientTunnel \<Rightarrow> ClientTunnel" where
  "addPaths E dial att tries i [] t = t"
| "addPaths E dial att tries i (spec # specs) t =
     (case addPath E dial (of_nat i) spec (map (att i) [0..<tries]) t of
        (Inl (Some e), t) \<Rightarrow> addPaths E dial att tries (i + 1) specs (t\<lparr>ct_pathErrs := ct_pathErrs t @ [e]\<rparr>)
      | (Inl None, t) \<Rightarrow> addPaths E dial att tries (i + 1) specs t
      | (Inr _, t) \<Rightarrow> addPaths E dial att tries (i + 1) specs t)"

definition zeroSpec :: PathSpec where
  "zeroSpec = \<lparr> sp_LocalAddr = [], sp_Device = [], sp_Conn = False \<rparr>"

text \<open>\<open>resolved\<close> is the outcome of resolving the relay's address and \<open>att i j\<close> what try \<open>j\<close> on path \<open>i\<close> meets. The
  number of tries is positive, so the first loop always ends with an error or a session.\<close>

definition DialHandshake ::
  "'hs noise_impl \<Rightarrow> tunnel_env \<Rightarrow> instant \<Rightarrow> bool \<Rightarrow> (PathSpec \<Rightarrow> bool) \<Rightarrow> (nat \<Rightarrow> nat \<Rightarrow> attempt) \<Rightarrow> ClientConfig
     \<Rightarrow> dial_error + (ClientTunnel \<times> HandshakeRespPayload)" where
  "DialHandshake N E now resolved dial att cfg =
     (if \<not> resolved then Inl ErrResolve
      else let paths = (if length (cf_Paths cfg) = 0 then [zeroSpec] else cf_Paths cfg)
           in if \<not> dialPath dial (paths ! 0) then Inl ErrDial
              else case initPacket N cfg of
                     Inl e \<Rightarrow> Inl e
                   | Inr (initPkt, hs) \<Rightarrow>
                       let tries = (if cf_HandshakeTry cfg \<le> 0 then 3 else nat (cf_HandshakeTry cfg))
                       in case handshake_loop N E hs (map (att 0) [0..<tries]) ErrUnexpected of
                            Inl e \<Rightarrow> Inl e
                          | Inr (resp, s) \<Rightarrow>
                              (case sched_New (cf_Scheduler cfg) of
                                 None \<Rightarrow> Inl ErrScheduler
                               | Some sch \<Rightarrow>
                                   Inr (addPaths E dial att tries 1 (drop 1 paths) (newTunnel now cfg resp s sch), resp)))"

end
