(* ===== verification/Relay.thy ===== *)
theory Relay
  imports Tunnel Pool Client
begin

text \<open>
  The relay, \<^verbatim>\<open>core/bond/relay.go\<close>: its session table, the dispatch of datagrams, the handshake, path
  registration, probing, the data plane in both directions and the liveness loop. Sessions are objects
  reached from three tables, so the relay keeps them in a list and the tables hold positions in it; a
  session replaced by a reconnect stays in the list, unreachable. \<open>wr\<close> says whether a datagram to an
  address can be written.
\<close>

section \<open>Addresses\<close>

record UDPAddr =
  ua_IP :: bytes
  ua_Port :: int

definition ip_Equal :: "bytes \<Rightarrow> bytes \<Rightarrow> bool" where
  "ip_Equal a b =
     (if length a = length b then a = b
      else if length a = 4 \<and> length b = 16 then take 12 b = v4InV6Prefix \<and> a = drop 12 b
      else if length a = 16 \<and> length b = 4 then take 12 a = v4InV6Prefix \<and> drop 12 a = b
      else False)"

definition udpAddrEqual :: "UDPAddr \<Rightarrow> UDPAddr \<Rightarrow> bool" where
  "udpAddrEqual a b \<longleftrightarrow> ip_Equal (ua_IP a) (ua_IP b) \<and> ua_Port a = ua_Port b"

definition destIPv4 :: "bytes \<Rightarrow> bytes option" where
  "destIPv4 pkt = (if length pkt < 20 \<or> drop_bit 4 (pkt ! 0) \<noteq> 4 then None else Some (sub_slice 16 20 pkt))"

text \<open>\<^verbatim>\<open>IP.String\<close> of a four-byte address: dotted decimal.\<close>

definition digit :: "nat \<Rightarrow> char" where "digit n = char_of (48 + n)"

definition dec_byte :: "byte \<Rightarrow> string" where
  "dec_byte b =
     (let n = unat b
      in if n < 10 then [digit n]
         else if n < 100 then [digit (n div 10), digit (n mod 10)]
         else [digit (n div 100), digit (n div 10 mod 10), digit (n mod 10)])"

fun ip_String :: "bytes \<Rightarrow> string" where
  "ip_String [] = []"
| "ip_String [b] = dec_byte b"
| "ip_String (b # bs) = dec_byte b @ CHR ''.'' # ip_String bs"

section \<open>State\<close>

record RelayConfig =
  rc_RelayKey :: Keypair
  rc_PoolCIDR :: "(bytes \<times> ipnet) option"
  rc_DNS :: "gostring list"
  rc_MTU :: int
  rc_KeepAlive :: int
  rc_Scheduler :: string
  rc_Mode :: Mode
  rc_FEC :: bool

record relaySession =
  rs_sessionIndex :: u32
  rs_sess :: session
  rs_tunnelIP :: bytes
  rs_startedAt :: instant
  rs_paths :: "u8 \<Rightarrow> UDPAddr path option"
  rs_sched :: scheduler
  rs_reorderBuf :: buffer
  rs_mode :: Mode
  rs_fecSend :: "fecSender option"
  rs_fecRecv :: "fecGenBuffer option"
  rs_sendGSN :: u64
  rs_Stats :: Stats

record Relay =
  r_cfg :: RelayConfig
  r_pool :: IPPool
  r_sessions :: "relaySession list"
  r_byIndex :: "(u32 \<times> nat) list"
  r_byTunnelIP :: "string \<Rightarrow> nat option"
  r_byClientKey :: "bytes \<Rightarrow> nat option"
  r_Stats :: Stats

type_synonym sends = "(UDPAddr \<times> bytes) list"
type_synonym sender = "UDPAddr \<Rightarrow> bytes \<Rightarrow> bool"

definition set_sess :: "nat \<Rightarrow> relaySession \<Rightarrow> Relay \<Rightarrow> Relay" where
  "set_sess j rs r = r\<lparr>r_sessions := (r_sessions r)[j := rs]\<rparr>"

definition set_rpath :: "u8 \<Rightarrow> UDPAddr path \<Rightarrow> relaySession \<Rightarrow> relaySession" where
  "set_rpath i p rs = rs\<lparr>rs_paths := (rs_paths rs)(i \<mapsto> p)\<rparr>"

definition newRelaySession :: "instant \<Rightarrow> u32 \<Rightarrow> session \<Rightarrow> bytes \<Rightarrow> RelayConfig \<Rightarrow> relaySession" where
  "newRelaySession now sessionIndex sess tunnelIP cfg =
     (let sch = (case sched_New (rc_Scheduler cfg) of None \<Rightarrow> SRoundRobin NewRoundRobin | Some s \<Rightarrow> s)
      in \<lparr> rs_sessionIndex = sessionIndex, rs_sess = sess, rs_tunnelIP = tunnelIP, rs_startedAt = now,
           rs_paths = Map.empty, rs_sched = sch, rs_reorderBuf = reorder_New DefaultDeadlineMin 0,
           rs_mode = rc_Mode cfg,
           rs_fecSend = (if rc_FEC cfg then Some newFECSender else None),
           rs_fecRecv = (if rc_FEC cfg then Some newFECGenBuffer else None),
           rs_sendGSN = 0, rs_Stats = zeroStats \<rparr>)"

text \<open>Ranging over the path map, in the order the environment gives.\<close>

definition pathSlice :: "tunnel_env \<Rightarrow> relaySession \<Rightarrow> (u8 \<times> UDPAddr path) list" where
  "pathSlice E rs = List.map_filter (\<lambda>i. map_option (Pair i) (rs_paths rs i)) (te_pathOrder E)"

definition relay_schedPaths :: "tunnel_env \<Rightarrow> instant \<Rightarrow> relaySession \<Rightarrow> spath list" where
  "relay_schedPaths E now rs = map (\<lambda>(i, p). sched_view now p) (pathSlice E rs)"

definition relay_fecLossEstimate :: "tunnel_env \<Rightarrow> relaySession \<Rightarrow> rat" where
  "relay_fecLossEstimate E rs = max_loss (map snd (pathSlice E rs)) 0"

definition getOrCreatePath :: "u8 \<Rightarrow> UDPAddr \<Rightarrow> relaySession \<Rightarrow> UDPAddr path \<times> bool \<times> relaySession" where
  "getOrCreatePath i addr rs =
     (case rs_paths rs i of
        None \<Rightarrow> let p = SetRemoteAddr addr (NewPath i) in (p, True, set_rpath i p rs)
      | Some p \<Rightarrow> (p, False, rs))"

definition NewRelay :: "bool \<Rightarrow> RelayConfig \<Rightarrow> Relay option" where
  "NewRelay listening cfg =
     (if sched_New (rc_Scheduler cfg) = None then None
      else case NewIPPool (rc_PoolCIDR cfg) of
             Inl e \<Rightarrow> None
           | Inr pool \<Rightarrow>
               if \<not> listening then None
               else Some \<lparr> r_cfg = cfg, r_pool = pool, r_sessions = [], r_byIndex = [], r_byTunnelIP = Map.empty,
                           r_byClientKey = Map.empty, r_Stats = zeroStats \<rparr>)"

text \<open>The sessions reachable by their index.\<close>

definition live_sessions :: "Relay \<Rightarrow> nat list" where
  "live_sessions r = map snd (r_byIndex r)"

definition expire :: "instant \<Rightarrow> 'a path \<Rightarrow> 'a path" where
  "expire now p =
     (if pt_state p \<noteq> StateDead \<and> LastActivity now p > PathDeadTimeout then p\<lparr>pt_state := StateDead\<rparr> else p)"

definition livenessTick :: "instant \<Rightarrow> Relay \<Rightarrow> Relay" where
  "livenessTick now r =
     fold (\<lambda>j r. let rs = r_sessions r ! j
                 in set_sess j (rs\<lparr>rs_paths := (\<lambda>i. map_option (expire now) (rs_paths rs i))\<rparr>) r)
          (live_sessions r) r"

section \<open>Sending\<close>

definition relay_sendFECParity ::
  "tunnel_env \<Rightarrow> sender \<Rightarrow> instant \<Rightarrow> parityShard \<Rightarrow> relaySession \<Rightarrow> sends \<times> relaySession" where
  "relay_sendFECParity E wr now c rs =
     (case healthiestPath now (pathSlice E rs) of
        None \<Rightarrow> ([], rs)
      | Some (i, p) \<Rightarrow>
          (case pt_remoteAddr p of
             None \<Rightarrow> ([], rs)
           | Some addr \<Rightarrow>
               (case fecPayload c of
                  None \<Rightarrow> ([], rs)
                | Some payload \<Rightarrow>
                    let (psn, p) = NextSendPSN p;
                        rs = set_rpath i p rs
                    in case sealPacket (te_aead E) TypeFEC (rs_sessionIndex rs) (pt_id p)
                              (parityHeader psn (pt_id p) payload c) payload (rs_sess rs) of
                         (Inl e, s) \<Rightarrow> ([], rs\<lparr>rs_sess := s\<rparr>)
                       | (Inr out, s) \<Rightarrow> (if wr addr out then [(addr, out)] else [], rs\<lparr>rs_sess := s\<rparr>))))"

fun relay_sendParities ::
  "tunnel_env \<Rightarrow> sender \<Rightarrow> instant \<Rightarrow> parityShard list \<Rightarrow> relaySession \<Rightarrow> sends \<times> relaySession" where
  "relay_sendParities E wr now [] rs = ([], rs)"
| "relay_sendParities E wr now (c # cs) rs =
     (let (ws, rs) = relay_sendFECParity E wr now c rs;
          (ws', rs) = relay_sendParities E wr now cs rs
      in (ws @ ws', rs))"

definition relay_record ::
  "tunnel_env \<Rightarrow> sender \<Rightarrow> instant \<Rightarrow> (u16 \<times> nat \<times> bytes) option \<Rightarrow> relaySession \<Rightarrow> sends \<times> relaySession" where
  "relay_record E wr now slot rs =
     (case (slot, rs_fecSend rs) of
        (Some (genID, genIndex, inner), Some f) \<Rightarrow>
          (let (cs, f) = Record (te_arch E) (te_rs E) (relay_fecLossEstimate E rs) genID genIndex inner f
           in relay_sendParities E wr now cs (rs\<lparr>rs_fecSend := Some f\<rparr>))
      | _ \<Rightarrow> ([], rs))"

text \<open>The sends return the relay's own counters next to the session.\<close>

definition relay_sendSpeed ::
  "tunnel_env \<Rightarrow> sender \<Rightarrow> instant \<Rightarrow> bytes \<Rightarrow> relaySession \<Rightarrow> Stats \<Rightarrow> sends \<times> relaySession \<times> Stats" where
  "relay_sendSpeed E wr now pkt rs st =
     (let (choice, sch) = sched_Next (te_arch E) (rs_sched rs) (relay_schedPaths E now rs) (int (length pkt));
          rs = rs\<lparr>rs_sched := sch\<rparr>
      in case Option.bind choice (\<lambda>sp. rs_paths rs (sp_ID sp)) of
           None \<Rightarrow> ([], rs, st)
         | Some p \<Rightarrow>
             (case pt_remoteAddr p of
                None \<Rightarrow> ([], rs, st)
              | Some addr \<Rightarrow>
                  let gsn = rs_sendGSN rs;
                      rs = rs\<lparr>rs_sendGSN := gsn + 1\<rparr>;
                      (psn, p) = NextSendPSN p;
                      rs = set_rpath (pt_id p) p rs;
                      (header, slot, fs) = fecStamp now (dataHeader gsn psn (pt_id p) 0 pkt) pkt (rs_fecSend rs);
                      rs = rs\<lparr>rs_fecSend := fs\<rparr>
                  in case sealPacket (te_aead E) TypeData (rs_sessionIndex rs) (pt_id p) header pkt (rs_sess rs) of
                       (Inl e, s) \<Rightarrow> ([], rs\<lparr>rs_sess := s\<rparr>, st)
                     | (Inr out, s) \<Rightarrow>
                         let rs = rs\<lparr>rs_sess := s\<rparr>
                         in if \<not> wr addr out then ([], rs, st)
                            else let st = count_tx pkt st;
                                     rs = set_rpath (pt_id p) (path_tx pkt p) rs;
                                     (ws, rs) = relay_record E wr now slot rs
                                 in ((addr, out) # ws, rs, st)))"

fun relay_dup_loop ::
  "tunnel_env \<Rightarrow> sender \<Rightarrow> u64 \<Rightarrow> bytes \<Rightarrow> nat \<Rightarrow> (u8 \<times> UDPAddr path) list \<Rightarrow> relaySession \<Rightarrow> sends \<times> relaySession" where
  "relay_dup_loop E wr gsn pkt k [] rs = ([], rs)"
| "relay_dup_loop E wr gsn pkt k ((i, p) # ps) rs =
     (case pt_remoteAddr p of
        None \<Rightarrow> relay_dup_loop E wr gsn pkt (k + 1) ps rs
      | Some addr \<Rightarrow>
          let (psn, p) = NextSendPSN p;
              rs = set_rpath i p rs;
              flags = (if k > 0 then 0 OR FlagDUP else 0);
              (res, s) = sealPacket (te_aead E) TypeData (rs_sessionIndex rs) (pt_id p)
                           (dataHeader gsn psn (pt_id p) flags pkt) pkt (rs_sess rs);
              rs = rs\<lparr>rs_sess := s\<rparr>;
              (w, rs) = (case res of
                           Inl e \<Rightarrow> ([], rs)
                         | Inr out \<Rightarrow> if \<not> wr addr out then ([], rs)
                                      else ([(addr, out)], set_rpath i (path_tx pkt p) rs));
              (ws, rs) = relay_dup_loop E wr gsn pkt (k + 1) ps rs
          in (w @ ws, rs))"

definition relay_sendRedundant ::
  "tunnel_env \<Rightarrow> sender \<Rightarrow> instant \<Rightarrow> bytes \<Rightarrow> relaySession \<Rightarrow> Stats \<Rightarrow> sends \<times> relaySession \<times> Stats" where
  "relay_sendRedundant E wr now pkt rs st =
     (let paths = selectRedundantPaths now (pathSlice E rs) DupFactor
      in if length paths = 0 then ([], rs, st)
         else let gsn = rs_sendGSN rs;
                  rs = rs\<lparr>rs_sendGSN := gsn + 1\<rparr>;
                  (ws, rs) = relay_dup_loop E wr gsn pkt 0 paths rs
              in (ws, rs, count_tx pkt st))"

text \<open>One packet read from the TUN device.\<close>

definition serveTUN :: "tunnel_env \<Rightarrow> sender \<Rightarrow> instant \<Rightarrow> bytes \<Rightarrow> Relay \<Rightarrow> sends \<times> Relay" where
  "serveTUN E wr now pkt r =
     (case destIPv4 pkt of
        None \<Rightarrow> ([], r)
      | Some dst \<Rightarrow>
          (case r_byTunnelIP r (ip_String dst) of
             None \<Rightarrow> ([], r)
           | Some j \<Rightarrow>
               let rs = r_sessions r ! j;
                   (ws, rs, st) = (if rs_mode rs = ModeRedundant then relay_sendRedundant E wr now pkt rs (r_Stats r)
                                   else relay_sendSpeed E wr now pkt rs (r_Stats r))
               in (ws, (set_sess j rs r)\<lparr>r_Stats := st\<rparr>)))"

definition maintain_session :: "tunnel_env \<Rightarrow> sender \<Rightarrow> instant \<Rightarrow> relaySession \<Rightarrow> sends \<times> relaySession" where
  "maintain_session E wr now rs =
     (let (ws, rs) =
            (case rs_fecSend rs of
               None \<Rightarrow> ([], rs)
             | Some f \<Rightarrow> let (cs, f) = Flush (te_arch E) (te_rs E) (relay_fecLossEstimate E rs) now FECGenTimeout f
                         in relay_sendParities E wr now cs (rs\<lparr>rs_fecSend := Some f\<rparr>))
      in (ws, rs\<lparr>rs_fecRecv := map_option (FEC_GC now second) (rs_fecRecv rs)\<rparr>))"

fun maintain_all :: "tunnel_env \<Rightarrow> sender \<Rightarrow> instant \<Rightarrow> nat list \<Rightarrow> Relay \<Rightarrow> sends \<times> Relay" where
  "maintain_all E wr now [] r = ([], r)"
| "maintain_all E wr now (j # js) r =
     (let (ws, rs) = maintain_session E wr now (r_sessions r ! j);
          (ws', r) = maintain_all E wr now js (set_sess j rs r)
      in (ws @ ws', r))"

definition FECMaintenanceTick :: "tunnel_env \<Rightarrow> sender \<Rightarrow> instant \<Rightarrow> Relay \<Rightarrow> sends \<times> Relay" where
  "FECMaintenanceTick E wr now r = maintain_all E wr now (live_sessions r) r"

definition drainSessionReorder :: "nat \<Rightarrow> Relay \<Rightarrow> bytes option \<times> Relay" where
  "drainSessionReorder j r =
     (let rs = r_sessions r ! j
      in case b_out (rs_reorderBuf rs) of
           [] \<Rightarrow> (None, r)
         | pkt # rest \<Rightarrow>
             (Some (take 65536 (pk_Payload pkt)),
              set_sess j (rs\<lparr>rs_reorderBuf := (rs_reorderBuf rs)\<lparr>b_out := rest\<rparr>\<rparr>) r))"


text \<open>The callback of the deadline timer of a session's reorder buffer, armed for head \<open>g\<close>.\<close>

definition relay_deadline :: "nat \<Rightarrow> u64 \<Rightarrow> Relay \<Rightarrow> Relay" where
  "relay_deadline j g r =
     (let rs = r_sessions r ! j in set_sess j (rs\<lparr>rs_reorderBuf := onDeadline g (rs_reorderBuf rs)\<rparr>) r)"

text \<open>The supervisor of the drains: the indices it has seen, and the sessions it started a drain for.\<close>

record drains =
  dr_seen :: "u32 list"
  dr_started :: "nat list"

definition noDrains :: drains where "noDrains = \<lparr> dr_seen = [], dr_started = [] \<rparr>"

fun serve_loop :: "(u32 \<times> nat) list \<Rightarrow> drains \<Rightarrow> drains" where
  "serve_loop [] d = d"
| "serve_loop ((idx, j) # rest) d =
     serve_loop rest (if idx \<notin> set (dr_seen d)
                      then d\<lparr>dr_seen := idx # dr_seen d, dr_started := j # dr_started d\<rparr> else d)"

definition ServeReorderTick :: "Relay \<Rightarrow> drains \<Rightarrow> drains" where
  "ServeReorderTick r d = serve_loop (r_byIndex r) d"

section \<open>Receiving\<close>

definition lookup_session :: "OuterHeader \<Rightarrow> Relay \<Rightarrow> nat option" where
  "lookup_session oh r = map_of (r_byIndex r) (oh_SessionIndex oh)"

definition ciphertext0PathIDHint :: "OuterHeader \<Rightarrow> u8" where
  "ciphertext0PathIDHint oh = oh_Nonce oh ! 0"

text \<open>An authenticated packet reached the relay on a path: the path is created or its address follows the
  source, and the arrival is recorded.\<close>

definition relay_arrival :: "instant \<Rightarrow> u8 \<Rightarrow> UDPAddr \<Rightarrow> relaySession \<Rightarrow> UDPAddr path \<times> relaySession" where
  "relay_arrival now pathID src rs =
     (let (p, isNew, rs) = getOrCreatePath pathID src rs;
          p = (if \<not> isNew
               then (case pt_remoteAddr p of
                       None \<Rightarrow> SetRemoteAddr src p
                     | Some addr \<Rightarrow> if \<not> udpAddrEqual addr src then SetRemoteAddr src p else p)
               else p);
          p = snd (RecordRecv now p)
      in (p, set_rpath pathID p rs))"

definition relay_handleData ::
  "tunnel_env \<Rightarrow> instant \<Rightarrow> OuterHeader \<Rightarrow> bytes \<Rightarrow> UDPAddr \<Rightarrow> Relay \<Rightarrow> Relay" where
  "relay_handleData E now oh ciphertext src r =
     (case lookup_session oh r of
        None \<Rightarrow> r
      | Some j \<Rightarrow>
          let rs = r_sessions r ! j;
              pathID = ciphertext0PathIDHint oh
          in case openPacket (te_aead E) oh pathID ciphertext (rs_sess rs) of
               (Inl e, s) \<Rightarrow>
                 (set_sess j (rs\<lparr>rs_sess := s, rs_Stats := count_err (rs_Stats rs)\<rparr>) r)\<lparr>r_Stats := count_err (r_Stats r)\<rparr>
             | (Inr (inner, payload), s) \<Rightarrow>
                 let rs = rs\<lparr>rs_sess := s\<rparr>;
                     (p, rs) = relay_arrival now pathID src rs;
                     rs = rs\<lparr>rs_Stats := count_rx payload (rs_Stats rs)\<rparr>;
                     rs = set_rpath pathID (path_rx payload p) rs;
                     rs = rs\<lparr>rs_reorderBuf := Push (reorderPacket inner payload) (rs_reorderBuf rs),
                             rs_fecRecv := fecKeep now inner payload (rs_fecRecv rs)\<rparr>
                 in (set_sess j rs r)\<lparr>r_Stats := count_rx payload (r_Stats r)\<rparr>)"

definition relay_handleFEC ::
  "tunnel_env \<Rightarrow> instant \<Rightarrow> OuterHeader \<Rightarrow> bytes \<Rightarrow> UDPAddr \<Rightarrow> Relay \<Rightarrow> Relay" where
  "relay_handleFEC E now oh ciphertext src r =
     (case lookup_session oh r of
        None \<Rightarrow> r
      | Some j \<Rightarrow>
          let rs = r_sessions r ! j;
              pathID = ciphertext0PathIDHint oh
          in case openPacket (te_aead E) oh pathID ciphertext (rs_sess rs) of
               (Inl e, s) \<Rightarrow>
                 (set_sess j (rs\<lparr>rs_sess := s, rs_Stats := count_err (rs_Stats rs)\<rparr>) r)\<lparr>r_Stats := count_err (r_Stats r)\<rparr>
             | (Inr (inner, payload), s) \<Rightarrow>
                 let rs = snd (relay_arrival now pathID src (rs\<lparr>rs_sess := s\<rparr>))
                 in case rs_fecRecv rs of
                      None \<Rightarrow> set_sess j rs r
                    | Some b \<Rightarrow>
                        let (recs, b) = fecParity E now inner payload b;
                            rs = rs\<lparr>rs_fecRecv := Some b, rs_Stats := countAll recs (rs_Stats rs),
                                    rs_reorderBuf := pushAll recs (rs_reorderBuf rs)\<rparr>
                        in (set_sess j rs r)\<lparr>r_Stats := countAll recs (r_Stats r)\<rparr>)"

definition relay_handlePathAdd ::
  "tunnel_env \<Rightarrow> sender \<Rightarrow> OuterHeader \<Rightarrow> bytes \<Rightarrow> UDPAddr \<Rightarrow> Relay \<Rightarrow> sends \<times> Relay" where
  "relay_handlePathAdd E wr oh ciphertext src r =
     (case lookup_session oh r of
        None \<Rightarrow> ([], r)
      | Some j \<Rightarrow>
          let rs = r_sessions r ! j;
              pathID = ciphertext0PathIDHint oh;
              (res, s) = openControl (te_aead E) oh pathID ciphertext (rs_sess rs);
              rs = rs\<lparr>rs_sess := s\<rparr>
          in case res of
               Inl e \<Rightarrow> ([], set_sess j rs r)
             | Inr payload \<Rightarrow>
                 (case unmarshalCBOR (te_pathAdd E) payload of
                    Inl e \<Rightarrow> ([], set_sess j rs r)
                  | Inr req \<Rightarrow>
                      let (p, _, rs) = getOrCreatePath (pad_PathID req) src rs;
                          rs = set_rpath (pad_PathID req) (SetActive p) rs
                      in case marshalCBOR (te_pathAddAck E) \<lparr> ca_Kind = ''path_add_ack'', ca_PathID = pad_PathID req \<rparr> of
                           Inl e \<Rightarrow> ([], set_sess j rs r)
                         | Inr ackPayload \<Rightarrow>
                             (case sealControl (te_aead E) TypeCtrl (rs_sessionIndex rs) (pad_PathID req) ackPayload (rs_sess rs) of
                                (Inl e, s) \<Rightarrow> ([], set_sess j (rs\<lparr>rs_sess := s\<rparr>) r)
                              | (Inr ackPkt, s) \<Rightarrow>
                                  (if wr src ackPkt then [(src, ackPkt)] else [], set_sess j (rs\<lparr>rs_sess := s\<rparr>) r))))"

definition relay_handleProbe ::
  "tunnel_env \<Rightarrow> sender \<Rightarrow> instant \<Rightarrow> OuterHeader \<Rightarrow> bytes \<Rightarrow> UDPAddr \<Rightarrow> Relay \<Rightarrow> sends \<times> Relay" where
  "relay_handleProbe E wr now oh ciphertext src r =
     (case lookup_session oh r of
        None \<Rightarrow> ([], r)
      | Some j \<Rightarrow>
          let rs = r_sessions r ! j;
              pathID = ciphertext0PathIDHint oh;
              (res, s) = openControl (te_aead E) oh pathID ciphertext (rs_sess rs);
              rs = rs\<lparr>rs_sess := s\<rparr>
          in case res of
               Inl e \<Rightarrow> ([], set_sess j rs r)
             | Inr payload \<Rightarrow>
                 (case unmarshalCBOR (te_probe E) payload of
                    Inl e \<Rightarrow> ([], set_sess j rs r)
                  | Inr probe \<Rightarrow>
                      let (p, isNew, rs) = getOrCreatePath pathID src rs;
                          p = (if \<not> isNew then SetRemoteAddr src p else p);
                          (recvPSN, p) = RecordRecv now p;
                          rs = set_rpath pathID p rs
                      in case marshalCBOR (te_probeAck E) \<lparr> pa_SentAtUnixNano = pb_SentAtUnixNano probe,
                                pa_SentPSN = pb_SentPSN probe, pa_RecvPSN = recvPSN \<rparr> of
                           Inl e \<Rightarrow> ([], set_sess j rs r)
                         | Inr ackPayload \<Rightarrow>
                             (case sealControl (te_aead E) TypeProbeAck (rs_sessionIndex rs) pathID ackPayload (rs_sess rs) of
                                (Inl e, s) \<Rightarrow> ([], set_sess j (rs\<lparr>rs_sess := s\<rparr>) r)
                              | (Inr ackPkt, s) \<Rightarrow>
                                  (if wr src ackPkt then [(src, ackPkt)] else [], set_sess j (rs\<lparr>rs_sess := s\<rparr>) r))))"

definition relay_handleProbeAck ::
  "tunnel_env \<Rightarrow> instant \<Rightarrow> OuterHeader \<Rightarrow> bytes \<Rightarrow> Relay \<Rightarrow> Relay" where
  "relay_handleProbeAck E now oh ciphertext r =
     (case lookup_session oh r of
        None \<Rightarrow> r
      | Some j \<Rightarrow>
          let rs = r_sessions r ! j;
              pathID = ciphertext0PathIDHint oh
          in case rs_paths rs pathID of
               None \<Rightarrow> r
             | Some p \<Rightarrow>
                 let (res, s) = openControl (te_aead E) oh pathID ciphertext (rs_sess rs);
                     rs = rs\<lparr>rs_sess := s\<rparr>
                 in case res of
                      Inl e \<Rightarrow> set_sess j rs r
                    | Inr payload \<Rightarrow>
                        (case unmarshalCBOR (te_probeAck E) payload of
                           Inl e \<Rightarrow> set_sess j rs r
                         | Inr ack \<Rightarrow> set_sess j (set_rpath pathID (HandleProbeAck (te_arch E) ack now p) rs) r))"

text \<open>The random draws of \<^verbatim>\<open>newSessionIndex\<close>; \<open>None\<close> while none of them is usable, when the loop goes on drawing.\<close>

fun newSessionIndex :: "u32 list \<Rightarrow> Relay \<Rightarrow> u32 option" where
  "newSessionIndex [] r = None"
| "newSessionIndex (idx # draws) r =
     (if idx = 0 then newSessionIndex draws r
      else if map_of (r_byIndex r) idx \<noteq> None then newSessionIndex draws r
      else Some idx)"

text \<open>The address and index a client gets: its old ones on a reconnect, fresh ones otherwise. The allocated
  address is taken from the pool whatever becomes of the handshake.\<close>

definition assign_address :: "u32 list \<Rightarrow> bytes \<Rightarrow> Relay \<Rightarrow> (bytes \<times> u32) option \<times> Relay" where
  "assign_address draws clientKey r =
     (case r_byClientKey r clientKey of
        Some j \<Rightarrow> (Some (rs_tunnelIP (r_sessions r ! j), rs_sessionIndex (r_sessions r ! j)), r)
      | None \<Rightarrow>
          (case Allocate (r_pool r) of
             (Inl e, pool) \<Rightarrow> (None, r\<lparr>r_pool := pool\<rparr>)
           | (Inr ip, pool) \<Rightarrow>
               (case newSessionIndex draws r of
                  None \<Rightarrow> (None, r\<lparr>r_pool := pool\<rparr>)
                | Some idx \<Rightarrow> (Some (ip, idx), r\<lparr>r_pool := pool\<rparr>))))"

definition gateway_String :: "IPPool \<Rightarrow> string" where
  "gateway_String pool = (case Gateway pool of Inl e \<Rightarrow> [] | Inr ip \<Rightarrow> ip_String ip)"

text \<open>Entering a session under its index, address and client key.\<close>

definition install :: "relaySession \<Rightarrow> bytes \<Rightarrow> Relay \<Rightarrow> Relay" where
  "install rs clientKey r =
     (let j = length (r_sessions r)
      in r\<lparr>r_sessions := r_sessions r @ [rs],
           r_byIndex := AList.update (rs_sessionIndex rs) j (r_byIndex r),
           r_byTunnelIP := (r_byTunnelIP r)(ip_String (rs_tunnelIP rs) \<mapsto> j),
           r_byClientKey := (r_byClientKey r)(clientKey \<mapsto> j)\<rparr>)"

definition PathZero :: u8 where "PathZero = 0"

definition respPayload :: "u32 \<Rightarrow> bytes \<Rightarrow> Relay \<Rightarrow> HandshakeRespPayload" where
  "respPayload sessionIndex tunnelIP r =
     \<lparr> hr_SessionIndex = sessionIndex, hr_TunnelIP = ip_String tunnelIP, hr_Prefix = int (Prefix (r_pool r)),
       hr_GatewayIP = gateway_String (r_pool r), hr_DNS = rc_DNS (r_cfg r), hr_MTU = rc_MTU (r_cfg r),
       hr_KeepaliveSec = rc_KeepAlive (r_cfg r) \<rparr>"

definition relay_handleHandshakeInit ::
  "'hs noise_impl \<Rightarrow> tunnel_env \<Rightarrow> sender \<Rightarrow> instant \<Rightarrow> u32 list \<Rightarrow> bytes \<Rightarrow> UDPAddr \<Rightarrow> Relay \<Rightarrow> sends \<times> Relay" where
  "relay_handleHandshakeInit N E wr now draws msg src r =
     (case NewResponder N (rc_RelayKey (r_cfg r)) of
        Inl e \<Rightarrow> ([], r)
      | Inr hs \<Rightarrow>
          (case ReadInit N hs msg of
             Inl e \<Rightarrow> ([], r)
           | Inr (_, clientKey, hs) \<Rightarrow>
               (case assign_address draws clientKey r of
                  (None, r) \<Rightarrow> ([], r)
                | (Some (tunnelIP, sessionIndex), r) \<Rightarrow>
                    (case HandshakeResp_Marshal (te_handshakeResp E) (respPayload sessionIndex tunnelIP r) of
                       Inl e \<Rightarrow> ([], r)
                     | Inr payload \<Rightarrow>
                         (case WriteResponse N hs payload of
                            Inl e \<Rightarrow> ([], r)
                          | Inr (respMsg, sess) \<Rightarrow>
                              let rs = newRelaySession now sessionIndex sess tunnelIP (r_cfg r);
                                  (p0, _, rs) = getOrCreatePath PathZero src rs;
                                  rs = set_rpath PathZero (SetActive p0) rs;
                                  r = install rs clientKey r
                              in case MarshalOuter (replicate (OuterPrefixLen + length respMsg) 0)
                                        \<lparr> oh_Type = TypeHandshakeResp, oh_Version = Version,
                                          oh_SessionIndex = sessionIndex, oh_Nonce = replicate NonceLen 0 \<rparr> of
                                   Inl e \<Rightarrow> ([], r)
                                 | Inr out \<Rightarrow>
                                     let out = put_at OuterPrefixLen respMsg out
                                     in (if wr src out then [(src, out)] else [], r))))))"

definition handleUDP ::
  "'hs noise_impl \<Rightarrow> tunnel_env \<Rightarrow> sender \<Rightarrow> instant \<Rightarrow> u32 list \<Rightarrow> bytes \<Rightarrow> UDPAddr \<Rightarrow> Relay \<Rightarrow> sends \<times> Relay" where
  "handleUDP N E wr now draws buf src r =
     (case UnmarshalOuter buf of
        Inl e \<Rightarrow> ([], r)
      | Inr (oh, consumed) \<Rightarrow>
          let rest = drop consumed buf
          in if oh_Type oh = TypeHandshakeInit then relay_handleHandshakeInit N E wr now draws rest src r
             else if oh_Type oh = TypeData then ([], relay_handleData E now oh rest src r)
             else if oh_Type oh = TypeFEC then ([], relay_handleFEC E now oh rest src r)
             else if oh_Type oh = TypePathAdd then relay_handlePathAdd E wr oh rest src r
             else if oh_Type oh = TypeProbe then relay_handleProbe E wr now oh rest src r
             else if oh_Type oh = TypeProbeAck then ([], relay_handleProbeAck E now oh rest r)
             else ([], r))"

end
