(* ===== verification/Relay_Props.thy ===== *)
theory Relay_Props
  imports Relay_Inv
begin

text \<open>
  What the relay promises its clients, on top of the invariant of its tables: isolation of clients, silence
  towards datagrams that do not authenticate, and what becomes of a session whose client connects again.
\<close>

section \<open>Datagrams that do not authenticate\<close>

text \<open>A session after a rejected datagram: the same but for its error count and the windows it may have
  created, which accept what they accepted before.\<close>

definition unchanged_session :: "relaySession \<Rightarrow> relaySession \<Rightarrow> bool" where
  "unchanged_session rs rs' \<longleftrightarrow>
     rs' = rs\<lparr>rs_sess := rs_sess rs', rs_Stats := (rs_Stats rs)\<lparr>st_RxErrors := st_RxErrors (rs_Stats rs')\<rparr>\<rparr> \<and>
     sendKey (rs_sess rs') = sendKey (rs_sess rs) \<and> sendCtrs (rs_sess rs') = sendCtrs (rs_sess rs) \<and>
     recvKey (rs_sess rs') = recvKey (rs_sess rs) \<and> win_of (rs_sess rs') = win_of (rs_sess rs)"

definition unchanged :: "Relay \<Rightarrow> Relay \<Rightarrow> bool" where
  "unchanged r r' \<longleftrightarrow>
     r' = r\<lparr>r_sessions := r_sessions r', r_Stats := (r_Stats r)\<lparr>st_RxErrors := st_RxErrors (r_Stats r')\<rparr>\<rparr> \<and>
     list_all2 unchanged_session (r_sessions r) (r_sessions r')"

lemma unchanged_session_refl: "unchanged_session rs rs"
  by (simp add: unchanged_session_def)

lemma unchanged_refl: "unchanged r r"
  by (simp add: unchanged_def list_all2_refl unchanged_session_refl)

lemma unchanged_set_sess:
  assumes "unchanged_session (r_sessions r ! j) rs"
  shows "unchanged r (set_sess j rs r)" and "unchanged r ((set_sess j rs r)\<lparr>r_Stats := count_err (r_Stats r)\<rparr>)"
proof -
  have "list_all2 unchanged_session (r_sessions r) ((r_sessions r)[j := rs])"
    unfolding list_all2_conv_all_nth using assms unchanged_session_refl
    by (metis length_list_update nth_list_update_eq nth_list_update_neq)
  then show "unchanged r (set_sess j rs r)" and "unchanged r ((set_sess j rs r)\<lparr>r_Stats := count_err (r_Stats r)\<rparr>)"
    by (simp_all add: unchanged_def set_sess_def count_err_def)
qed

lemma Open_send_side: "sendKey (snd (Open A p c ad n s)) = sendKey s" "sendCtrs (snd (Open A p c ad n s)) = sendCtrs s"
  by (auto simp: Open_def recvWindow_eq Let_def split: option.split)

lemma unchanged_rejected:
  assumes "isl (fst (Open A p c ad n (rs_sess rs)))"
  shows "unchanged_session rs (rs\<lparr>rs_sess := snd (Open A p c ad n (rs_sess rs))\<rparr>)"
    and "unchanged_session rs (rs\<lparr>rs_sess := snd (Open A p c ad n (rs_sess rs)), rs_Stats := count_err (rs_Stats rs)\<rparr>)"
  using Open_fail_win [OF assms] Open_send_side [of A p c ad n "rs_sess rs"]
  by (simp_all add: unchanged_session_def count_err_def)

text \<open>The session a datagram addresses refuses it.\<close>

definition refused :: "tunnel_env \<Rightarrow> OuterHeader \<Rightarrow> bytes \<Rightarrow> Relay \<Rightarrow> bool" where
  "refused E oh ciphertext r =
     (case lookup_session oh r of
        None \<Rightarrow> True
      | Some j \<Rightarrow> isl (fst (Open (te_aead E) (oh_Nonce oh ! 0) ciphertext
                     (adBuf (oh_Type oh) (oh_Version oh) (oh_SessionIndex oh)) (oh_Nonce oh) (rs_sess (r_sessions r ! j)))))"

lemma openPacket_refused:
  assumes "isl (fst (Open A p c (adBuf (oh_Type oh) (oh_Version oh) (oh_SessionIndex oh)) (oh_Nonce oh) s))"
  obtains e where "openPacket A oh p c s =
    (Inl e, snd (Open A p c (adBuf (oh_Type oh) (oh_Version oh) (oh_SessionIndex oh)) (oh_Nonce oh) s))"
  using assms by (auto simp: openPacket_def Let_def isl_def split_beta split: sum.splits)

lemma openControl_refused:
  assumes "isl (fst (Open A p c (adBuf (oh_Type oh) (oh_Version oh) (oh_SessionIndex oh)) (oh_Nonce oh) s))"
  obtains e where "openControl A oh p c s =
    (Inl e, snd (Open A p c (adBuf (oh_Type oh) (oh_Version oh) (oh_SessionIndex oh)) (oh_Nonce oh) s))"
  using assms by (auto simp: openControl_def Let_def isl_def split_beta split: sum.splits)

lemmas control_handlers = relay_handleProbeAck_def relay_handlePathAdd_def relay_handleProbe_def

lemma refused_inert:
  assumes "refused E oh c r"
  shows "unchanged r (relay_handleData E now oh c src r) \<and> unchanged r (relay_handleFEC E now oh c src r) \<and>
    unchanged r (relay_handleProbeAck E now oh c r) \<and>
    fst (relay_handlePathAdd E wr oh c src r) = [] \<and> unchanged r (snd (relay_handlePathAdd E wr oh c src r)) \<and>
    fst (relay_handleProbe E wr now oh c src r) = [] \<and> unchanged r (snd (relay_handleProbe E wr now oh c src r))"
proof (cases "lookup_session oh r")
  case None
  then show ?thesis
    using unchanged_refl by (simp add: relay_handleData_def relay_handleFEC_def control_handlers)
next
  case (Some j)
  let ?o = "Open (te_aead E) (oh_Nonce oh ! 0) c (adBuf (oh_Type oh) (oh_Version oh) (oh_SessionIndex oh)) (oh_Nonce oh)
    (rs_sess (r_sessions r ! j))"
  have l: "isl (fst ?o)" using assms Some by (simp add: refused_def)
  obtain e e' where o: "openPacket (te_aead E) oh (oh_Nonce oh ! 0) c (rs_sess (r_sessions r ! j)) = (Inl e, snd ?o)"
      "openControl (te_aead E) oh (oh_Nonce oh ! 0) c (rs_sess (r_sessions r ! j)) = (Inl e', snd ?o)"
    using openPacket_refused [OF l] openControl_refused [OF l] by metis
  note u = unchanged_rejected [OF l, THEN unchanged_set_sess(1)] unchanged_rejected(2) [OF l, THEN unchanged_set_sess(2)]
    unchanged_refl
  show ?thesis
    using u o Some
    by (simp add: relay_handleData_def relay_handleFEC_def control_handlers ciphertext0PathIDHint_def Let_def
        split: option.split)
qed


section \<open>A completed handshake\<close>

text \<open>The session a completed handshake installs: fresh, with path 0 active towards the source of the
  datagram.\<close>

definition fresh_session :: "instant \<Rightarrow> u32 \<Rightarrow> session \<Rightarrow> bytes \<Rightarrow> UDPAddr \<Rightarrow> RelayConfig \<Rightarrow> relaySession" where
  "fresh_session now i s ip src cfg =
     set_rpath PathZero (SetActive (SetRemoteAddr src (NewPath PathZero))) (newRelaySession now i s ip cfg)"

lemma fresh_session_simps [simp]:
  "rs_sessionIndex (fresh_session now i s ip src cfg) = i" "rs_tunnelIP (fresh_session now i s ip src cfg) = ip"
  "rs_sess (fresh_session now i s ip src cfg) = s" "rs_sendGSN (fresh_session now i s ip src cfg) = 0"
  "rs_paths (fresh_session now i s ip src cfg) = [PathZero \<mapsto> SetActive (SetRemoteAddr src (NewPath PathZero))]"
  "rs_reorderBuf (fresh_session now i s ip src cfg) = reorder_New DefaultDeadlineMin 0"
  by (simp_all add: fresh_session_def newRelaySession_def set_rpath_def Let_def)

lemma outer_with:
  "length nonce = 12 \<Longrightarrow> MarshalOuter (replicate (20 + length m) 0)
      \<lparr> oh_Type = t, oh_Version = Version, oh_SessionIndex = i, oh_Nonce = nonce \<rparr> =
    Inr (outer_bytes t i nonce @ replicate (length m) 0)"
  "length nonce = 12 \<Longrightarrow> put_at 20 m (outer_bytes t i nonce @ replicate (length m) 0) = outer_bytes t i nonce @ m"
  by (simp_all add: MarshalOuter_eq wf_outer_def outer_bytes_def put_at_def)

lemma handshake_completes:
  assumes "NewResponder N (rc_RelayKey (r_cfg r)) = Inr hs" and "ReadInit N hs msg = Inr (p, key, hs')"
    and "assign_address draws key r = (Some (ip, i), r')"
    and "HandshakeResp_Marshal (te_handshakeResp E) (respPayload i ip r') = Inr payload"
    and "WriteResponse N hs' payload = Inr (respMsg, s)"
  shows "relay_handleHandshakeInit N E wr now draws msg src r =
    (let out = outer_bytes TypeHandshakeResp i (replicate 12 0) @ respMsg
     in (if wr src out then [(src, out)] else [], install (fresh_session now i s ip src (r_cfg r')) key r'))"
proof -
  have "getOrCreatePath PathZero src (newRelaySession now i s ip (r_cfg r')) =
      (SetRemoteAddr src (NewPath PathZero), True,
       set_rpath PathZero (SetRemoteAddr src (NewPath PathZero)) (newRelaySession now i s ip (r_cfg r')))"
    by (simp add: getOrCreatePath_def newRelaySession_def Let_def)
  moreover have "set_rpath PathZero q (set_rpath PathZero q' rs) = set_rpath PathZero q rs" for q q' rs
    by (simp add: set_rpath_def)
  ultimately show ?thesis
    using assms by (simp add: relay_handleHandshakeInit_def fresh_session_def outer_with Let_def)
qed

lemma handleUDP_init:
  "length nonce = 12 \<Longrightarrow> handleUDP N E wr now draws (outer_bytes TypeHandshakeInit i nonce @ msg) src r =
     relay_handleHandshakeInit N E wr now draws msg src r"
  by (simp add: handleUDP_def Let_def)

lemma assign_known_eq:
  "r_byClientKey r key = Some j \<Longrightarrow> assign_address draws key r = (Some (ip_at r j, idx_at r j), r)"
  by (simp add: assign_address_def)

section \<open>The drains\<close>

text \<open>The relay together with the supervisor that starts the drains; a drain runs once it is started.\<close>

datatype sup_event = SupRelay relay_event | SupTick

fun may_run :: "drains \<Rightarrow> relay_event \<Rightarrow> bool" where
  "may_run d (EvDrain j) = (j \<in> set (dr_started d))"
| "may_run d e = True"

fun sup_step :: "'hs noise_impl \<Rightarrow> tunnel_env \<Rightarrow> sender \<Rightarrow> Relay \<times> drains \<Rightarrow> sup_event \<Rightarrow> Relay \<times> drains" where
  "sup_step N E wr (r, d) (SupRelay e) = (if may_run d e then relay_step N E wr r e else r, d)"
| "sup_step N E wr (r, d) SupTick = (r, ServeReorderTick r d)"

lemma serve_loop_seen: "set (dr_seen d) \<subseteq> set (dr_seen (serve_loop xs d))"
  by (induction xs d rule: serve_loop.induct) auto

lemma serve_loop_started:
  "\<forall>i. (i, J) \<in> set xs \<longrightarrow> i \<in> set (dr_seen d) \<Longrightarrow> J \<notin> set (dr_started d) \<Longrightarrow>
     J \<notin> set (dr_started (serve_loop xs d))"
  by (induction xs d rule: serve_loop.induct) auto

lemma serve_loop_new:
  "distinct (map fst xs) \<Longrightarrow> (i, j) \<in> set xs \<Longrightarrow> i \<notin> set (dr_seen d) \<Longrightarrow> j \<in> set (dr_started (serve_loop xs d))"
proof -
  have mono: "set (dr_started d) \<subseteq> set (dr_started (serve_loop xs d))" for xs d
    by (induction xs d rule: serve_loop.induct) auto
  show "distinct (map fst xs) \<Longrightarrow> (i, j) \<in> set xs \<Longrightarrow> i \<notin> set (dr_seen d) \<Longrightarrow> j \<in> set (dr_started (serve_loop xs d))"
  proof (induction xs d rule: serve_loop.induct)
    case (2 idx k rest d)
    show ?case
    proof (cases "(i, j) = (idx, k)")
      case True
      with 2 mono [of "d\<lparr>dr_seen := idx # dr_seen d, dr_started := k # dr_started d\<rparr>" rest] show ?thesis by auto
    next
      case False
      with 2(3) have "(i, j) \<in> set rest" by auto
      moreover have "idx \<noteq> i" using 2(2) calculation by (auto simp: image_iff)
      ultimately show ?thesis using 2 by auto
    qed
  qed simp
qed

text \<open>Every step keeps the identity of the sessions there are.\<close>

lemma relay_step_ident:
  assumes "J < length (r_sessions r)"
  shows "J < length (r_sessions (relay_step N E wr r e)) \<and>
    ident (r_sessions (relay_step N E wr r e) ! J) = ident (r_sessions r ! J)"
proof -
  have same: "J < length (r_sessions r') \<and> ident (r_sessions r' ! J) = ident (r_sessions r ! J)" if "same_tables r r'" for r'
    using same_ident [OF that assms] same_length [OF that] assms by (simp add: ident_def)
  have inst: "J < length (r_sessions (install rs k r')) \<and> ident (r_sessions (install rs k r') ! J) = ident (r_sessions r ! J)"
    if "r_sessions r' = r_sessions r" for rs k r' using assms that by (simp add: install_simps nth_append)
  have asg: "r_sessions (snd (assign_address draws k r)) = r_sessions r" for draws k
    by (auto simp: assign_address_def split: option.split prod.split sum.split)
  have hs: "J < length (r_sessions r') \<and> ident (r_sessions r' ! J) = ident (r_sessions r ! J)"
    if "r' = snd (relay_handleHandshakeInit N E wr now draws msg src r)" for r' now draws msg src
    unfolding that relay_handleHandshakeInit_def
    using assms inst [OF asg] asg by (auto simp: Let_def split_beta split: sum.split prod.split option.split)
  have udp: "J < length (r_sessions (snd (handleUDP N E wr now draws buf src r))) \<and>
      ident (r_sessions (snd (handleUDP N E wr now draws buf src r)) ! J) = ident (r_sessions r ! J)" for now draws buf src
    using hs [OF refl] same [OF same_handleData] same [OF same_handleFEC] same [OF same_handlePathAdd]
      same [OF same_handleProbe] same [OF same_handleProbeAck] assms
    by (simp add: handleUDP_def Let_def split: sum.split prod.split)
  show ?thesis
    using udp same [OF same_serveTUN] same [OF same_liveness] same [OF same_maintain_all] same [OF same_drain] same [OF same_deadline]
    by (cases e) (simp_all add: FECMaintenanceTick_def)
qed

text \<open>A drain is started for a session in the list, and its index is noted.\<close>

definition sup_wf :: "u32 \<Rightarrow> u32 \<Rightarrow> Relay \<times> drains \<Rightarrow> bool" where
  "sup_wf lo hi = (\<lambda>(r, d). relay_ok lo hi r \<and>
     (\<forall>j \<in> set (dr_started d). j < length (r_sessions r) \<and> idx_at r j \<in> set (dr_seen d)))"

text \<open>A session in the list whose index is noted, but for which no drain was started.\<close>

definition sup_lost :: "u32 \<Rightarrow> u32 \<Rightarrow> nat \<Rightarrow> Relay \<times> drains \<Rightarrow> bool" where
  "sup_lost lo hi J = (\<lambda>(r, d). sup_wf lo hi (r, d) \<and> J < length (r_sessions r) \<and>
     idx_at r J \<in> set (dr_seen d) \<and> J \<notin> set (dr_started d))"

lemma serve_loop_wf:
  "\<forall>(i, j) \<in> set xs. P i j \<Longrightarrow> \<forall>j \<in> set (dr_started d). \<exists>i \<in> set (dr_seen d). P i j \<Longrightarrow>
     \<forall>j \<in> set (dr_started (serve_loop xs d)). \<exists>i \<in> set (dr_seen (serve_loop xs d)). P i j"
  by (induction xs d rule: serve_loop.induct) auto

lemma sup_wf_step:
  assumes "sup_wf lo hi (r, d)"
  shows "sup_wf lo hi (sup_step N E wr (r, d) e)"
proof (cases e)
  case (SupRelay ev)
  then show ?thesis
    using assms relayrun.inv_step [of lo hi r] relay_step_ident [of _ r N E wr ev]
    by (auto simp: sup_wf_def ident_def)
next
  case SupTick
  let ?P = "\<lambda>i j. j < length (r_sessions r) \<and> idx_at r j = i"
  have "\<forall>(i, j) \<in> set (r_byIndex r). ?P i j" using assms tables_byIndexD [of r] by (auto simp: sup_wf_def relay_ok_def)
  moreover have "\<forall>j \<in> set (dr_started d). \<exists>i \<in> set (dr_seen d). ?P i j" using assms by (auto simp: sup_wf_def)
  ultimately have "\<forall>j \<in> set (dr_started (serve_loop (r_byIndex r) d)). \<exists>i \<in> set (dr_seen (serve_loop (r_byIndex r) d)). ?P i j"
    by (rule serve_loop_wf)
  then show ?thesis using SupTick assms by (auto simp: sup_wf_def ServeReorderTick_def)
qed

interpretation suprun: step_system "sup_step N E wr" "sup_wf lo hi" "\<lambda>_. True"
  by unfold_locales (metis sup_wf_step surj_pair)

interpretation lostrun: step_system "sup_step N E wr" "sup_lost lo hi J" "\<lambda>_. True"
proof
  fix s e
  assume lost: "sup_lost lo hi J s"
  obtain r d where s: "s = (r, d)" by (cases s)
  have r: "sup_wf lo hi (r, d)" "J < length (r_sessions r)" "idx_at r J \<in> set (dr_seen d)" "J \<notin> set (dr_started d)"
    using lost by (simp_all add: sup_lost_def s)
  show "sup_lost lo hi J (sup_step N E wr s e)"
  proof (cases e)
    case (SupRelay ev)
    then show ?thesis
      using r sup_wf_step [OF r(1), of N E wr e] relay_step_ident [OF r(2), of N E wr ev]
      by (auto simp: sup_lost_def s ident_def)
  next
    case SupTick
    have "\<forall>i'. (i', J) \<in> set (r_byIndex r) \<longrightarrow> i' \<in> set (dr_seen d)"
      using tables_byIndexD [of r] r by (auto simp: sup_wf_def relay_ok_def)
    from serve_loop_started [OF this r(4)] serve_loop_seen [of d "r_byIndex r"] sup_wf_step [OF r(1), of N E wr e] r SupTick
    show ?thesis by (auto simp: sup_lost_def s ServeReorderTick_def)
  qed
qed

section \<open>A relay with one client\<close>

definition ex_env :: tunnel_env where
  "ex_env = \<lparr> te_arch = AMD64, te_aead = sum_aead, te_rs = xor_code, te_probe = (\<lambda>_. Some [], \<lambda>_. None),
     te_probeAck = (\<lambda>_. Some [], \<lambda>_. None), te_pathAdd = (\<lambda>_. Some [], \<lambda>_. None),
     te_pathAddAck = (\<lambda>_. Some [], \<lambda>_. None), te_handshakeResp = (\<lambda>_. Some [5], \<lambda>_. None),
     te_mapOrder = id, te_pathOrder = map of_nat [0..<256] \<rparr>"

definition ex_cfg :: RelayConfig where
  "ex_cfg = \<lparr> rc_RelayKey = \<lparr> kp_Private = replicate 32 3, kp_Public = replicate 32 4 \<rparr>,
     rc_PoolCIDR = Some ([10, 77, 0, 0], ex_net), rc_DNS = [], rc_MTU = 1400, rc_KeepAlive = 25,
     rc_Scheduler = '''', rc_Mode = ModeSpeed, rc_FEC = False \<rparr>"

definition ex_relay :: Relay where "ex_relay = the (NewRelay True ex_cfg)"
definition ex_src :: UDPAddr where "ex_src = \<lparr> ua_IP = [192, 0, 2, 1], ua_Port = 4000 \<rparr>"
definition ex_key :: bytes where "ex_key = replicate 32 2"
definition ex_init :: bytes where "ex_init = outer_bytes TypeHandshakeInit 0 (replicate 12 0) @ ex_key"

definition ex_relay1 :: Relay where
  "ex_relay1 = relay_step plain_noise ex_env (\<lambda>_ _. True) ex_relay (EvUDP 0 [7] ex_init ex_src)"

lemma ex_relay_new: "NewRelay True ex_cfg = Some ex_relay"
  by (simp add: ex_relay_def NewRelay_def ex_cfg_def ex_pool sched_New_def)

lemma ex_To4: "To4 [10, 77, 0, 0] = Some [10, 77, 0, 0]"
  by (simp add: To4_def)

lemma ex_relay_ok: "relay_ok (0x0A4D0002) (0x0A4D00FF) ex_relay"
  using relay_ok_new [OF ex_relay_new _ ex_net_ok ex_To4] by (simp add: ex_cfg_def)


definition ex_keys :: session where "ex_keys = newSession (replicate 32 2) (replicate 32 1)"

lemma ex_plain:
  "NewResponder plain_noise (rc_RelayKey (r_cfg ex_relay)) =
     Inr \<lparr> ph_init = False, ph_pub = replicate 32 4, ph_peer = [] \<rparr>"
  "ReadInit plain_noise \<lparr> ph_init = False, ph_pub = replicate 32 4, ph_peer = [] \<rparr> ex_key =
     Inr ([], ex_key, \<lparr> ph_init = False, ph_pub = replicate 32 4, ph_peer = ex_key \<rparr>)"
  "WriteResponse plain_noise \<lparr> ph_init = False, ph_pub = replicate 32 4, ph_peer = ex_key \<rparr> m = Inr (m, ex_keys)"
  "HandshakeResp_Marshal (te_handshakeResp ex_env) v = Inr [5]"
  using ex_relay_new
  by (simp_all add: ex_key_def ex_env_def ex_cfg_def NewRelay_def ex_pool sched_New_def plain_noise_def NewResponder_def
      ReadInit_def WriteResponse_def put_at_def KeyLen_def HandshakeResp_Marshal_def ex_keys_def ex_relay_def)

definition ex_session :: relaySession where
  "ex_session = fresh_session 0 7 ex_keys [10, 77, 0, 2] ex_src ex_cfg"

definition ex_pool1 :: IPPool where
  "ex_pool1 = \<lparr> ip_network = ex_net, ip_next = 0x0A4D0003, ip_end = 0x0A4D00FF, ip_released = [] \<rparr>"

lemma ex_alloc: "Allocate (r_pool ex_relay) = (Inr [10, 77, 0, 2], ex_pool1)"
proof -
  have "r_pool ex_relay = \<lparr> ip_network = ex_net, ip_next = 0x0A4D0002, ip_end = 0x0A4D00FF, ip_released = [] \<rparr>"
    by (simp add: ex_relay_def NewRelay_def ex_cfg_def ex_pool sched_New_def)
  moreover have "Allocate \<lparr> ip_network = ex_net, ip_next = 0x0A4D0002, ip_end = 0x0A4D00FF, ip_released = [] \<rparr> =
      (Inr [10, 77, 0, 2], ex_pool1)" by code_simp
  ultimately show ?thesis by simp
qed

lemma ex_relay_fields:
  "r_cfg ex_relay = ex_cfg" "r_sessions ex_relay = []" "r_byIndex ex_relay = []" "r_byClientKey ex_relay = Map.empty"
  "r_byTunnelIP ex_relay = Map.empty"
  by (simp_all add: ex_relay_def NewRelay_def ex_cfg_def ex_pool sched_New_def)

lemma ex_handshake:
  "handleUDP plain_noise ex_env (\<lambda>_ _. True) 0 [7] ex_init ex_src ex_relay =
     ([(ex_src, outer_bytes TypeHandshakeResp 7 (replicate 12 0) @ [5])],
      install ex_session ex_key (ex_relay\<lparr>r_pool := ex_pool1\<rparr>))"
proof -
  have a: "assign_address [7] ex_key ex_relay = (Some ([10, 77, 0, 2], 7), ex_relay\<lparr>r_pool := ex_pool1\<rparr>)"
    by (simp add: assign_address_def ex_relay_fields ex_alloc)
  show ?thesis
    using handshake_completes [OF ex_plain(1) ex_plain(2) a ex_plain(4) ex_plain(3), where wr = "\<lambda>_ _. True" and src = ex_src]
    by (simp add: ex_init_def handleUDP_init ex_session_def ex_relay_fields Let_def)
qed

lemma ex_relay1_eq: "ex_relay1 = install ex_session ex_key (ex_relay\<lparr>r_pool := ex_pool1\<rparr>)"
  by (simp add: ex_relay1_def ex_handshake)

lemma ex_relay1_fields:
  "r_sessions ex_relay1 = [ex_session]" "r_byIndex ex_relay1 = [(7, 0)]" "r_byClientKey ex_relay1 = [ex_key \<mapsto> 0]"
  "r_cfg ex_relay1 = ex_cfg" "r_Stats ex_relay1 = r_Stats ex_relay"
  by (simp_all add: ex_relay1_eq install_def ex_relay_fields ex_session_def Let_def)

lemma ex_relay1_ok: "relay_ok (0x0A4D0002) (0x0A4D00FF) ex_relay1"
  unfolding ex_relay1_def by (rule relayrun.inv_step [OF ex_relay_ok]) simp


section \<open>Properties\<close>

text \<open>C4. Clients of a relay stay apart: after any datagrams, traffic, timer ticks and reorder deadlines, the session of a client
  key is the one its index and its tunnel address lead to, its index is not 0, and no other client has
  the same index or the same address, so no packet of one client reaches the session of another.\<close>

theorem relay_isolation:
  assumes "NewRelay True cfg = Some r0" and "rc_PoolCIDR cfg = Some (ip, net)" and "pool_net base h net"
    and "To4 ip = Some ip4" and "r = foldl (relay_step N E wr) r0 evs" and "r_byClientKey r k = Some j"
  shows "j < length (r_sessions r) \<and> idx_at r j \<noteq> 0 \<and> map_of (r_byIndex r) (idx_at r j) = Some j \<and>
    r_byTunnelIP r (ip_String (ip_at r j)) = Some j \<and>
    (\<forall>k' j'. r_byClientKey r k' = Some j' \<longrightarrow> k' \<noteq> k \<longrightarrow> idx_at r j' \<noteq> idx_at r j \<and> ip_at r j' \<noteq> ip_at r j)"
proof -
  have t: "tables_ok r" using relay_run_ok [OF assms(1-4), of N E wr evs] assms(5) by (simp add: relay_ok_def)
  note own = tables_byClientKeyD [OF t assms(6)]
  have "j < length (r_sessions r)" "idx_at r j \<noteq> 0" using tables_byIndexD [OF t] own by blast+
  moreover have "map_of (r_byIndex r) (idx_at r j) = Some j"
    using own tables_distinct [OF t] by (simp add: map_of_is_SomeI)
  ultimately show ?thesis using own clients_apart [OF t _ assms(6)] by blast
qed

theorem relay_isolation_witness:
  "r_byClientKey ex_relay1 ex_key = Some 0 \<and> ex_relay1 = foldl (relay_step plain_noise ex_env (\<lambda>_ _. True)) ex_relay
     [EvUDP 0 [7] ex_init ex_src] \<and> idx_at ex_relay1 0 \<noteq> 0 \<and> map_of (r_byIndex ex_relay1) (idx_at ex_relay1 0) = Some 0"
proof -
  have "ex_relay1 = foldl (relay_step plain_noise ex_env (\<lambda>_ _. True)) ex_relay [EvUDP 0 [7] ex_init ex_src]"
    and "r_byClientKey ex_relay1 ex_key = Some 0"
    using ex_relay1_def ex_relay1_fields by simp_all
  with relay_isolation [OF ex_relay_new _ ex_net_ok ex_To4 this] show ?thesis by (simp add: ex_cfg_def)
qed

text \<open>C14. A datagram the addressed session cannot authenticate is inert: whatever its type short of a
  handshake, the relay answers nothing and keeps everything but its error counters, in particular every
  session's keys, send counters, accepted sequence numbers, paths with their addresses and reorder buffer.\<close>

theorem relay_unauthenticated_inert:
  assumes "UnmarshalOuter buf = Inr (oh, n)" and "oh_Type oh \<noteq> TypeHandshakeInit" and "refused E oh (drop n buf) r"
  shows "fst (handleUDP N E wr now draws buf src r) = [] \<and> unchanged r (snd (handleUDP N E wr now draws buf src r))"
  using refused_inert [OF assms(3)] assms(1,2) unchanged_refl by (simp add: handleUDP_def Let_def)

theorem relay_unauthenticated_inert_witness:
  "let buf = outer_bytes TypeData 7 (buildNonce 0 0) @ [1, 2, 3]
   in fst (handleUDP plain_noise ex_env (\<lambda>_ _. True) 5 [] buf ex_src ex_relay1) = [] \<and>
      unchanged ex_relay1 (snd (handleUDP plain_noise ex_env (\<lambda>_ _. True) 5 [] buf ex_src ex_relay1))"
proof -
  let ?oh = "\<lparr> oh_Type = TypeData, oh_Version = Version, oh_SessionIndex = 7, oh_Nonce = buildNonce 0 0 \<rparr>"
  have "UnmarshalOuter (outer_bytes TypeData 7 (buildNonce 0 0) @ [1, 2, 3]) = Inr (?oh, 20)" by simp
  moreover have "refused ex_env ?oh [1, 2, 3] ex_relay1"
    by (auto simp: refused_def lookup_session_def ex_relay1_fields ex_session_def ex_keys_def Open_def recvWindow_eq
        Let_def ex_env_def sum_aead_def sum_tag_def dest: arg_cong [of _ _ length])
  ultimately show ?thesis
    using relay_unauthenticated_inert [of "outer_bytes TypeData 7 (buildNonce 0 0) @ [1, 2, 3]" ?oh 20 ex_env ex_relay1]
    by (simp add: Let_def TypeData_def TypeHandshakeInit_def)
qed


text \<open>C16. A client that connects again, with a key the relay knows, keeps its index and its tunnel address and
  takes no new address from the pool: the relay answers with its old index, and all three tables lead to a
  fresh session, with a new sequence of packets, no memory of earlier counters, and path 0 alone, active
  towards the source of the datagram. The session it had is no longer reachable by any table.\<close>

theorem relay_reconnect:
  assumes "relay_ok lo hi r" and "r_byClientKey r key = Some j"
    and "NewResponder N (rc_RelayKey (r_cfg r)) = Inr hs" and "ReadInit N hs msg = Inr (p, key, hs')"
    and "HandshakeResp_Marshal (te_handshakeResp E) (respPayload (idx_at r j) (ip_at r j) r) = Inr payload"
    and "WriteResponse N hs' payload = Inr (respMsg, s)"
    and "length nonce = NonceLen" and "wr src (outer_bytes TypeHandshakeResp (idx_at r j) (replicate 12 0) @ respMsg)"
    and "(ws, r') = handleUDP N E wr now draws (outer_bytes TypeHandshakeInit si nonce @ msg) src r"
  shows "ws = [(src, outer_bytes TypeHandshakeResp (idx_at r j) (replicate 12 0) @ respMsg)] \<and> r_pool r' = r_pool r \<and>
    (\<exists>j'. r_byClientKey r' key = Some j' \<and> map_of (r_byIndex r') (idx_at r j) = Some j' \<and>
       r_byTunnelIP r' (ip_String (ip_at r j)) = Some j' \<and> rs_sess (r_sessions r' ! j') = s \<and>
       rs_sendGSN (r_sessions r' ! j') = 0 \<and> rs_reorderBuf (r_sessions r' ! j') = reorder_New DefaultDeadlineMin 0 \<and>
       rs_paths (r_sessions r' ! j') = [PathZero \<mapsto> SetActive (SetRemoteAddr src (NewPath PathZero))]) \<and>
    (\<forall>k. r_byClientKey r' k \<noteq> Some j) \<and> (\<forall>i. map_of (r_byIndex r') i \<noteq> Some j) \<and> (\<forall>a. r_byTunnelIP r' a \<noteq> Some j)"
proof -
  have t: "tables_ok r" using assms(1) by (simp add: relay_ok_def)
  have u: "handleUDP N E wr now draws (outer_bytes TypeHandshakeInit si nonce @ msg) src r =
      ([(src, outer_bytes TypeHandshakeResp (idx_at r j) (replicate 12 0) @ respMsg)],
       install (fresh_session now (idx_at r j) s (ip_at r j) src (r_cfg r)) key r)"
    using handshake_completes [OF assms(3,4) assign_known_eq [OF assms(2)] assms(5,6)] assms(7,8)
    by (simp add: handleUDP_init Let_def)
  then have r': "ws = [(src, outer_bytes TypeHandshakeResp (idx_at r j) (replicate 12 0) @ respMsg)]"
      "r' = install (fresh_session now (idx_at r j) s (ip_at r j) src (r_cfg r)) key r"
    using assms(9) by simp_all
  note own = tables_byClientKeyD [OF t assms(2)]
  have lt: "j < length (r_sessions r)" using tables_live_lt [OF t] own by blast
  have gone: "r_byClientKey r k \<noteq> Some j" if "k \<noteq> key" for k using tables_key_unique [OF t assms(2)] that by blast
  have gone_i: "map_of (r_byIndex r) i \<noteq> Some j" if "i \<noteq> idx_at r j" for i
    using tables_byIndexD [OF t] that map_of_SomeD by metis
  have gone_a: "r_byTunnelIP r a \<noteq> Some j" if "a \<noteq> ip_String (ip_at r j)" for a
    using tables_byTunnelIPD [OF t] that by blast
  show ?thesis
    unfolding r' install_simps
    using lt gone gone_i gone_a by (simp add: nth_append update_conv')
qed

theorem relay_reconnect_witness:
  "\<exists>ws r'. (ws, r') = handleUDP plain_noise ex_env (\<lambda>_ _. True) 9 [] ex_init ex_src ex_relay1 \<and>
     r_pool r' = r_pool ex_relay1 \<and> (\<forall>k. r_byClientKey r' k \<noteq> Some 0)"
proof -
  obtain ws r' where u: "(ws, r') = handleUDP plain_noise ex_env (\<lambda>_ _. True) 9 [] ex_init ex_src ex_relay1"
    by (metis surj_pair)
  have k: "r_byClientKey ex_relay1 ex_key = Some 0" by (simp add: ex_relay1_fields)
  have n: "NewResponder plain_noise (rc_RelayKey (r_cfg ex_relay1)) = Inr \<lparr> ph_init = False, ph_pub = replicate 32 4, ph_peer = [] \<rparr>"
    using ex_plain(1) by (simp add: ex_relay1_fields ex_relay_fields)
  from relay_reconnect [OF ex_relay1_ok k n ex_plain(2) ex_plain(4) ex_plain(3) _ _ u [unfolded ex_init_def]] u show ?thesis
    by auto
qed




end
