(* ===== verification/Streams.thy ===== *)
theory Streams
  imports Wire Reorder
begin

text \<open>
  The two directions of a tunnel have one contract: a sender numbers the packets it reads and seals each of
  them in one or more datagrams, a receiver opens datagrams and pushes them into a reorder buffer. The contracts
  of the two parties are locales here, and that the packets come out complete and in order is proved once, for
  any sender and any receiver that meet them; \<open>EndToEnd\<close> and \<open>Downstream\<close> interpret them for the two directions.
\<close>

section \<open>Datagrams\<close>

text \<open>A datagram that carries a packet of the stream: sealed on path \<open>i\<close> with counter \<open>c\<close>.\<close>

definition carries :: "aead_impl \<Rightarrow> bytes \<Rightarrow> u32 \<Rightarrow> u64 \<Rightarrow> bytes \<Rightarrow> u8 \<Rightarrow> u64 \<Rightarrow> bytes \<Rightarrow> bool" where
  "carries A key si gsn payload i c pkt \<longleftrightarrow>
     (\<exists>h. ih_GSN h = gsn \<and> \<not> HasFlag (ih_Flags h) FlagPUSH \<and>
        pkt = outer_bytes TypeData si (buildNonce i c) @
          ae_seal A key (buildNonce i c) (inner_bytes h @ payload) (adBuf TypeData Version si))"

text \<open>The packet a receiver makes of it.\<close>

definition stream_packet :: "u64 \<Rightarrow> bytes \<Rightarrow> packet" where
  "stream_packet g payload = \<lparr> pk_GSN = g, pk_Payload = payload, pk_Push = False \<rparr>"

text \<open>The path a datagram was sealed for, as its clear header shows it.\<close>

definition dgram_path :: "bytes \<Rightarrow> u8" where
  "dgram_path pkt = pkt ! OuterFixedLen"

lemma carries_path: "carries A key si gsn payload i c pkt \<Longrightarrow> dgram_path pkt = i"
  by (auto simp: carries_def dgram_path_def outer_bytes_def nth_append len_simps)

text \<open>Between two states of a session the datagrams \<open>ws\<close> were sealed, all of them carrying the same packet, with at
  most \<open>k\<close> counters used on any path.\<close>

definition numbered :: "aead_impl \<Rightarrow> bytes \<Rightarrow> u32 \<Rightarrow> nat \<Rightarrow> u64 \<Rightarrow> bytes \<Rightarrow> session \<Rightarrow> bytes list \<Rightarrow> session \<Rightarrow> bool" where
  "numbered A key si k gsn payload s ws s' \<longleftrightarrow>
     (\<exists>m. (\<forall>i. ctr_of s' i = ctr_of s i + of_nat (m i) \<and> m i \<le> k) \<and>
        (\<forall>pkt \<in> set ws. \<exists>i. \<exists>n < m i. carries A key si gsn payload i (ctr_of s i + of_nat n) pkt))"

lemma numbered_nothing [simp]: "numbered A key si k gsn payload s [] s"
  unfolding numbered_def by (auto intro: exI [of _ "\<lambda>_. 0"])

text \<open>Sealing the packet on one path and writing it, or failing to.\<close>

lemma numbered_one:
  assumes "ae_new A (sendKey s)" and "ih_GSN h = gsn" and "\<not> HasFlag (ih_Flags h) FlagPUSH"
    and "sealPacket A TypeData si i h payload s = (Inr pkt, s')" and "set ws \<subseteq> {pkt}" and "0 < k"
  shows "numbered A (sendKey s) si k gsn payload s ws s'"
proof -
  let ?c = "ctr_of s i"
  have s: "s' = s\<lparr>sendCtrs := (sendCtrs s)(i \<mapsto> ?c + 1)\<rparr>"
    and pkt: "carries A (sendKey s) si gsn payload i ?c pkt"
    using assms(1-4) by (auto simp: sealPacket_eq [OF assms(1)] Let_def carries_def)
  show ?thesis
    unfolding numbered_def
    by (intro exI [of _ "\<lambda>q. if q = i then 1 else 0"]) (use assms s pkt in \<open>auto intro!: exI [of _ i]\<close>)
qed

lemma seal_keeps_key:
  "ae_new A (sendKey s) \<Longrightarrow> sealPacket A t si i h payload s = (Inr pkt, s') \<Longrightarrow> sendKey s' = sendKey s"
  by (auto simp: sealPacket_eq Let_def)

lemma numbered_trans:
  assumes "numbered A key si k gsn payload s ws s1" and "numbered A key si k' gsn payload s1 ws' s'"
  shows "numbered A key si (k + k') gsn payload s (ws @ ws') s'"
proof -
  obtain m where m: "\<And>i. ctr_of s1 i = ctr_of s i + of_nat (m i)" "\<And>i. m i \<le> k"
      "\<forall>pkt \<in> set ws. \<exists>i. \<exists>n < m i. carries A key si gsn payload i (ctr_of s i + of_nat n) pkt"
    using assms(1) unfolding numbered_def by blast
  obtain m' where m': "\<And>i. ctr_of s' i = ctr_of s1 i + of_nat (m' i)" "\<And>i. m' i \<le> k'"
      "\<forall>pkt \<in> set ws'. \<exists>i. \<exists>n < m' i. carries A key si gsn payload i (ctr_of s1 i + of_nat n) pkt"
    using assms(2) unfolding numbered_def by blast
  have "\<exists>i. \<exists>n < m i + m' i. carries A key si gsn payload i (ctr_of s i + of_nat n) pkt" if "pkt \<in> set (ws @ ws')" for pkt
  proof (cases "pkt \<in> set ws")
    case True
    with m(3) show ?thesis by (meson trans_less_add1)
  next
    case False
    with that m'(3) obtain i n where "n < m' i" "carries A key si gsn payload i (ctr_of s1 i + of_nat n) pkt" by auto
    then show ?thesis by (intro exI [of _ i] exI [of _ "m i + n"]) (simp add: m(1) add.assoc)
  qed
  then show ?thesis
    unfolding numbered_def
    by (intro exI [of _ "\<lambda>i. m i + m' i"]) (simp add: m(1) m'(1) add.assoc add_mono [OF m(2) m'(2)])
qed

lemma numbered_mono: "numbered A key si k gsn payload s ws s' \<Longrightarrow> k \<le> k' \<Longrightarrow> numbered A key si k' gsn payload s ws s'"
  unfolding numbered_def by (blast intro: le_trans)

text \<open>Opening a datagram of the stream: its header, and the packet if the counter is new.\<close>

lemma open_carried:
  assumes A: "aead_ok A" "length key = KeyLen" and pkt: "carries A key si gsn payload i c pkt"
    and s: "recvKey s = key" "sess_rel s R"
  obtains oh h s' where "UnmarshalOuter pkt = Inr (oh, OuterPrefixLen)" "oh_Type oh = TypeData" "oh_SessionIndex oh = si" "oh_Nonce oh ! 0 = i"
    "openPacket A oh i (drop OuterPrefixLen pkt) s = (if fresh c (R i) then Inr (h, payload) else Inl (BCrypto ErrReplay), s')"
    "ih_GSN h = gsn" "\<not> HasFlag (ih_Flags h) FlagPUSH"
    "sess_rel s' (if fresh c (R i) then R(i := R i @ [c]) else R)" "recvKey s' = key"
proof -
  let ?n = "buildNonce i c" and ?ad = "adBuf TypeData Version si"
  obtain h where h: "ih_GSN h = gsn" "\<not> HasFlag (ih_Flags h) FlagPUSH"
      "pkt = outer_bytes TypeData si ?n @ ae_seal A key ?n (inner_bytes h @ payload) ?ad"
    using pkt unfolding carries_def by blast
  let ?oh = "\<lparr> oh_Type = TypeData, oh_Version = Version, oh_SessionIndex = si, oh_Nonce = ?n \<rparr>"
  let ?ct = "ae_seal A key ?n (inner_bytes h @ payload) ?ad"
  have new: "ae_new A key" and op: "ae_open A key ?n ?ct ?ad = Some (inner_bytes h @ payload)"
    using A by (simp_all add: aead_ok_def)
  have chk: "CheckOnly c (win_of s i) = fresh c (R i)" using s(2) by (simp add: sess_rel_def CheckOnly_fresh)
  let ?o = "Open A i ?ct ?ad ?n s"
  have o: "sess_rel (snd ?o) (if fresh c (R i) then R(i := R i @ [c]) else R)" "recvKey (snd ?o) = key"
    using Open_refines(2,3) [OF s(2), of A i ?ct ?ad ?n] s(1) new op by (auto simp: spec_open_def)
  have "openPacket A ?oh i ?ct s = (if fresh c (R i) then Inr (h, payload) else Inl (BCrypto ErrReplay), snd ?o)"
    using chk new op s(1) by (auto simp: openPacket_def Let_def Open_def recvWindow_eq)
  then show ?thesis
    by (intro that [of ?oh h "snd ?o"]) (use h o in \<open>simp_all add: len_simps\<close>)
qed

section \<open>A stream of packets\<close>

text \<open>The sender's state after some packets, the datagrams of packet \<open>g\<close>, and the receiver's state after the network
  delivered copy \<open>k\<close> of packet \<open>g\<close> for each \<open>(e, g, k)\<close> of a list, with the circumstances \<open>e\<close>.\<close>

definition after_sending :: "('t \<Rightarrow> 'x \<Rightarrow> 'w list \<times> 't) \<Rightarrow> 'x list \<Rightarrow> 't \<Rightarrow> 't" where
  "after_sending send xs t = foldl (\<lambda>t x. snd (send t x)) t xs"

definition datagrams :: "('t \<Rightarrow> 'x \<Rightarrow> 'w list \<times> 't) \<Rightarrow> ('w \<Rightarrow> bytes) \<Rightarrow> 'x list \<Rightarrow> 't \<Rightarrow> nat \<Rightarrow> bytes list" where
  "datagrams send dgram xs t g = map dgram (fst (send (after_sending send (take g xs) t) (xs ! g)))"

definition after_receiving :: "('r \<Rightarrow> 'e \<Rightarrow> bytes \<Rightarrow> 'r) \<Rightarrow> (nat \<Rightarrow> bytes list) \<Rightarrow> ('e \<times> nat \<times> nat) list \<Rightarrow> 'r \<Rightarrow> 'r" where
  "after_receiving recv out ds r = foldl (\<lambda>r (e, g, k). recv r e (out g ! k)) r ds"

abbreviation arr_g :: "'e \<times> nat \<times> nat \<Rightarrow> nat" where "arr_g d \<equiv> fst (snd d)"
abbreviation arr_k :: "'e \<times> nat \<times> nat \<Rightarrow> nat" where "arr_k d \<equiv> snd (snd d)"

lemma after_sending_Suc:
  "g < length xs \<Longrightarrow> after_sending send (take (Suc g) xs) t = snd (send (after_sending send (take g xs) t) (xs ! g))"
  by (simp add: after_sending_def take_Suc_conv_app_nth)

lemma counter_no_wrap: "unat c + m \<le> 8192 \<Longrightarrow> unat (c + of_nat m) = unat c + m" for c :: u64
  by (simp add: unat_word_ariths unat_of_nat)

section \<open>Senders\<close>

text \<open>\<open>ok\<close> describes the states of a party in which the contract holds, \<open>good\<close> the packets of this stream.\<close>

locale stream_sender =
  fixes send :: "'t \<Rightarrow> 'x \<Rightarrow> 'w list \<times> 't"
    and dgram :: "'w \<Rightarrow> bytes"
    and payload :: "'x \<Rightarrow> bytes"
    and sess :: "'t \<Rightarrow> session"
    and gsn :: "'t \<Rightarrow> u64"
    and good :: "'x \<Rightarrow> bool"
    and ok :: "'t \<Rightarrow> bool"
    and A :: aead_impl
    and key :: bytes
    and si :: u32
    and copies :: nat
  assumes ok_send: "ok t \<Longrightarrow> good x \<Longrightarrow> ok (snd (send t x))"
    and send_numbered: "ok t \<Longrightarrow> good x \<Longrightarrow>
          numbered A key si copies (gsn t) (payload x) (sess t) (map dgram (fst (send t x))) (sess (snd (send t x)))"
    and gsn_send: "ok t \<Longrightarrow> good x \<Longrightarrow> fst (send t x) \<noteq> [] \<Longrightarrow> gsn (snd (send t x)) = gsn t + 1"
begin

abbreviation sent_before :: "'x list \<Rightarrow> 't \<Rightarrow> nat \<Rightarrow> 't" where
  "sent_before xs t g \<equiv> after_sending send (take g xs) t"

text \<open>The counter of a path before packet \<open>g\<close>.\<close>

definition ctr_before :: "'x list \<Rightarrow> 't \<Rightarrow> u8 \<Rightarrow> nat \<Rightarrow> nat" where
  "ctr_before xs t i g = unat (ctr_of (sess (sent_before xs t g)) i)"

text \<open>A stream that fits the replay window.\<close>

definition fits_window :: "'x list \<Rightarrow> 't \<Rightarrow> bool" where
  "fits_window xs t \<longleftrightarrow> ok t \<and> (\<forall>x \<in> set xs. good x) \<and> (\<forall>i. unat (ctr_of (sess t) i) + copies * length xs \<le> 8192)"

lemma stream_ok: "fits_window xs t \<Longrightarrow> g \<le> length xs \<Longrightarrow> ok (sent_before xs t g)"
proof (induction g)
  case (Suc g)
  then show ?case by (simp add: after_sending_Suc ok_send fits_window_def)
qed (simp add: after_sending_def fits_window_def)

lemma stream_numbered:
  assumes "fits_window xs t" and "g < length xs"
  shows "numbered A key si copies (gsn (sent_before xs t g)) (payload (xs ! g)) (sess (sent_before xs t g))
    (datagrams send dgram xs t g) (sess (sent_before xs t (Suc g)))"
  using send_numbered [OF stream_ok [OF assms(1) less_imp_le [OF assms(2)]], of "xs ! g"] assms
  by (simp add: datagrams_def after_sending_Suc fits_window_def)

lemma stream_gsn:
  assumes "fits_window xs t" and "\<And>g. g < length xs \<Longrightarrow> datagrams send dgram xs t g \<noteq> []" and "g \<le> length xs"
  shows "gsn (sent_before xs t g) = gsn t + of_nat g"
  using assms(3)
proof (induction g)
  case (Suc g)
  then show ?case
    using gsn_send [OF stream_ok [OF assms(1)], of g "xs ! g"] assms(1) assms(2) [of g]
    by (simp add: after_sending_Suc datagrams_def fits_window_def)
qed (simp add: after_sending_def)

lemma ctr_before_bound:
  assumes "fits_window xs t" and "g \<le> length xs"
  shows "ctr_before xs t i g \<le> unat (ctr_of (sess t) i) + copies * g"
  using assms(2)
proof (induction g)
  case 0
  then show ?case by (simp add: ctr_before_def after_sending_def)
next
  case (Suc g)
  then obtain m where m: "ctr_of (sess (sent_before xs t (Suc g))) i = ctr_of (sess (sent_before xs t g)) i + of_nat m" "m \<le> copies"
    using stream_numbered [OF assms(1), of g] unfolding numbered_def by auto
  have "unat (ctr_of (sess t) i) + copies * Suc g \<le> 8192"
    using Suc(2) assms(1) unfolding fits_window_def by (meson add_le_mono le_trans mult_le_mono2 order_refl)
  then show ?case using Suc m counter_no_wrap by (simp add: ctr_before_def)
qed

lemma ctr_before_le: "fits_window xs t \<Longrightarrow> g \<le> length xs \<Longrightarrow> ctr_before xs t i g \<le> 8192"
  using ctr_before_bound [of xs t g i] unfolding fits_window_def by (meson add_le_mono le_trans mult_le_mono2 order_refl)

lemma stream_counters:
  assumes "fits_window xs t" and "g < length xs" and "m \<le> copies"
  shows "unat (ctr_of (sess (sent_before xs t g)) i + of_nat m) = ctr_before xs t i g + m"
proof -
  have "unat (ctr_of (sess t) i) + copies * Suc g \<le> 8192"
    using assms(1) Suc_leI [OF assms(2)] unfolding fits_window_def by (meson add_le_mono le_trans mult_le_mono2 order_refl)
  with ctr_before_bound [OF assms(1), of g i] assms(2,3) show ?thesis
    by (intro counter_no_wrap [THEN trans]) (simp_all add: ctr_before_def)
qed

lemma ctr_before_Suc:
  assumes "fits_window xs t" and "g < length xs"
    and "ctr_of (sess (sent_before xs t (Suc g))) i = ctr_of (sess (sent_before xs t g)) i + of_nat m" and "m \<le> copies"
  shows "ctr_before xs t i (Suc g) = ctr_before xs t i g + m"
  unfolding ctr_before_def [of _ _ _ "Suc g"] assms(3) by (rule stream_counters [OF assms(1,2,4)])

text \<open>Every datagram of packet \<open>g\<close> carries it, with a counter used for no other packet.\<close>

lemma stream_carries:
  assumes "fits_window xs t" and "\<And>g. g < length xs \<Longrightarrow> datagrams send dgram xs t g \<noteq> []" and "g < length xs"
    and "pkt \<in> set (datagrams send dgram xs t g)"
  obtains i c where "carries A key si (gsn t + of_nat g) (payload (xs ! g)) i c pkt"
    and "ctr_before xs t i g \<le> unat c" and "unat c < ctr_before xs t i (Suc g)"
proof -
  obtain m where m: "\<forall>i. ctr_of (sess (sent_before xs t (Suc g))) i = ctr_of (sess (sent_before xs t g)) i + of_nat (m i) \<and> m i \<le> copies"
      "\<forall>pkt \<in> set (datagrams send dgram xs t g). \<exists>i. \<exists>n < m i. carries A key si (gsn t + of_nat g) (payload (xs ! g)) i
         (ctr_of (sess (sent_before xs t g)) i + of_nat n) pkt"
    using stream_numbered [OF assms(1,3)] stream_gsn [OF assms(1,2), of g] assms(3) unfolding numbered_def by auto
  with assms(4) obtain i n where n: "n < m i" "carries A key si (gsn t + of_nat g) (payload (xs ! g)) i
      (ctr_of (sess (sent_before xs t g)) i + of_nat n) pkt" by blast
  have "n \<le> copies" using n(1) m(1) by (meson le_trans less_imp_le)
  from stream_counters [OF assms(1,3) this] ctr_before_Suc [OF assms(1,3), of i "m i"] m(1) n(1) that [OF n(2)]
  show ?thesis by simp
qed

lemma ctr_before_mono:
  assumes "fits_window xs t" and "g \<le> g'" and "g' \<le> length xs"
  shows "ctr_before xs t i g \<le> ctr_before xs t i g'"
  using assms(2,3)
proof (induction g' rule: dec_induct)
  case (step h)
  then obtain m where "ctr_of (sess (sent_before xs t (Suc h))) i = ctr_of (sess (sent_before xs t h)) i + of_nat m" "m \<le> copies"
    using stream_numbered [OF assms(1), of h] unfolding numbered_def by auto
  from ctr_before_Suc [OF assms(1) _ this] step show ?case by simp
qed simp

lemma counter_unique:
  assumes "fits_window xs t" and "g < length xs" and "g' < length xs"
    and "ctr_before xs t i g \<le> c" "c < ctr_before xs t i (Suc g)" and "ctr_before xs t i g' \<le> c" "c < ctr_before xs t i (Suc g')"
  shows "g = g'"
proof (rule ccontr)
  note mono = ctr_before_mono [OF assms(1), where i = i]
  assume "g \<noteq> g'"
  then consider "Suc g \<le> g'" | "Suc g' \<le> g" by linarith
  then show False using mono [of "Suc g" g'] mono [of "Suc g'" g] assms by cases auto
qed

end

section \<open>Receivers\<close>

text \<open>A datagram of the stream is pushed into the reorder buffer if its counter is new, and dropped otherwise.
  \<open>fits\<close> says under which circumstances a datagram can arrive.\<close>

locale stream_receiver =
  fixes recv :: "'r \<Rightarrow> 'e \<Rightarrow> bytes \<Rightarrow> 'r"
    and fits :: "'e \<Rightarrow> bytes \<Rightarrow> bool"
    and rsess :: "'r \<Rightarrow> session"
    and rbuf :: "'r \<Rightarrow> buffer"
    and rok :: "'r \<Rightarrow> bool"
    and A :: aead_impl
    and key :: bytes
    and si :: u32
  assumes rok_recv: "rok r \<Longrightarrow> fits e pkt \<Longrightarrow> carries A key si g p i c pkt \<Longrightarrow> sess_rel (rsess r) R \<Longrightarrow> rok (recv r e pkt)"
    and rel_recv: "rok r \<Longrightarrow> fits e pkt \<Longrightarrow> carries A key si g p i c pkt \<Longrightarrow> sess_rel (rsess r) R \<Longrightarrow>
          sess_rel (rsess (recv r e pkt)) (if fresh c (R i) then R(i := R i @ [c]) else R)"
    and buf_recv: "rok r \<Longrightarrow> fits e pkt \<Longrightarrow> carries A key si g p i c pkt \<Longrightarrow> sess_rel (rsess r) R \<Longrightarrow>
          rbuf (recv r e pkt) = (if fresh c (R i) then Push (stream_packet g p) (rbuf r) else rbuf r)"

section \<open>Delivery\<close>

locale stream = S: stream_sender send dgram payload sess gsn good ok A key si copies + R: stream_receiver recv fits rsess rbuf rok A key si
  for send :: "'t \<Rightarrow> 'x \<Rightarrow> 'w list \<times> 't" and dgram payload sess gsn good ok A key si copies
    and recv :: "'r \<Rightarrow> 'e \<Rightarrow> bytes \<Rightarrow> 'r" and fits rsess rbuf rok
begin

abbreviation out :: "'x list \<Rightarrow> 't \<Rightarrow> nat \<Rightarrow> bytes list" where
  "out xs t \<equiv> datagrams send dgram xs t"

text \<open>The receiver after some arrivals: the reorder buffer was pushed packets of the stream, all those that have
  arrived among them, and every counter accepted since belongs to one of them.\<close>

definition pushed :: "'x list \<Rightarrow> 't \<Rightarrow> (u8 \<Rightarrow> u64 list) \<Rightarrow> packet list \<Rightarrow> ('e \<times> nat \<times> nat) list \<Rightarrow> bool" where
  "pushed xs t R ys ds \<longleftrightarrow>
     (\<forall>p \<in> set ys. \<exists>g < length xs. p = stream_packet (of_nat g) (payload (xs ! g))) \<and>
     (\<forall>i. \<forall>c \<in> set (R i). c < ctr_of (sess t) i \<or>
        (\<exists>g < length xs. S.ctr_before xs t i g \<le> unat c \<and> unat c < S.ctr_before xs t i (Suc g) \<and> of_nat g \<in> pk_GSN ` set ys)) \<and>
     (\<forall>d \<in> set ds. of_nat (arr_g d) \<in> pk_GSN ` set ys) \<and>
     sum_list (map pk_size ys) \<le> (\<Sum>d \<leftarrow> ds. int (length (payload (xs ! arr_g d))))"

definition stream_inv :: "'x list \<Rightarrow> 't \<Rightarrow> buffer \<Rightarrow> ('e \<times> nat \<times> nat) list \<Rightarrow> 'r \<Rightarrow> bool" where
  "stream_inv xs t B ds r \<longleftrightarrow> rok r \<and> (\<exists>R ys. sess_rel (rsess r) R \<and> rbuf r = push_all B ys \<and> pushed xs t R ys ds)"

text \<open>A counter that was accepted before belongs to a packet that was pushed before.\<close>

lemma pushed_old:
  assumes w: "S.fits_window xs t" and "g < length xs" and p: "pushed xs t R ys ds" and "c \<in> set (R i)"
    and c: "S.ctr_before xs t i g \<le> unat c" "unat c < S.ctr_before xs t i (Suc g)"
  shows "pushed xs t R ys (ds @ [(e, g, k)])"
proof -
  have "\<not> c < ctr_of (sess t) i"
    using S.ctr_before_mono [OF w, of 0 g i] c(1) assms(2) by (simp add: S.ctr_before_def after_sending_def word_less_nat_alt)
  with p assms(4) obtain g' where "g' < length xs" "S.ctr_before xs t i g' \<le> unat c" "unat c < S.ctr_before xs t i (Suc g')"
      "of_nat g' \<in> pk_GSN ` set ys" unfolding pushed_def by blast
  with S.counter_unique [OF w assms(2), of g' i "unat c"] c have "of_nat g \<in> pk_GSN ` set ys" by simp
  then show ?thesis using p by (auto simp: pushed_def)
qed

lemma pushed_new:
  assumes "g < length xs" and p: "pushed xs t R ys ds"
    and c: "S.ctr_before xs t i g \<le> unat c" "unat c < S.ctr_before xs t i (Suc g)"
  shows "pushed xs t (R(i := R i @ [c])) (ys @ [stream_packet (of_nat g) (payload (xs ! g))]) (ds @ [(e, g, k)])"
proof -
  let ?p = "stream_packet (of_nat g) (payload (xs ! g))"
  have q: "pk_size ?p = int (length (payload (xs ! g)))" "pk_GSN ?p = of_nat g" by (simp_all add: pk_size_def stream_packet_def)
  have "c' < ctr_of (sess t) q \<or> (\<exists>g' < length xs. S.ctr_before xs t q g' \<le> unat c' \<and> unat c' < S.ctr_before xs t q (Suc g') \<and>
      of_nat g' \<in> pk_GSN ` set (ys @ [?p]))" if "c' \<in> set ((R(i := R i @ [c])) q)" for q c'
  proof -
    from that consider "c' \<in> set (R q)" | "q = i" "c' = c" by (auto split: if_splits)
    then show ?thesis
    proof cases
      case 1
      with p have "c' < ctr_of (sess t) q \<or> (\<exists>g' < length xs. S.ctr_before xs t q g' \<le> unat c' \<and>
          unat c' < S.ctr_before xs t q (Suc g') \<and> of_nat g' \<in> pk_GSN ` set ys)" unfolding pushed_def by blast
      then show ?thesis by auto
    next
      case 2
      then show ?thesis using c assms(1) q(2) by auto
    qed
  qed
  moreover have "\<forall>d \<in> set (ds @ [(e, g, k)]). of_nat (arr_g d) \<in> pk_GSN ` set (ys @ [?p])"
    using p q(2) unfolding pushed_def by auto
  moreover have "\<forall>p \<in> set (ys @ [?p]). \<exists>g < length xs. p = stream_packet (of_nat g) (payload (xs ! g))"
    using p assms(1) unfolding pushed_def by auto
  moreover have "sum_list (map pk_size (ys @ [?p])) \<le> (\<Sum>d \<leftarrow> ds @ [(e, g, k)]. int (length (payload (xs ! arr_g d))))"
    using p q(1) unfolding pushed_def by simp
  ultimately show ?thesis unfolding pushed_def by blast
qed

lemma pushed_fresh:
  assumes w: "S.fits_window xs t" and p: "pushed xs t R ys ds"
  shows "fresh c (R i) \<longleftrightarrow> c \<notin> set (R i)"
proof -
  have b: "S.ctr_before xs t i (Suc g) \<le> 8192" if "g < length xs" for g by (rule S.ctr_before_le [OF w]) (use that in simp)
  have "unat c' < 8192" if "c' \<in> set (R i)" for c'
  proof -
    from p that consider "c' < ctr_of (sess t) i" | g where "g < length xs" "unat c' < S.ctr_before xs t i (Suc g)"
      unfolding pushed_def by blast
    then show ?thesis
    proof cases
      case 1
      moreover have "unat (ctr_of (sess t) i) \<le> 8192" using w unfolding S.fits_window_def by (meson add_leD1)
      ultimately show ?thesis by (simp add: word_less_nat_alt)
    next
      case 2
      then show ?thesis using b by (meson less_le_trans)
    qed
  qed
  then show ?thesis by (fastforce simp: fresh_def)
qed

lemma stream_inv_step:
  assumes w: "S.fits_window xs t" "gsn t = 0" and out: "\<And>g. g < length xs \<Longrightarrow> out xs t g \<noteq> []"
    and d: "g < length xs" "k < length (out xs t g)" "fits e (out xs t g ! k)" and inv: "stream_inv xs t B ds r"
  shows "stream_inv xs t B (ds @ [(e, g, k)]) (recv r e (out xs t g ! k))"
proof -
  let ?pkt = "out xs t g ! k"
  obtain i c where c: "carries A key si (of_nat g) (payload (xs ! g)) i c ?pkt"
      "S.ctr_before xs t i g \<le> unat c" "unat c < S.ctr_before xs t i (Suc g)"
    using S.stream_carries [OF w(1) out d(1) nth_mem [OF d(2)]] w(2) by (metis add_0)
  obtain R ys where r: "rok r" "sess_rel (rsess r) R" "rbuf r = push_all B ys" and p: "pushed xs t R ys ds"
    using inv unfolding stream_inv_def by blast
  note rc = R.rok_recv [OF r(1) d(3) c(1) r(2)] R.rel_recv [OF r(1) d(3) c(1) r(2)] R.buf_recv [OF r(1) d(3) c(1) r(2)]
  show ?thesis
  proof (cases "c \<in> set (R i)")
    case True
    with rc r(3) pushed_fresh [OF w(1) p] pushed_old [OF w(1) d(1) p True c(2,3)] show ?thesis
      unfolding stream_inv_def by (intro conjI exI [of _ R] exI [of _ ys]) simp_all
  next
    case False
    with pushed_fresh [OF w(1) p] have "fresh c (R i)" by simp
    with rc r(3) pushed_new [OF d(1) p c(2,3)] show ?thesis
      unfolding stream_inv_def
      by (intro conjI exI [of _ "R(i := R i @ [c])"] exI [of _ "ys @ [stream_packet (of_nat g) (payload (xs ! g))]"])
        (simp_all add: push_all_def)
  qed
qed

lemma stream_inv_run:
  assumes "S.fits_window xs t" "gsn t = 0" and "\<And>g. g < length xs \<Longrightarrow> out xs t g \<noteq> []"
    and "\<forall>(e, g, k) \<in> set ds. g < length xs \<and> k < length (out xs t g) \<and> fits e (out xs t g ! k)" and "stream_inv xs t B [] r"
  shows "stream_inv xs t B ds (after_receiving recv (out xs t) ds r)"
  using assms(4)
proof (induction ds rule: rev_induct)
  case (snoc d ds)
  obtain e g k where d: "d = (e, g, k)" by (cases d)
  from snoc d have "g < length xs" "k < length (out xs t g)" "fits e (out xs t g ! k)"
    and "stream_inv xs t B ds (after_receiving recv (out xs t) ds r)" by auto
  from stream_inv_step [OF assms(1-3) this] show ?case by (simp add: after_receiving_def d)
qed (simp add: after_receiving_def assms(5))

text \<open>The payloads come out complete and in order.\<close>

lemma in_order:
  assumes ok: "ok t" "\<forall>x \<in> set xs. good x" "gsn t = 0" "\<And>i. unat (ctr_of (sess t) i) + copies * length xs \<le> replayWindowSize"
    and rok: "rok r" "sess_rel (rsess r) R" "\<forall>i. \<forall>c \<in> set (R i). c < ctr_of (sess t) i" "rbuf r = reorder_New d mb"
    and len: "length xs \<le> outCap"
    and ds: "\<forall>(e, g, k) \<in> set ds. g < length xs \<and> k < length (out xs t g) \<and> fits e (out xs t g ! k)"
      "arr_g ` set ds = {0..<length xs}" "(\<Sum>d \<leftarrow> ds. int (length (payload (xs ! arr_g d)))) \<le> b_maxBytes (reorder_New d mb)"
  shows "map pk_Payload (b_out (rbuf (after_receiving recv (out xs t) ds r))) = map payload xs \<and>
    b_h (rbuf (after_receiving recv (out xs t) ds r)) = [] \<and> b_forcedReleases (rbuf (after_receiving recv (out xs t) ds r)) = 0"
proof -
  let ?n = "length xs" and ?b = "rbuf (after_receiving recv (out xs t) ds r)"
  have w: "S.fits_window xs t" using ok by (simp add: S.fits_window_def replayWindowSize_def)
  have "out xs t g \<noteq> []" if "g < length xs" for g
  proof -
    have "g \<in> arr_g ` set ds" using that ds(2) by simp
    with ds(1) show ?thesis by fastforce
  qed
  moreover have "stream_inv xs t (reorder_New d mb) [] r"
    unfolding stream_inv_def pushed_def using rok by (intro conjI exI [of _ R] exI [of _ "[]"]) (auto simp: push_all_def)
  ultimately have "stream_inv xs t (reorder_New d mb) ds (after_receiving recv (out xs t) ds r)"
    by (rule stream_inv_run [OF w ok(3) _ ds(1)])
  then obtain ys where ys: "?b = push_all (reorder_New d mb) ys"
      "\<forall>p \<in> set ys. \<exists>g < ?n. p = stream_packet (of_nat g) (payload (xs ! g))" "\<forall>d \<in> set ds. of_nat (arr_g d) \<in> pk_GSN ` set ys"
      "sum_list (map pk_size ys) \<le> (\<Sum>d \<leftarrow> ds. int (length (payload (xs ! arr_g d))))"
    unfolding stream_inv_def pushed_def by blast
  have n: "?n \<le> 1024" using len by (simp add: outCap_def)
  have "pk_GSN ` set ys \<subseteq> of_nat ` {0..<?n}" using ys(2) by (force simp: stream_packet_def)
  moreover have "of_nat ` {0..<?n} \<subseteq> pk_GSN ` set ys" using ys(3) unfolding ds(2) [symmetric] by blast
  ultimately have gsns: "pk_GSN ` set ys = of_nat ` {0..<?n}" by (rule subset_antisym)
  have noPush: "\<forall>p \<in> set ys. \<not> pk_Push p" using ys(2) by (force simp: stream_packet_def)
  note sorts = push_all_sorts [OF n noPush gsns order_trans [OF ys(4) ds(3)]]
  have "pk_Payload (the (first_copy ys (of_nat g))) = payload (xs ! g)" if "g < ?n" for g
  proof -
    have "of_nat g \<in> pk_GSN ` set ys" unfolding gsns using that by simp
    then obtain p where p: "first_copy ys (of_nat g) = Some p" using first_copy_None [of ys "of_nat g"] by auto
    obtain g' where g': "g' < ?n" "p = stream_packet (of_nat g') (payload (xs ! g'))" "pk_GSN p = of_nat g"
      using first_copy_Some [OF p] ys(2) by blast
    then have "(of_nat g' :: u64) = of_nat g" by (simp add: stream_packet_def)
    then have "unat (of_nat g' :: u64) = unat (of_nat g :: u64)" by (rule arg_cong)
    then have "g' = g" using that g'(1) n by (simp add: unat_of_size)
    then show ?thesis using p g'(2) by (simp add: stream_packet_def)
  qed
  then have "map pk_Payload (b_out ?b) = map payload xs"
    unfolding ys(1) using sorts by (intro nth_equalityI) simp_all
  then show ?thesis using sorts ys(1) by simp
qed

end

end
