(* ===== verification/EndToEnd.thy ===== *)
theory EndToEnd
  imports Relay_Props Streams
begin

text \<open>
  The two ends together: a client's dial answered by the relay leaves a tunnel and a session that fit each
  other, and what the client sends over its paths comes out of the relay's reorder buffer complete and in
  order whatever the network does to the order and number of the datagrams.
\<close>

section \<open>Dialling\<close>

text \<open>A client's tunnel and a relay's session fit: the relay finds the session under the tunnel's index, opens
  with the key the client seals with, and has only accepted counters the client has already used.\<close>

definition paired :: "ClientTunnel \<Rightarrow> Relay \<Rightarrow> nat \<Rightarrow> bool" where
  "paired t r j \<longleftrightarrow> map_of (r_byIndex r) (ct_sessionIndex t) = Some j \<and> j < length (r_sessions r) \<and>
     recvKey (rs_sess (r_sessions r ! j)) = sendKey (ct_sess t) \<and>
     (\<exists>R. sess_rel (rs_sess (r_sessions r ! j)) R \<and> (\<forall>i. \<forall>c \<in> set (R i). c < ctr_of (ct_sess t) i))"

text \<open>The same for the way back: the relay finds the session under the tunnel's address.\<close>

definition paired_back :: "ClientTunnel \<Rightarrow> Relay \<Rightarrow> nat \<Rightarrow> bool" where
  "paired_back t r j \<longleftrightarrow> r_byTunnelIP r (ct_tunnelIP t) = Some j \<and> j < length (r_sessions r) \<and>
     recvKey (ct_sess t) = sendKey (rs_sess (r_sessions r ! j)) \<and>
     (\<exists>R. sess_rel (ct_sess t) R \<and> (\<forall>i. \<forall>c \<in> set (R i). c < ctr_of (rs_sess (r_sessions r ! j)) i))"

lemma handshake_answered:
  assumes "relay_handleHandshakeInit N E wr now draws msg src r = (w # ws, r')"
  obtains hs p key hs' ip i r1 payload respMsg s where
    "NewResponder N (rc_RelayKey (r_cfg r)) = Inr hs" "ReadInit N hs msg = Inr (p, key, hs')"
    "assign_address draws key r = (Some (ip, i), r1)"
    "HandshakeResp_Marshal (te_handshakeResp E) (respPayload i ip r1) = Inr payload"
    "WriteResponse N hs' payload = Inr (respMsg, s)"
    "w # ws = [(src, outer_bytes TypeHandshakeResp i (replicate 12 0) @ respMsg)]"
    "r' = install (fresh_session now i s ip src (r_cfg r1)) key r1"
proof -
  obtain hs p key hs' where a: "NewResponder N (rc_RelayKey (r_cfg r)) = Inr hs" "ReadInit N hs msg = Inr (p, key, hs')"
    using assms by (auto simp: relay_handleHandshakeInit_def split: sum.splits)
  obtain ip i r1 where b: "assign_address draws key r = (Some (ip, i), r1)"
    using assms a by (auto simp: relay_handleHandshakeInit_def split: prod.splits option.splits)
  obtain payload where c: "HandshakeResp_Marshal (te_handshakeResp E) (respPayload i ip r1) = Inr payload"
    using assms a b by (auto simp: relay_handleHandshakeInit_def split: sum.splits)
  obtain respMsg s where d: "WriteResponse N hs' payload = Inr (respMsg, s)"
    using assms a b c by (auto simp: relay_handleHandshakeInit_def split: sum.splits)
  show ?thesis
    using assms handshake_completes [OF a b c d, of wr now src] by (intro that [OF a b c d]) (auto simp: Let_def split: if_splits)
qed

lemma initPacket_form:
  assumes "initPacket N cfg = Inr (pkt, hs)"
  obtains h m where "NewInitiator N (cf_ClientKey cfg) (cf_RelayPubKey cfg) = Inr h" "WriteInit N h [] = Inr (m, hs)"
    "pkt = outer_bytes TypeHandshakeInit 0 (replicate 12 0) @ m"
  using assms by (auto simp: initPacket_def outer_with split: sum.splits)

text \<open>The library encodes a response so that decoding gives it back.\<close>

abbreviation resp_ok :: "tunnel_env \<Rightarrow> bool" where
  "resp_ok E \<equiv> (\<forall>v b. fst (te_handshakeResp E) v = Some b \<longrightarrow> snd (te_handshakeResp E) b = Some v)"

lemma response_read:
  assumes noise: "noise_ok N" "length (kp_Public (cf_ClientKey cfg)) = KeyLen"
    and key: "cf_RelayPubKey cfg = kp_Public (rc_RelayKey (r_cfg r))"
    and resp: "resp_ok E"
    and init: "initPacket N cfg = Inr (pkt, hs)"
    and answer: "handleUDP N E wr now draws pkt src r = ([(a, out)], r')"
  obtains j resp k1 k2 where
    "a = src" "handshake_response N E hs out = Inr (resp, newSession k1 k2)"
    "r_byClientKey r' (kp_Public (cf_ClientKey cfg)) = Some j" "j < length (r_sessions r')"
    "map_of (r_byIndex r') (hr_SessionIndex resp) = Some j" "r_byTunnelIP r' (hr_TunnelIP resp) = Some j"
    "rs_sess (r_sessions r' ! j) = newSession k2 k1"
    "rs_paths (r_sessions r' ! j) = [PathZero \<mapsto> SetActive (SetRemoteAddr src (NewPath PathZero))]"
    "rs_reorderBuf (r_sessions r' ! j) = reorder_New DefaultDeadlineMin 0" "rs_sendGSN (r_sessions r' ! j) = 0"
proof -
  obtain h m where c: "NewInitiator N (cf_ClientKey cfg) (kp_Public (rc_RelayKey (r_cfg r))) = Inr h" "WriteInit N h [] = Inr (m, hs)"
      "pkt = outer_bytes TypeHandshakeInit 0 (replicate 12 0) @ m"
    using initPacket_form [OF init] key by metis
  obtain hr p ck hr' ip i r1 payload respMsg s where w:
    "NewResponder N (rc_RelayKey (r_cfg r)) = Inr hr" "ReadInit N hr m = Inr (p, ck, hr')"
    "HandshakeResp_Marshal (te_handshakeResp E) (respPayload i ip r1) = Inr payload"
    "WriteResponse N hr' payload = Inr (respMsg, s)"
    "(a, out) = (src, outer_bytes TypeHandshakeResp i (replicate 12 0) @ respMsg)"
    "r' = install (fresh_session now i s ip src (r_cfg r1)) ck r1"
    using answer handshake_answered [of N E wr now draws m src r "(a, out)" "[]" r'] c(3)
    by (simp add: handleUDP_init) metis
  obtain hr'' where "ReadInit N hr m = Inr ([], kp_Public (cf_ClientKey cfg), hr'')"
    and n: "\<And>q m2 sr. WriteResponse N hr'' q = Inr (m2, sr) \<Longrightarrow>
      \<exists>c1 c2. sr = newSession c2 c1 \<and> ReadResponse N hs m2 = Inr (q, newSession c1 c2)"
    using noise_exchange [OF noise c(1,2) w(1)] by blast
  with w(2) have ck: "ck = kp_Public (cf_ClientKey cfg)" "hr'' = hr'" by simp_all
  obtain k1 k2 where k: "s = newSession k2 k1" "ReadResponse N hs respMsg = Inr (payload, newSession k1 k2)"
    using n [of payload respMsg s] w(4) ck by auto
  have u: "UnmarshalHandshakeResp (te_handshakeResp E) payload = Inr (respPayload i ip r1)"
    using w(3) resp by (auto simp: HandshakeResp_Marshal_def UnmarshalHandshakeResp_def split: option.splits)
  show ?thesis
    by (rule that [of "respPayload i ip r1" k1 k2 "length (r_sessions r1)"])
      (use w(5,6) k u ck in \<open>auto simp: handshake_response_def install_simps update_conv' respPayload_def\<close>)
qed


text \<open>Attempts that meet no datagram are repeated.\<close>

definition no_answer :: "attempt \<Rightarrow> bool" where
  "no_answer a \<longleftrightarrow> a = WriteFails \<or> a = DeadlineFails \<or> a = ReadFails"

lemma handshake_loop_retries:
  "list_all no_answer as \<Longrightarrow> handshake_response N E hs buf = Inr x \<Longrightarrow>
     handshake_loop N E hs (as @ Reads buf # bs) e = Inr x"
  by (induction as arbitrary: e) (auto simp: no_answer_def)

definition dial_tries :: "ClientConfig \<Rightarrow> nat" where
  "dial_tries cfg = (if cf_HandshakeTry cfg \<le> 0 then 3 else nat (cf_HandshakeTry cfg))"

definition first_spec :: "ClientConfig \<Rightarrow> PathSpec" where
  "first_spec cfg = (if cf_Paths cfg = [] then zeroSpec else cf_Paths cfg ! 0)"

lemma dial_single:
  assumes "length (cf_Paths cfg) \<le> 1" and "dialPath dial (first_spec cfg)" and "sched_New (cf_Scheduler cfg) = Some sch"
    and "k < dial_tries cfg" and "list_all no_answer (map (att 0) [0..<k])" and "att 0 k = Reads out"
    and "initPacket N cfg = Inr (pkt, hs)" and "handshake_response N E hs out = Inr (resp, s)"
  shows "DialHandshake N E now True dial att cfg = Inr (newTunnel now cfg resp s sch, resp)"
proof -
  have "[0..<dial_tries cfg] = [0..<k] @ k # [Suc k..<dial_tries cfg]"
    using assms(4) by (metis upt_conv_Cons upt_add_eq_append le_add_diff_inverse less_imp_le zero_le)
  then have "handshake_loop N E hs (map (att 0) [0..<dial_tries cfg]) ErrUnexpected = Inr (resp, s)"
    using handshake_loop_retries [OF assms(5,8)] assms(6) by simp
  then show ?thesis
    using assms(1-3,7) by (auto simp: DialHandshake_def dial_tries_def first_spec_def Let_def)
qed


definition ex_resp :: HandshakeRespPayload where
  "ex_resp = respPayload 7 [10, 77, 0, 2] (ex_relay\<lparr>r_pool := ex_pool1\<rparr>)"

definition ex_env2 :: tunnel_env where
  "ex_env2 = ex_env\<lparr>te_handshakeResp := (\<lambda>v. if v = ex_resp then Some [5] else None, \<lambda>b. if b = [5] then Some ex_resp else None)\<rparr>"

definition ex_client :: ClientConfig where
  "ex_client = \<lparr> cf_RelayPubKey = replicate 32 4, cf_ClientKey = \<lparr> kp_Private = replicate 32 1, kp_Public = ex_key \<rparr>,
     cf_Paths = [], cf_HandshakeTO = 0, cf_HandshakeTry = 0, cf_Scheduler = '''', cf_Mode = ModeSpeed, cf_FEC = False \<rparr>"

definition ex_out :: bytes where "ex_out = outer_bytes TypeHandshakeResp 7 (replicate 12 0) @ [5]"

lemma ex_handshake2:
  "handleUDP plain_noise ex_env2 (\<lambda>_ _. True) 0 [7] ex_init ex_src ex_relay = ([(ex_src, ex_out)], ex_relay1)"
proof -
  have a: "assign_address [7] ex_key ex_relay = (Some ([10, 77, 0, 2], 7), ex_relay\<lparr>r_pool := ex_pool1\<rparr>)"
    by (simp add: assign_address_def ex_relay_fields ex_alloc)
  have m: "HandshakeResp_Marshal (te_handshakeResp ex_env2) (respPayload 7 [10, 77, 0, 2] (ex_relay\<lparr>r_pool := ex_pool1\<rparr>)) = Inr [5]"
    by (simp add: HandshakeResp_Marshal_def ex_env2_def ex_resp_def)
  show ?thesis
    using handshake_completes [OF ex_plain(1) ex_plain(2) a m ex_plain(3), where wr = "\<lambda>_ _. True" and src = ex_src]
    by (simp add: ex_init_def handleUDP_init ex_relay1_eq ex_session_def ex_relay_fields Let_def ex_out_def)
qed

lemma ex_initPacket: "\<exists>hs. initPacket plain_noise ex_client = Inr (ex_init, hs)"
  by (simp add: initPacket_def NewInitiator_def WriteInit_def plain_noise_def ex_client_def outer_with ex_init_def)



section \<open>The client as a sender\<close>

lemma dataHeader_simps [simp]:
  "ih_GSN (dataHeader gsn psn i f payload) = gsn" "ih_Flags (dataHeader gsn psn i f payload) = f"
  by (simp_all add: dataHeader_def)

lemma no_push: "\<not> HasFlag 0 FlagPUSH" "\<not> HasFlag FlagDUP FlagPUSH"
  by (simp_all add: HasFlag_def FlagPUSH_def FlagDUP_def)

lemma set_path_sel [simp]:
  "ct_sess (set_path k p t) = ct_sess t" "ct_sessionIndex (set_path k p t) = ct_sessionIndex t"
  "ct_fecSend (set_path k p t) = ct_fecSend t" "ct_sendGSN (set_path k p t) = ct_sendGSN t"
  "ct_mode (set_path k p t) = ct_mode t" "ct_reorderBuf (set_path k p t) = ct_reorderBuf t"
  by (simp_all add: set_path_def)

lemma sealPacket_ok:
  assumes "ae_new A (sendKey s)"
  obtains pkt s' where "sealPacket A t si p inner payload s = (Inr pkt, s')"
  using sealPacket_eq [OF assms] by (auto simp: Let_def)

text \<open>A client without FEC that seals with \<open>key\<close> for session \<open>si\<close>.\<close>

definition client_sends :: "tunnel_env \<Rightarrow> aead_impl \<Rightarrow> bytes \<Rightarrow> u32 \<Rightarrow> ClientTunnel \<Rightarrow> bool" where
  "client_sends E A key si t \<longleftrightarrow> te_aead E = A \<and> ae_new A key \<and> sendKey (ct_sess t) = key \<and> ct_sessionIndex t = si \<and> ct_fecSend t = None"

lemma client_dup_numbered:
  assumes "client_sends E A key si t"
  shows "client_sends E A key si (snd (client_dup_loop E wr gsn payload n ks t)) \<and>
    numbered A key si (length ks) gsn payload (ct_sess t) (map snd (fst (client_dup_loop E wr gsn payload n ks t)))
      (ct_sess (snd (client_dup_loop E wr gsn payload n ks t))) \<and>
    ct_sendGSN (snd (client_dup_loop E wr gsn payload n ks t)) = ct_sendGSN t"
  using assms
proof (induction ks arbitrary: n t)
  case (Cons k ks)
  let ?p = "snd (NextSendPSN (ct_paths t ! k))" and ?psn = "fst (NextSendPSN (ct_paths t ! k))"
  let ?h = "dataHeader gsn ?psn (pt_id ?p) (if n > 0 then 0 OR FlagDUP else 0) payload"
  have t: "te_aead E = A" "ae_new A (sendKey (ct_sess t))" "sendKey (ct_sess t) = key" "ct_sessionIndex t = si" "ct_fecSend t = None"
    using Cons.prems by (simp_all add: client_sends_def)
  obtain pkt s where seal: "sealPacket A TypeData si (pt_id ?p) ?h payload (ct_sess t) = (Inr pkt, s)"
    using sealPacket_ok [OF t(2)] by blast
  define w where "w = (if \<not> wr (pt_id ?p) pkt then [] else [(pt_id ?p, pkt)])"
  define t1 where "t1 = (if \<not> wr (pt_id ?p) pkt then (set_path k ?p t)\<lparr>ct_sess := s\<rparr>
    else set_path k (path_tx payload ?p) ((set_path k ?p t)\<lparr>ct_sess := s\<rparr>))"
  have step: "client_dup_loop E wr gsn payload n (k # ks) t =
      (w @ fst (client_dup_loop E wr gsn payload (n + 1) ks t1), snd (client_dup_loop E wr gsn payload (n + 1) ks t1))"
    using seal t by (simp add: Let_def split_beta w_def t1_def)
  have one: "numbered A (sendKey (ct_sess t)) si 1 gsn payload (ct_sess t) (map snd w) s"
    by (rule numbered_one [OF t(2) _ _ seal]) (auto simp: w_def no_push)
  have t1: "ct_sess t1 = s" "ct_sendGSN t1 = ct_sendGSN t" "client_sends E A key si t1"
    using t seal_keeps_key [OF t(2) seal] by (simp_all add: t1_def client_sends_def)
  show ?case
    using Cons.IH [OF t1(3), of "n + 1"] numbered_trans [OF one, where ws' = "map snd (fst (client_dup_loop E wr gsn payload (n + 1) ks t1))"] t(3) t1
    unfolding step by simp
qed simp

lemma client_tun_numbered:
  assumes "client_sends E A key si t"
  shows "client_sends E A key si (snd (client_tunToNet E wr now payload t)) \<and>
    numbered A key si DupFactor (ct_sendGSN t) payload (ct_sess t) (map snd (fst (client_tunToNet E wr now payload t)))
      (ct_sess (snd (client_tunToNet E wr now payload t))) \<and>
    (fst (client_tunToNet E wr now payload t) \<noteq> [] \<longrightarrow>
       ct_sendGSN (snd (client_tunToNet E wr now payload t)) = ct_sendGSN t + 1)"
proof (cases "ct_mode t = ModeRedundant")
  case True
  let ?ks = "map fst (selectRedundantPaths now (client_Paths t) DupFactor)" and ?t = "t\<lparr>ct_sendGSN := ct_sendGSN t + 1\<rparr>"
  have "client_sends E A key si ?t" using assms by (simp add: client_sends_def)
  note loop = client_dup_numbered [OF this, of wr "ct_sendGSN t" payload 0 ?ks]
  have "length ?ks \<le> DupFactor" by (simp add: select_length)
  with loop numbered_mono show ?thesis
    using True assms by (auto simp: client_tunToNet_def client_sendRedundant_def client_sends_def Let_def split_beta)
next
  case False
  let ?n = "sched_Next (te_arch E) (ct_sched t) (client_schedPaths now t) (int (length payload))"
  show ?thesis
  proof (cases "Option.bind (fst ?n) (\<lambda>sp. path_index (sp_ID sp) (ct_paths t))")
    case None
    then show ?thesis
      using False assms by (simp add: client_tunToNet_def client_sendSpeed_def client_sends_def Let_def split_beta)
  next
    case (Some k)
    let ?p = "snd (NextSendPSN (ct_paths t ! k))" and ?psn = "fst (NextSendPSN (ct_paths t ! k))"
    let ?h = "dataHeader (ct_sendGSN t) ?psn (pt_id ?p) 0 payload"
    have t: "te_aead E = A" "ae_new A (sendKey (ct_sess t))" "sendKey (ct_sess t) = key" "ct_sessionIndex t = si" "ct_fecSend t = None"
      using assms by (simp_all add: client_sends_def)
    obtain pkt s where seal: "sealPacket A TypeData si (pt_id ?p) ?h payload (ct_sess t) = (Inr pkt, s)"
      using sealPacket_ok [OF t(2)] by blast
    have eq: "ct_sessionIndex (snd (client_tunToNet E wr now payload t)) = si"
      "ct_sess (snd (client_tunToNet E wr now payload t)) = s" "ct_fecSend (snd (client_tunToNet E wr now payload t)) = None"
      "set (map snd (fst (client_tunToNet E wr now payload t))) \<subseteq> {pkt}"
      "ct_sendGSN (snd (client_tunToNet E wr now payload t)) = ct_sendGSN t + 1"
      using Some seal t False
      by (simp_all add: client_tunToNet_def client_sendSpeed_def Let_def split_beta fecStamp_def client_record_def)
    have "numbered A (sendKey (ct_sess t)) si DupFactor (ct_sendGSN t) payload (ct_sess t)
        (map snd (fst (client_tunToNet E wr now payload t))) s"
      by (rule numbered_one [OF t(2) _ _ seal eq(4)]) (simp_all add: no_push DupFactor_def)
    with eq t seal_keeps_key [OF t(2) seal] show ?thesis by (simp add: client_sends_def)
  qed
qed

text \<open>The datagrams of packet \<open>g\<close> of a stream of packets read at given times.\<close>

definition client_send :: "tunnel_env \<Rightarrow> writer \<Rightarrow> ClientTunnel \<Rightarrow> instant \<times> bytes \<Rightarrow> writes \<times> ClientTunnel" where
  "client_send E wr t x = client_tunToNet E wr (fst x) (snd x) t"

definition client_writes :: "tunnel_env \<Rightarrow> writer \<Rightarrow> (instant \<times> bytes) list \<Rightarrow> ClientTunnel \<Rightarrow> nat \<Rightarrow> bytes list" where
  "client_writes E wr xs t = datagrams (client_send E wr) snd xs t"

interpretation csend: stream_sender "client_send E wr" snd snd ct_sess ct_sendGSN "\<lambda>_. True" "client_sends E A key si" A key si DupFactor
  for E wr A key si
  by unfold_locales (use client_tun_numbered in \<open>auto simp: client_send_def\<close>)

section \<open>The relay as a receiver\<close>

lemma arrival_sel:
  "rs_sess (snd (relay_arrival now i src rs)) = rs_sess rs"
  "rs_reorderBuf (snd (relay_arrival now i src rs)) = rs_reorderBuf rs"
  by (simp_all add: relay_arrival_def getOrCreatePath_def set_rpath_def Let_def split_beta split: option.split)

text \<open>A relay that keeps session \<open>j\<close> under index \<open>si\<close> and opens its packets with \<open>key\<close>.\<close>

definition relay_hears :: "tunnel_env \<Rightarrow> aead_impl \<Rightarrow> bytes \<Rightarrow> u32 \<Rightarrow> nat \<Rightarrow> Relay \<Rightarrow> bool" where
  "relay_hears E A key si j r \<longleftrightarrow> te_aead E = A \<and> aead_ok A \<and> length key = KeyLen \<and> map_of (r_byIndex r) si = Some j \<and>
     j < length (r_sessions r) \<and> recvKey (rs_sess (r_sessions r ! j)) = key"

definition relay_recv :: "'hs noise_impl \<Rightarrow> tunnel_env \<Rightarrow> sender \<Rightarrow> Relay \<Rightarrow> instant \<times> UDPAddr \<Rightarrow> bytes \<Rightarrow> Relay" where
  "relay_recv N E wr r e pkt = snd (handleUDP N E wr (fst e) [] pkt (snd e) r)"

lemma relay_takes:
  assumes r: "relay_hears E A key si j r" and pkt: "carries A key si gsn payload i c pkt" and R: "sess_rel (rs_sess (r_sessions r ! j)) R"
  shows "relay_hears E A key si j (relay_recv N E wr r e pkt) \<and>
    sess_rel (rs_sess (r_sessions (relay_recv N E wr r e pkt) ! j)) (if fresh c (R i) then R(i := R i @ [c]) else R) \<and>
    rs_reorderBuf (r_sessions (relay_recv N E wr r e pkt) ! j) =
      (if fresh c (R i) then Push (stream_packet gsn payload) (rs_reorderBuf (r_sessions r ! j)) else rs_reorderBuf (r_sessions r ! j))"
proof -
  let ?r = "relay_recv N E wr r e pkt"
  have k: "te_aead E = A" "aead_ok A" "length key = KeyLen" "map_of (r_byIndex r) si = Some j" "j < length (r_sessions r)"
      "recvKey (rs_sess (r_sessions r ! j)) = key"
    using r by (simp_all add: relay_hears_def)
  obtain oh h s' where o: "UnmarshalOuter pkt = Inr (oh, OuterPrefixLen)" "oh_Type oh = TypeData" "oh_SessionIndex oh = si" "oh_Nonce oh ! 0 = i"
    "openPacket A oh i (drop OuterPrefixLen pkt) (rs_sess (r_sessions r ! j)) =
       (if fresh c (R i) then Inr (h, payload) else Inl (BCrypto ErrReplay), s')"
    "ih_GSN h = gsn" "\<not> HasFlag (ih_Flags h) FlagPUSH" "sess_rel s' (if fresh c (R i) then R(i := R i @ [c]) else R)" "recvKey s' = key"
    by (rule open_carried [OF k(2,3) pkt k(6) R])
  have data: "?r = relay_handleData E (fst e) oh (drop OuterPrefixLen pkt) (snd e) r"
    using o(1,2) by (simp add: relay_recv_def handleUDP_def Let_def TypeData_def TypeHandshakeInit_def)
  have same: "same_tables r ?r" unfolding data by (rule same_handleData)
  have "rs_sess (r_sessions ?r ! j) = s'"
      "rs_reorderBuf (r_sessions ?r ! j) =
        (if fresh c (R i) then Push (stream_packet gsn payload) (rs_reorderBuf (r_sessions r ! j)) else rs_reorderBuf (r_sessions r ! j))"
    using o k
    by (auto simp: data relay_handleData_def lookup_session_def ciphertext0PathIDHint_def Let_def split_beta set_sess_def
        set_rpath_def arrival_sel reorderPacket_def stream_packet_def)
  with o(8,9) k same_length [OF same] same show ?thesis by (simp add: relay_hears_def same_tables_def)
qed

definition relay_receives ::
  "'hs noise_impl \<Rightarrow> tunnel_env \<Rightarrow> sender \<Rightarrow> (nat \<Rightarrow> bytes list) \<Rightarrow> ((instant \<times> UDPAddr) \<times> nat \<times> nat) list \<Rightarrow> Relay \<Rightarrow> Relay" where
  "relay_receives N E wr out ds r = after_receiving (relay_recv N E wr) out ds r"

interpretation up: stream "client_send E wr" snd snd ct_sess ct_sendGSN "\<lambda>_. True" "client_sends E A key si" A key si DupFactor
    "relay_recv N E' wr'" "\<lambda>e pkt. True" "\<lambda>r. rs_sess (r_sessions r ! j)" "\<lambda>r. rs_reorderBuf (r_sessions r ! j)" "relay_hears E' A key si j"
  for E wr A key si N E' wr' j
  by unfold_locales (use relay_takes in blast)+

section \<open>Properties\<close>


text \<open>A tunnel with one usable path, whose every packet goes out as one datagram.\<close>

definition ready :: "ClientTunnel \<Rightarrow> bool" where
  "ready t \<longleftrightarrow> ct_mode t = ModeSpeed \<and> ct_fecSend t = None \<and> length (sendKey (ct_sess t)) = KeyLen \<and>
     (\<exists>rr. ct_sched t = SRoundRobin rr) \<and> (\<exists>p. ct_paths t = [p] \<and> path_sendable p)"

lemma ready_send:
  assumes "ready t" and "aead_ok (te_aead E)"
  shows "length (fst (client_tunToNet E (\<lambda>_ _. True) now payload t)) = 1"
    and "ready (snd (client_tunToNet E (\<lambda>_ _. True) now payload t))"
proof -
  obtain p rr where p: "ct_paths t = [p]" "path_sendable p" "ct_sched t = SRoundRobin rr"
    using assms(1) unfolding ready_def by blast
  have new: "ae_new (te_aead E) (sendKey (ct_sess t))" using assms by (simp add: ready_def aead_ok_def)
  have "sendable (sched_view now p)" using p(2) by (simp add: path_sendable_def sendable_def sched_view_def)
  then have n: "RoundRobin_Next rr [sched_view now p] sz = (Some (sched_view now p), rr\<lparr>rr_cursor := 0\<rparr>)" for sz
    by (simp add: RoundRobin_Next_eq)
  have i: "path_index (pt_id p) [p] = Some 0" by (simp add: path_index_def)
  show "length (fst (client_tunToNet E (\<lambda>_ _. True) now payload t)) = 1"
    and "ready (snd (client_tunToNet E (\<lambda>_ _. True) now payload t))"
    using assms(1) p new n i
    by (simp_all add: ready_def client_tunToNet_def client_sendSpeed_def client_schedPaths_def sched_view_def Let_def
        sealPacket_eq fecStamp_def client_record_def set_path_def NextSendPSN_def path_tx_def path_sendable_def Path_CWND_def
        ModeSpeed_def ModeRedundant_def)
qed

lemma ready_after: "ready t \<Longrightarrow> aead_ok (te_aead E) \<Longrightarrow> ready (after_sending (client_send E (\<lambda>_ _. True)) xs t)"
  by (induction xs arbitrary: t) (auto simp: after_sending_def client_send_def intro: ready_send(2))

definition ex_tunnel :: ClientTunnel where
  "ex_tunnel = newTunnel 0 ex_client ex_resp (newSession (replicate 32 1) (replicate 32 2)) (SRoundRobin NewRoundRobin)"

lemma ex_ready: "ready ex_tunnel"
  by (simp add: ready_def ex_tunnel_def newTunnel_def ex_client_def KeyLen_def path_sendable_def SetActive_def NewPath_def
      Path_CWND_def NewController_def CWND_def initialCWND_def)

lemma ex_paired: "paired ex_tunnel ex_relay1 0"
  using sess_rel_new
  by (auto simp: paired_def ex_tunnel_def newTunnel_def ex_resp_def respPayload_def ex_relay1_fields ex_session_def ex_keys_def
      intro!: exI [of _ "\<lambda>_. []"])


end
