(* ===== verification/Goroutines.thy ===== *)
theory Goroutines
  imports EndToEnd
begin

text \<open>
  \<^verbatim>\<open>ClientTunnel.Run\<close> of \<^verbatim>\<open>core/bond/client.go\<close>: the goroutines of a running client, the channel on which they report
  their end, and the shutdown. A state holds the tunnel, the goroutines still alive, the reports not yet
  taken, whether the context is cancelled and whether the TUN device and the sockets are open. An event is
  one step of one goroutine, with what it reads or when it runs; any sequence of events is an interleaving,
  and an event of a goroutine that has ended does nothing. After a cancellation a goroutine may finish the
  iteration it is in or stop, so both remain possible.
\<close>

section \<open>State\<close>

datatype goroutine = TunToNet | DrainReorder | FecMaintenance | PathReader nat | Prober nat

datatype run_error = ErrTunRead | ErrTunWrite | ErrUDPRead u8 | ErrCanceled

text \<open>\<open>Selecting\<close>: \<^verbatim>\<open>Run\<close> waits for the context or a report. \<open>Draining\<close>: cancelled, it waits for one report.\<close>

datatype run_phase = Selecting | Draining | Returned "run_error option"

record run_state =
  rn_t :: ClientTunnel
  rn_ctx :: bool
  rn_live :: "goroutine list"
  rn_errCh :: "run_error option list"
  rn_probes :: "nat \<Rightarrow> probe_loop"
  rn_phase :: run_phase
  rn_open :: bool
  rn_sent :: writes
  rn_delivered :: "bytes list"

text \<open>The goroutines that report, and the capacity of the channel.\<close>

fun reports :: "goroutine \<Rightarrow> bool" where
  "reports FecMaintenance = False"
| "reports (Prober k) = False"
| "reports _ = True"

definition errCap :: "ClientTunnel \<Rightarrow> nat" where
  "errCap t = length (ct_paths t) + 2"

definition Run_goroutines :: "ClientTunnel \<Rightarrow> goroutine list" where
  "Run_goroutines t = [TunToNet, DrainReorder] @
     (if ct_fecSend t \<noteq> None \<or> ct_fecRecv t \<noteq> None then [FecMaintenance] else []) @
     concat (map (\<lambda>k. [PathReader k, Prober k]) [0..<length (ct_paths t)])"

definition Run :: "ClientTunnel \<Rightarrow> run_state" where
  "Run t = \<lparr> rn_t = t, rn_ctx = False, rn_live = Run_goroutines t, rn_errCh = [], rn_probes = (\<lambda>_. probe_start),
     rn_phase = Selecting, rn_open = True, rn_sent = [], rn_delivered = [] \<rparr>"

section \<open>Steps\<close>

definition returns :: "goroutine \<Rightarrow> run_error option \<Rightarrow> run_state \<Rightarrow> run_state" where
  "returns g err s =
     s\<lparr>rn_live := remove1 g (rn_live s), rn_errCh := (if reports g then rn_errCh s @ [err] else rn_errCh s)\<rparr>"

definition closeAll :: "run_state \<Rightarrow> run_state" where
  "closeAll s = s\<lparr>rn_open := False\<rparr>"

definition conn_Write :: "writer \<Rightarrow> run_state \<Rightarrow> writer" where
  "conn_Write wr s = (\<lambda>i pkt. rn_open s \<and> wr i pkt)"

fun tun_batch :: "tunnel_env \<Rightarrow> writer \<Rightarrow> (instant \<times> bytes) list \<Rightarrow> ClientTunnel \<Rightarrow> writes \<times> ClientTunnel" where
  "tun_batch E wr [] t = ([], t)"
| "tun_batch E wr ((now, payload) # rest) t =
     (let (ws, t) = client_tunToNet E wr now payload t;
          (ws', t) = tun_batch E wr rest t
      in (ws @ ws', t))"

text \<open>Outcomes of reads are \<open>None\<close> for an error; \<open>Stop\<close>: a goroutine sees the cancellation; \<open>Select\<close>: \<^verbatim>\<open>Run\<close> looks at
  the context, or at the channel; \<open>Deadline\<close>: the timer of the reorder buffer.\<close>

datatype run_event =
    TunRead "(instant \<times> bytes) list option"
  | TunWrite bool
  | FecTick instant
  | PathRead nat instant "bytes option"
  | ProbeTick nat instant instant instant
  | Deadline u64
  | Stop goroutine
  | Cancel
  | Select bool

definition tunToNet_step :: "tunnel_env \<Rightarrow> writer \<Rightarrow> (instant \<times> bytes) list option \<Rightarrow> run_state \<Rightarrow> run_state" where
  "tunToNet_step E wr r s =
     (case (if rn_open s then r else None) of
        None \<Rightarrow> returns TunToNet (Some ErrTunRead) s
      | Some batch \<Rightarrow>
          let (ws, t) = tun_batch E (conn_Write wr s) batch (rn_t s)
          in s\<lparr>rn_t := t, rn_sent := rn_sent s @ ws\<rparr>)"

definition drain_step :: "bool \<Rightarrow> run_state \<Rightarrow> run_state" where
  "drain_step ok s =
     (case client_drainReorderToTun (rn_t s) of
        (None, t) \<Rightarrow> s
      | (Some pkt, t) \<Rightarrow>
          if rn_open s \<and> ok then s\<lparr>rn_t := t, rn_delivered := rn_delivered s @ [pkt]\<rparr>
          else returns DrainReorder (Some ErrTunWrite) (s\<lparr>rn_t := t\<rparr>))"

definition fec_tick :: "tunnel_env \<Rightarrow> writer \<Rightarrow> instant \<Rightarrow> run_state \<Rightarrow> run_state" where
  "fec_tick E wr now s =
     (let (ws, t) = client_fecMaintenance E (conn_Write wr s) now (rn_t s)
      in s\<lparr>rn_t := t, rn_sent := rn_sent s @ ws\<rparr>)"

definition pathRead_step :: "tunnel_env \<Rightarrow> writer \<Rightarrow> nat \<Rightarrow> instant \<Rightarrow> bytes option \<Rightarrow> run_state \<Rightarrow> run_state" where
  "pathRead_step E wr k now r s =
     (case (if rn_open s then r else None) of
        None \<Rightarrow> returns (PathReader k) (Some (ErrUDPRead (pt_id (ct_paths (rn_t s) ! k)))) s
      | Some buf \<Rightarrow>
          let (ws, t) = client_pathRead E (conn_Write wr s) now k buf (rn_t s)
          in s\<lparr>rn_t := t, rn_sent := rn_sent s @ ws\<rparr>)"

definition probe_step ::
  "tunnel_env \<Rightarrow> writer \<Rightarrow> nat \<Rightarrow> instant \<Rightarrow> instant \<Rightarrow> instant \<Rightarrow> run_state \<Rightarrow> run_state" where
  "probe_step E wr k now sentAt idleAt s =
     (case client_probeTick E (conn_Write wr s) now sentAt idleAt k (rn_probes s k) (rn_t s) of
        (ws, None, t) \<Rightarrow> returns (Prober k) None (s\<lparr>rn_t := t, rn_sent := rn_sent s @ ws\<rparr>)
      | (ws, Some pl, t) \<Rightarrow> s\<lparr>rn_t := t, rn_sent := rn_sent s @ ws, rn_probes := (rn_probes s)(k := pl)\<rparr>)"

definition select_step :: "bool \<Rightarrow> run_state \<Rightarrow> run_state" where
  "select_step ctxDone s =
     (case rn_phase s of
        Selecting \<Rightarrow>
          if ctxDone then (if rn_ctx s then (closeAll s)\<lparr>rn_phase := Draining\<rparr> else s)
          else (case rn_errCh s of
                  [] \<Rightarrow> s
                | err # rest \<Rightarrow> (closeAll s)\<lparr>rn_errCh := rest, rn_phase := Returned err\<rparr>)
      | Draining \<Rightarrow>
          (case rn_errCh s of
             [] \<Rightarrow> s
           | err # rest \<Rightarrow> s\<lparr>rn_errCh := rest, rn_phase := Returned (Some ErrCanceled)\<rparr>)
      | Returned err \<Rightarrow> s)"

fun run_step :: "tunnel_env \<Rightarrow> writer \<Rightarrow> run_state \<Rightarrow> run_event \<Rightarrow> run_state" where
  "run_step E wr s (TunRead r) = (if TunToNet \<in> set (rn_live s) then tunToNet_step E wr r s else s)"
| "run_step E wr s (TunWrite ok) = (if DrainReorder \<in> set (rn_live s) then drain_step ok s else s)"
| "run_step E wr s (FecTick now) = (if FecMaintenance \<in> set (rn_live s) then fec_tick E wr now s else s)"
| "run_step E wr s (PathRead k now r) = (if PathReader k \<in> set (rn_live s) then pathRead_step E wr k now r s else s)"
| "run_step E wr s (ProbeTick k now sentAt idleAt) =
     (if Prober k \<in> set (rn_live s) then probe_step E wr k now sentAt idleAt s else s)"
| "run_step E wr s (Deadline g) =
     s\<lparr>rn_t := (rn_t s)\<lparr>ct_reorderBuf := onDeadline g (ct_reorderBuf (rn_t s))\<rparr>\<rparr>"
| "run_step E wr s (Stop g) = (if rn_ctx s \<and> g \<in> set (rn_live s) then returns g None s else s)"
| "run_step E wr s Cancel = s\<lparr>rn_ctx := True\<rparr>"
| "run_step E wr s (Select ctxDone) = select_step ctxDone s"

section \<open>The loops of the relay\<close>

text \<open>\<^verbatim>\<open>ServeUDP\<close> and \<^verbatim>\<open>ServeTUN\<close> end with the first read that fails; the arguments are the datagrams and the batches
  read before it.\<close>

fun ServeUDP ::
  "'hs noise_impl \<Rightarrow> tunnel_env \<Rightarrow> sender \<Rightarrow> (instant \<times> u32 list \<times> bytes \<times> UDPAddr) list \<Rightarrow> Relay \<Rightarrow> sends \<times> Relay" where
  "ServeUDP N E wr [] r = ([], r)"
| "ServeUDP N E wr ((now, draws, buf, src) # rest) r =
     (let (ws, r) = handleUDP N E wr now draws buf src r;
          (ws', r) = ServeUDP N E wr rest r
      in (ws @ ws', r))"

fun serve_batch :: "tunnel_env \<Rightarrow> sender \<Rightarrow> (instant \<times> bytes) list \<Rightarrow> Relay \<Rightarrow> sends \<times> Relay" where
  "serve_batch E wr [] r = ([], r)"
| "serve_batch E wr ((now, pkt) # rest) r =
     (let (ws, r) = serveTUN E wr now pkt r;
          (ws', r) = serve_batch E wr rest r
      in (ws @ ws', r))"

fun ServeTUN :: "tunnel_env \<Rightarrow> sender \<Rightarrow> (instant \<times> bytes) list list \<Rightarrow> Relay \<Rightarrow> sends \<times> Relay" where
  "ServeTUN E wr [] r = ([], r)"
| "ServeTUN E wr (batch # rest) r =
     (let (ws, r) = serve_batch E wr batch r;
          (ws', r) = ServeTUN E wr rest r
      in (ws @ ws', r))"

text \<open>Their effect on the relay is that of the steps the relay's invariants are proved for.\<close>

lemma ServeUDP_steps:
  "snd (ServeUDP N E wr ds r) = foldl (relay_step N E wr) r (map (\<lambda>(now, draws, buf, src). EvUDP now draws buf src) ds)"
  by (induction ds arbitrary: r) (simp, case_tac a, simp add: Let_def case_prod_beta')

lemma serve_batch_steps: "snd (serve_batch E wr ps r) = foldl (relay_step N E wr) r (map (\<lambda>(now, pkt). EvTUN now pkt) ps)"
  by (induction ps arbitrary: r) (simp, case_tac a, simp add: Let_def case_prod_beta')

lemma ServeTUN_steps:
  "snd (ServeTUN E wr bs r) = foldl (relay_step N E wr) r (map (\<lambda>(now, pkt). EvTUN now pkt) (concat bs))"
  by (induction bs arbitrary: r) (simp_all add: Let_def case_prod_beta' serve_batch_steps [of _ _ _ _ N])

section \<open>The channel\<close>

text \<open>Every goroutine that reports does so once: those alive, the reports waiting and the one taken add up to
  the capacity.\<close>

fun taken :: "run_phase \<Rightarrow> nat" where
  "taken (Returned err) = 1"
| "taken _ = 0"

definition chan_inv :: "nat \<Rightarrow> run_state \<Rightarrow> bool" where
  "chan_inv cap s \<longleftrightarrow> distinct (rn_live s) \<and>
     length (filter reports (rn_live s)) + length (rn_errCh s) + taken (rn_phase s) = cap"

definition quiet_inv :: "run_state \<Rightarrow> bool" where
  "quiet_inv s \<longleftrightarrow> (None \<in> set (rn_errCh s) \<longrightarrow> rn_ctx s) \<and> Some ErrCanceled \<notin> set (rn_errCh s) \<and>
     (rn_phase s = Selecting \<longleftrightarrow> rn_open s) \<and> (rn_phase s = Draining \<longrightarrow> rn_ctx s) \<and>
     (\<forall>err. rn_phase s = Returned err \<longrightarrow> err = None \<or> err = Some ErrCanceled \<longrightarrow> rn_ctx s)"

definition run_inv :: "nat \<Rightarrow> run_state \<Rightarrow> bool" where
  "run_inv cap s \<longleftrightarrow> chan_inv cap s \<and> quiet_inv s"

lemma returns_inv:
  assumes "run_inv cap s" and "g \<in> set (rn_live s)" and "err = None \<longrightarrow> rn_ctx s \<or> \<not> reports g" and "err \<noteq> Some ErrCanceled"
  shows "run_inv cap (returns g err s)"
proof -
  obtain xs ys where l: "rn_live s = xs @ g # ys" "g \<notin> set xs" using split_list_first [OF assms(2)] by blast
  then have "remove1 g (rn_live s) = xs @ ys" by (simp add: remove1_append)
  then show ?thesis using assms l by (auto simp: run_inv_def chan_inv_def quiet_inv_def returns_def)
qed

lemma run_inv_tunnel [simp]:
  "run_inv cap (s\<lparr>rn_t := t\<rparr>) = run_inv cap s" "run_inv cap (s\<lparr>rn_sent := ws\<rparr>) = run_inv cap s"
  "run_inv cap (s\<lparr>rn_delivered := ps\<rparr>) = run_inv cap s" "run_inv cap (s\<lparr>rn_probes := f\<rparr>) = run_inv cap s"
  by (simp_all add: run_inv_def chan_inv_def quiet_inv_def)

lemma select_inv: "run_inv cap s \<Longrightarrow> run_inv cap (select_step ctxDone s)"
  by (cases "rn_phase s"; cases "rn_errCh s")
    (auto simp: run_inv_def chan_inv_def quiet_inv_def select_step_def closeAll_def)

interpretation runs: step_system "run_step E wr" "run_inv cap" "\<lambda>_. True" for E wr cap
proof
  fix s e
  assume inv: "run_inv cap s"
  have inv_t: "run_inv cap (s\<lparr>rn_t := t\<rparr>)" "run_inv cap (s\<lparr>rn_t := t, rn_sent := ws\<rparr>)" for t ws using inv by simp_all
  show "run_inv cap (run_step E wr s e)"
    using inv returns_inv [OF inv] returns_inv [OF inv_t(1)] returns_inv [OF inv_t(2)]
    by (cases e)
      (auto simp: tunToNet_step_def drain_step_def fec_tick_def pathRead_step_def probe_step_def Let_def select_inv
        split: option.split prod.split,
       simp add: run_inv_def chan_inv_def quiet_inv_def)
qed

lemma start_inv: "run_inv (errCap t) (Run t)"
proof -
  have "filter reports (concat (map (\<lambda>k. [PathReader k, Prober k]) ks)) = map PathReader ks" for ks by (induction ks) auto
  moreover have "distinct (concat (map (\<lambda>k. [PathReader k, Prober k]) ks))" if "distinct ks" for ks
    using that by (induction ks) auto
  ultimately show ?thesis by (auto simp: run_inv_def chan_inv_def quiet_inv_def Run_def Run_goroutines_def errCap_def)
qed

lemma run_keeps: "run_inv (errCap t) (foldl (run_step E wr) (Run t) evs)"
  by (rule runs.inv_run [OF start_inv]) (simp add: list_all_iff)

section \<open>After the end\<close>

text \<open>A client whose sockets are closed sends nothing.\<close>

abbreviation mute :: writer where "mute \<equiv> \<lambda>i pkt. False"

lemma mute_sendFECParity: "fst (client_sendFECParity E mute now c t) = []"
  by (simp add: client_sendFECParity_def Let_def split_beta split: option.split sum.split)

lemma mute_sendParities: "fst (client_sendParities E mute now cs t) = []"
  by (induction cs arbitrary: t) (simp_all add: Let_def split_beta mute_sendFECParity)

lemma mute_record: "fst (client_record E mute now slot t) = []"
  by (simp add: client_record_def Let_def split_beta mute_sendParities split: option.split)

lemma mute_dup_loop: "fst (client_dup_loop E mute gsn payload i ks t) = []"
  by (induction ks arbitrary: t i) (auto simp: Let_def split_beta split: sum.split prod.split)

lemma mute_tunToNet: "fst (client_tunToNet E mute now payload t) = []"
  by (auto simp: client_tunToNet_def client_sendSpeed_def client_sendRedundant_def Let_def split_beta mute_dup_loop mute_record
      split: option.split sum.split)

lemma mute_batch: "fst (tun_batch E mute batch t) = []"
  by (induction batch arbitrary: t) (auto simp: Let_def split_beta mute_tunToNet)

lemma mute_fecMaintenance: "fst (client_fecMaintenance E mute now t) = []"
  by (simp add: client_fecMaintenance_def Let_def split_beta mute_sendParities split: option.split)

lemma mute_pathRead: "fst (client_pathRead E mute now k buf t) = []"
  by (simp add: client_pathRead_def client_onProbe_def Let_def split_beta split: sum.split prod.split)

lemma mute_probe: "fst (client_probeTick E mute now sentAt idleAt k pl t) = []"
  by (simp add: client_probeTick_def Let_def split_beta split: sum.split prod.split)

lemma closed_mute: "\<not> rn_open s \<Longrightarrow> conn_Write wr s = mute"
  by (simp add: conn_Write_def)

lemmas mute_steps = mute_batch mute_fecMaintenance mute_pathRead mute_probe

lemma closed_step:
  assumes "\<not> rn_open s"
  shows "\<not> rn_open (run_step E wr s e) \<and> rn_sent (run_step E wr s e) = rn_sent s \<and>
    rn_delivered (run_step E wr s e) = rn_delivered s"
  using assms
  by (cases e)
    (auto simp: mute_steps tunToNet_step_def drain_step_def fec_tick_def pathRead_step_def probe_step_def select_step_def closeAll_def
      returns_def closed_mute Let_def split_beta split: option.split run_phase.split list.split)

lemma closed_run:
  "\<not> rn_open s \<Longrightarrow> rn_sent (foldl (run_step E wr) s evs) = rn_sent s \<and> rn_delivered (foldl (run_step E wr) s evs) = rn_delivered s"
  by (induction evs arbitrary: s) (simp_all add: closed_step)

section \<open>Shutdown\<close>

text \<open>Once a report waits in a cancelled client it is there until \<^verbatim>\<open>Run\<close> takes it.\<close>

definition has_report :: "run_state \<Rightarrow> bool" where
  "has_report s \<longleftrightarrow> rn_ctx s \<and> (rn_errCh s \<noteq> [] \<or> (\<exists>err. rn_phase s = Returned err))"

definition ending :: "run_state \<Rightarrow> bool" where
  "ending s \<longleftrightarrow> has_report s \<and> rn_phase s \<noteq> Selecting"

lemma report_stays: "has_report s \<Longrightarrow> has_report (run_step E wr s e)"
  by (cases e)
    (auto simp: has_report_def tunToNet_step_def drain_step_def fec_tick_def pathRead_step_def probe_step_def select_step_def
      closeAll_def returns_def Let_def split: prod.split option.split run_phase.split list.split)

lemma phase_stays: "rn_phase s \<noteq> Selecting \<Longrightarrow> rn_phase (run_step E wr s e) \<noteq> Selecting"
  by (cases e)
    (auto simp: tunToNet_step_def drain_step_def fec_tick_def pathRead_step_def probe_step_def select_step_def closeAll_def
      returns_def Let_def split: prod.split option.split run_phase.split list.split)

interpretation reported: step_system "run_step E wr" has_report "\<lambda>_. True" for E wr
  by unfold_locales (rule report_stays)

interpretation ends: step_system "run_step E wr" ending "\<lambda>_. True" for E wr
  by unfold_locales (simp add: ending_def report_stays phase_stays)

lemma select_ends: "has_report s \<Longrightarrow> ending (select_step True s)"
  by (auto simp: ending_def has_report_def select_step_def closeAll_def split: run_phase.split list.split)

lemma ending_returns: "ending s \<Longrightarrow> \<exists>err. rn_phase (select_step b s) = Returned err"
  by (auto simp: ending_def has_report_def select_step_def split: run_phase.split list.split)

section \<open>Properties\<close>

text \<open>C27. A client that is told to stop stops: whatever happened before, a cancelled \<^verbatim>\<open>Run\<close> has returned, has a
  report to take, or has a goroutine that will report; and once any one of them has reported, \<^verbatim>\<open>Run\<close> returns
  as soon as it has looked at the context and at the channel, whatever else happens in between.\<close>

theorem run_shutdown:
  assumes "s = foldl (run_step E wr) (Run t) evs" and "rn_ctx s"
  shows "(has_report s \<or> (\<exists>g \<in> set (rn_live s). reports g)) \<and>
    (\<forall>g \<in> set (rn_live s). reports g \<longrightarrow>
       (\<forall>evs1 evs2 b. \<exists>err. rn_phase (foldl (run_step E wr) s ([Stop g] @ evs1 @ [Select True] @ evs2 @ [Select b])) = Returned err))"
proof (intro conjI ballI impI allI)
  have "run_inv (errCap t) s" unfolding assms(1) by (rule run_keeps)
  then have "has_report s \<or> filter reports (rn_live s) \<noteq> []"
    using assms(2) by (cases "rn_phase s") (auto simp: run_inv_def chan_inv_def has_report_def errCap_def simp del: filter_False)
  then show "has_report s \<or> (\<exists>g \<in> set (rn_live s). reports g)" by (auto simp: filter_empty_conv)
  fix g evs1 evs2 b
  assume g: "g \<in> set (rn_live s)" "reports g"
  then have "has_report (run_step E wr s (Stop g))" using assms(2) by (simp add: has_report_def returns_def)
  then have "has_report (foldl (run_step E wr) s ([Stop g] @ evs1))"
    using reported.inv_run [of "run_step E wr s (Stop g)" evs1 E wr] by (simp add: list_all_iff)
  then have "ending (foldl (run_step E wr) s ([Stop g] @ evs1 @ [Select True]))" by (simp add: select_ends)
  then have "ending (foldl (run_step E wr) s ([Stop g] @ evs1 @ [Select True] @ evs2))"
    using ends.inv_run [of "foldl (run_step E wr) s ([Stop g] @ evs1 @ [Select True])" evs2 E wr] by (simp add: list_all_iff)
  then show "\<exists>err. rn_phase (foldl (run_step E wr) s ([Stop g] @ evs1 @ [Select True] @ evs2 @ [Select b])) = Returned err"
    by (simp add: ending_returns)
qed

text \<open>Reports are never lost and never block: over any interleaving each goroutine that reports does so at most
  once, the channel stays within its capacity and has room for every goroutine still to report; and \<^verbatim>\<open>Run\<close>
  returns without a failure only after a cancellation, with the device and the sockets closed.\<close>

theorem run_reports:
  assumes "s = foldl (run_step E wr) (Run t) evs"
  shows "length (rn_errCh s) + length (filter reports (rn_live s)) \<le> errCap t \<and> distinct (rn_live s) \<and>
    (\<forall>err. rn_phase s = Returned err \<longrightarrow> \<not> rn_open s \<and> (err = None \<or> err = Some ErrCanceled \<longrightarrow> rn_ctx s))"
proof -
  have "run_inv (errCap t) s" unfolding assms by (rule run_keeps)
  then show ?thesis by (auto simp: run_inv_def chan_inv_def quiet_inv_def)
qed

text \<open>C19. One failing uplink takes the whole tunnel down: if reading the socket of any one path fails, \<^verbatim>\<open>Run\<close> returns
  that error, and from then on nothing is sent on any path and nothing delivered, however healthy the other
  paths are.\<close>

theorem path_error_ends_tunnel:
  assumes "s = foldl (run_step E wr) (Run t) evs" and "rn_phase s = Selecting" and "rn_errCh s = []" and "PathReader k \<in> set (rn_live s)"
    and "s' = foldl (run_step E wr) s [PathRead k now None, Select False]"
  shows "rn_phase s' = Returned (Some (ErrUDPRead (pt_id (ct_paths (rn_t s) ! k)))) \<and> ct_paths (rn_t s') = ct_paths (rn_t s) \<and>
    (\<forall>evs'. rn_sent (foldl (run_step E wr) s' evs') = rn_sent s \<and> rn_delivered (foldl (run_step E wr) s' evs') = rn_delivered s)"
proof -
  have s': "s' = s\<lparr>rn_live := remove1 (PathReader k) (rn_live s), rn_open := False, rn_errCh := [],
      rn_phase := Returned (Some (ErrUDPRead (pt_id (ct_paths (rn_t s) ! k))))\<rparr>"
    using assms by (simp add: pathRead_step_def returns_def select_step_def closeAll_def)
  have "\<not> rn_open s'" by (simp add: s')
  from closed_run [OF this] show ?thesis by (simp add: s')
qed

section \<open>A client with two paths\<close>

definition ex_two :: ClientTunnel where
  "ex_two = ex_tunnel\<lparr>ct_paths := [SetActive (NewPath 0), SetActive (NewPath 1)]\<rparr>"

lemma ex_two_live: "Run_goroutines ex_two = [TunToNet, DrainReorder, PathReader 0, Prober 0, PathReader 1, Prober 1]"
  by (simp add: Run_goroutines_def ex_two_def ex_tunnel_def newTunnel_def ex_client_def)

theorem run_shutdown_witness:
  "\<exists>err. rn_phase (foldl (run_step ex_env (\<lambda>_ _. True)) (Run ex_two)
     ([Cancel] @ [Stop (PathReader 1)] @ [TunRead None] @ [Select True] @ [Deadline 0] @ [Select False])) = Returned err"
proof -
  let ?st = "run_step ex_env (\<lambda>_ _. True)"
  have "rn_ctx (foldl ?st (Run ex_two) [Cancel])" "PathReader 1 \<in> set (rn_live (foldl ?st (Run ex_two) [Cancel]))"
    by (simp_all add: Run_def ex_two_live)
  from run_shutdown [OF refl this(1), THEN conjunct2, rule_format, OF this(2), of "[TunRead None]" "[Deadline 0]" False]
  show ?thesis by simp
qed

theorem run_reports_witness:
  "length (rn_errCh (foldl (run_step ex_env (\<lambda>_ _. True)) (Run ex_two) [PathRead 0 0 None, TunRead None])) \<le> 4"
  using run_reports [OF refl, of ex_env "\<lambda>_ _. True" ex_two "[PathRead 0 0 None, TunRead None]"]
  by (auto simp: errCap_def ex_two_def)

theorem path_error_ends_tunnel_witness:
  "rn_phase (foldl (run_step ex_env (\<lambda>_ _. True)) (Run ex_two) [PathRead 1 0 None, Select False]) = Returned (Some (ErrUDPRead 1)) \<and>
   pt_state (ct_paths (rn_t (foldl (run_step ex_env (\<lambda>_ _. True)) (Run ex_two) [PathRead 1 0 None, Select False])) ! 0) = StateActive \<and>
   rn_sent (foldl (run_step ex_env (\<lambda>_ _. True)) (foldl (run_step ex_env (\<lambda>_ _. True)) (Run ex_two) [PathRead 1 0 None, Select False])
     [TunRead (Some [(0, [1, 2, 3])])]) = []"
proof -
  have "Run ex_two = foldl (run_step ex_env (\<lambda>_ _. True)) (Run ex_two) []" "rn_phase (Run ex_two) = Selecting" "rn_errCh (Run ex_two) = []"
      "PathReader 1 \<in> set (rn_live (Run ex_two))"
    by (simp_all add: Run_def ex_two_live)
  note e = path_error_ends_tunnel [OF this refl, of 0]
  have "pt_state (ct_paths (rn_t (Run ex_two)) ! 0) = StateActive" "pt_id (ct_paths (rn_t (Run ex_two)) ! 1) = 1" "rn_sent (Run ex_two) = []"
    by (simp_all add: Run_def ex_two_def SetActive_def NewPath_def)
  with e show ?thesis by metis
qed

end
