(* ===== verification/Diag_Server.thy ===== *)
theory Diag_Server
  imports Pool
begin

text \<open>
  The diagnostics servers: \<^verbatim>\<open>core/diag/server.go\<close>, which both programs use, and \<^verbatim>\<open>diag/server.go\<close>. The listener is an
  argument, the address \<^verbatim>\<open>net.Listen\<close> bound or an error; a snapshot is any value. The two handlers are modelled
  and the registration of their paths; the rest of HTTP and the printing of JSON belong to the library.
\<close>

section \<open>Addresses\<close>

text \<open>\<^verbatim>\<open>IP.IsLoopback\<close>.\<close>

definition IsLoopback :: "bytes \<Rightarrow> bool" where
  "IsLoopback ip = (case To4 ip of Some ip4 \<Rightarrow> ip4 ! 0 = 127 | None \<Rightarrow> ip = replicate 15 0 @ [1])"

section \<open>Handlers\<close>

datatype 'a body = Empty | Text string | JSON 'a

record 'a response =
  hr_status :: nat
  hr_header :: "(string \<times> string) list"
  hr_body :: "'a body"

definition handle_diagnostics :: "bool \<Rightarrow> string \<Rightarrow> 'a \<Rightarrow> 'a response" where
  "handle_diagnostics cors meth snap =
     (if meth \<noteq> ''GET'' then \<lparr> hr_status = 405, hr_header = [], hr_body = Empty \<rparr>
      else \<lparr> hr_status = 200,
             hr_header = (if cors then [(''Access-Control-Allow-Origin'', ''*'')] else []) @ [(''Content-Type'', ''application/json'')],
             hr_body = JSON snap \<rparr>)"

definition core_healthz :: "string \<Rightarrow> 'a response" where
  "core_healthz meth = \<lparr> hr_status = 200, hr_header = [], hr_body = Text ''ok'' \<rparr>"

definition diag_healthz :: "string \<Rightarrow> 'a response" where
  "diag_healthz meth =
     (if meth \<noteq> ''GET'' then \<lparr> hr_status = 405, hr_header = [], hr_body = Empty \<rparr>
      else \<lparr> hr_status = 200, hr_header = [], hr_body = Text ''ok'' \<rparr>)"

section \<open>Servers\<close>

datatype server_error = ErrNilSnapshot | ErrListen | ErrNotLoopback

text \<open>A server: the address it listens on and its handlers, which take the method and the snapshot of the moment.\<close>

record 'a Server =
  sv_addr :: bytes
  sv_mux :: "(string \<times> (string \<Rightarrow> 'a \<Rightarrow> 'a response)) list"

text \<open>With the warning it logs.\<close>

definition core_NewServer :: "bytes option \<Rightarrow> (server_error + 'a Server) \<times> bool" where
  "core_NewServer ln =
     (case ln of
        None \<Rightarrow> (Inl ErrListen, False)
      | Some addr \<Rightarrow>
          (Inr \<lparr> sv_addr = addr,
                 sv_mux = [(''/api/v1/diagnostics'', handle_diagnostics True), (''/healthz'', \<lambda>meth _. core_healthz meth)] \<rparr>,
           \<not> IsLoopback addr))"

definition diag_NewServer :: "bytes option \<Rightarrow> bool \<Rightarrow> server_error + 'a Server" where
  "diag_NewServer ln hasSnap =
     (if \<not> hasSnap then Inl ErrNilSnapshot
      else case ln of
             None \<Rightarrow> Inl ErrListen
           | Some addr \<Rightarrow>
               if \<not> IsLoopback addr then Inl ErrNotLoopback
               else Inr \<lparr> sv_addr = addr,
                          sv_mux = [(''/api/v1/diagnostics'', handle_diagnostics False), (''/healthz'', \<lambda>meth _. diag_healthz meth)] \<rparr>)"

text \<open>\<^verbatim>\<open>Serve\<close> hides the error of an orderly end.\<close>

definition Serve :: "'e option \<Rightarrow> 'e \<Rightarrow> 'e option" where
  "Serve err errServerClosed = (case err of None \<Rightarrow> None | Some e \<Rightarrow> if e \<noteq> errServerClosed then Some e else None)"

section \<open>Properties\<close>

text \<open>Every handler of either server that shows a snapshot does so for \<^verbatim>\<open>GET\<close> alone.\<close>

lemma snapshot_only_GET:
  assumes "fst (core_NewServer ln) = Inr sv \<or> diag_NewServer ln hasSnap = Inr sv" and "(p, h) \<in> set (sv_mux sv)" and "hr_body (h meth snap) = JSON x"
  shows "p = ''/api/v1/diagnostics'' \<and> meth = ''GET'' \<and> x = snap"
  using assms
  by (auto simp: core_NewServer_def diag_NewServer_def handle_diagnostics_def core_healthz_def diag_healthz_def split: option.splits if_splits)

text \<open>Statistics stay on the machine only in one of the two servers: the one in \<^verbatim>\<open>diag\<close> never listens on an address
  other than loopback, while the one in \<^verbatim>\<open>core/diag\<close>, which the programs use, serves them to any web page on
  whatever address it was given, and only logs a warning.\<close>

theorem diagnostics_exposure:
  "(\<forall>sv. diag_NewServer ln hasSnap = Inr sv \<longrightarrow> IsLoopback (sv_addr sv)) \<and>
   (\<forall>addr. ln = Some addr \<longrightarrow> (\<exists>sv. core_NewServer ln = (Inr sv, \<not> IsLoopback addr) \<and> sv_addr sv = addr \<and>
      (\<forall>snap. \<exists>h. map_of (sv_mux sv) ''/api/v1/diagnostics'' = Some h \<and> hr_body (h ''GET'' snap) = JSON snap \<and>
         (''Access-Control-Allow-Origin'', ''*'') \<in> set (hr_header (h ''GET'' snap)))))"
  by (auto simp: core_NewServer_def diag_NewServer_def handle_diagnostics_def split: option.splits if_splits)

theorem diagnostics_exposure_witness:
  "\<exists>sv :: nat Server. core_NewServer (Some [192, 0, 2, 1]) = (Inr sv, True) \<and> sv_addr sv = [192, 0, 2, 1]"
proof -
  have "\<not> IsLoopback [192, 0, 2, 1]" by (simp add: IsLoopback_def To4_def)
  with diagnostics_exposure [of "Some [192, 0, 2, 1]" True, where 'a = nat and 'b = nat] show ?thesis by auto
qed

end
