(* ===== verification/Host.thy ===== *)
theory Host
  imports Prelude
begin

text \<open>
  The host's network configuration: \<^verbatim>\<open>core/tun/linux.go\<close> and \<^verbatim>\<open>relay/nat/nat.go\<close>. Both run external commands; an
  operation extends the list of commands run so far, and \<open>ex\<close> says whether a command succeeds after those
  run before it. The sockets of the paths are in \<open>Sockets\<close>. Lines of command output are shorter
  than the line limit of \<^verbatim>\<open>bufio.Scanner\<close>.
\<close>

type_synonym command = "gostring list"
type_synonym executor = "command list \<Rightarrow> command \<Rightarrow> bool"

datatype host_error = ErrLinkUp | ErrAddrAdd | ErrRouteAdd gostring | ErrRoute | ErrRouteGet | ErrNoDevice | ErrMasquerade

definition run :: "executor \<Rightarrow> command \<Rightarrow> command list \<Rightarrow> bool \<times> command list" where
  "run ex c tr = (ex tr c, tr @ [c])"

abbreviation w_ip :: gostring where "w_ip \<equiv> runes ''ip''"
abbreviation w_route :: gostring where "w_route \<equiv> runes ''route''"
abbreviation w_dev :: gostring where "w_dev \<equiv> runes ''dev''"

definition cmd_link_up :: "gostring \<Rightarrow> command" where
  "cmd_link_up ifName = [w_ip, runes ''link'', runes ''set'', w_dev, ifName, runes ''up'']"

definition cmd_addr_add :: "gostring \<Rightarrow> gostring \<Rightarrow> command" where
  "cmd_addr_add localCIDR ifName = [w_ip, runes ''addr'', runes ''add'', localCIDR, w_dev, ifName]"

definition cmd_route_add :: "gostring \<Rightarrow> gostring \<Rightarrow> command" where
  "cmd_route_add cidr ifName = [w_ip, w_route, runes ''add'', cidr, w_dev, ifName]"

fun route_loop :: "executor \<Rightarrow> gostring \<Rightarrow> gostring list \<Rightarrow> command list \<Rightarrow> host_error option \<times> command list" where
  "route_loop ex ifName [] tr = (None, tr)"
| "route_loop ex ifName (r # rs) tr =
     (let (ok, tr) = run ex (cmd_route_add r ifName) tr
      in if \<not> ok then (Some (ErrRouteAdd r), tr) else route_loop ex ifName rs tr)"

definition Configure ::
  "executor \<Rightarrow> gostring \<Rightarrow> gostring \<Rightarrow> gostring list \<Rightarrow> command list \<Rightarrow> host_error option \<times> command list" where
  "Configure ex ifName localCIDR routes tr =
     (let (ok, tr) = run ex (cmd_link_up ifName) tr
      in if \<not> ok then (Some ErrLinkUp, tr)
         else let (ok, tr) = run ex (cmd_addr_add localCIDR ifName) tr
              in if \<not> ok then (Some ErrAddrAdd, tr) else route_loop ex ifName routes tr)"

definition AddHostRoute :: "executor \<Rightarrow> gostring \<Rightarrow> gostring \<Rightarrow> command list \<Rightarrow> host_error option \<times> command list" where
  "AddHostRoute ex dstIP viaDev tr =
     (let (ok, tr) = run ex (cmd_route_add (dstIP @ runes ''/32'') viaDev) tr
      in (if ok then None else Some ErrRoute, tr))"

definition DelRoute :: "executor \<Rightarrow> gostring \<Rightarrow> command list \<Rightarrow> host_error option \<times> command list" where
  "DelRoute ex cidr tr =
     (let (ok, tr) = run ex [w_ip, w_route, runes ''del'', cidr] tr in (if ok then None else Some ErrRoute, tr))"

text \<open>The lines \<^verbatim>\<open>bufio.Scanner\<close> yields: split at line feeds, a carriage return before one dropped, no empty last line.\<close>

definition drop_cr :: "gostring \<Rightarrow> gostring" where
  "drop_cr s = (if s \<noteq> [] \<and> List.last s = 13 then butlast s else s)"

definition scan_lines :: "gostring \<Rightarrow> gostring list" where
  "scan_lines s = (let ls = strings_Split s 10 in map drop_cr (if List.last ls = [] then butlast ls else ls))"

fun dev_field :: "gostring list \<Rightarrow> gostring option" where
  "dev_field (f # g # fs) = (if f = w_dev then Some g else dev_field (g # fs))"
| "dev_field _ = None"

fun dev_line :: "gostring list \<Rightarrow> gostring option" where
  "dev_line [] = None"
| "dev_line (l # ls) = (case dev_field (strings_Fields l) of Some d \<Rightarrow> Some d | None \<Rightarrow> dev_line ls)"

text \<open>\<open>out\<close> is what the command prints, when it succeeds.\<close>

definition EgressDevice ::
  "executor \<Rightarrow> gostring \<Rightarrow> gostring \<Rightarrow> command list \<Rightarrow> (host_error + gostring) \<times> command list" where
  "EgressDevice ex out dst tr =
     (let (ok, tr) = run ex [w_ip, w_route, runes ''get'', dst] tr
      in if \<not> ok then (Inl ErrRouteGet, tr)
         else case dev_line (scan_lines out) of
                Some d \<Rightarrow> (Inr d, tr)
              | None \<Rightarrow> (Inl ErrNoDevice, tr))"

text \<open>The rule and the command that takes it back.\<close>

definition masquerade_cmd :: "string \<Rightarrow> gostring \<Rightarrow> gostring \<Rightarrow> command" where
  "masquerade_cmd op tunnelCIDR egressIface =
     [runes ''iptables'', runes ''-t'', runes ''nat'', runes op, runes ''POSTROUTING'', runes ''-s'', tunnelCIDR, runes ''-o'',
      egressIface, runes ''-j'', runes ''MASQUERADE'']"

definition Masquerade :: "executor \<Rightarrow> gostring \<Rightarrow> gostring \<Rightarrow> command list \<Rightarrow> (host_error + command) \<times> command list" where
  "Masquerade ex tunnelCIDR egressIface tr =
     (let (ok, tr) = run ex (masquerade_cmd ''-A'' tunnelCIDR egressIface) tr
      in if ok then (Inr (masquerade_cmd ''-D'' tunnelCIDR egressIface), tr) else (Inl ErrMasquerade, tr))"

section \<open>Windows\<close>

text \<open>The same operations with the commands of \<^verbatim>\<open>core/tun/windows.go\<close>. \<open>parsed\<close> is what \<^verbatim>\<open>net.ParseCIDR\<close> makes of the
  address: the texts of the address and of the mask; \<open>ifIndex\<close> is the decimal index of an interface, if
  there is one of that name.\<close>

definition w_netsh :: "command" where
  "w_netsh = [runes ''netsh'', runes ''interface'', runes ''ip'']"

definition htonl :: "u32 \<Rightarrow> u32" where
  "htonl idx = (drop_bit 24 idx AND 0xff) OR (drop_bit 8 idx AND 0xff00) OR (push_bit 8 idx AND 0xff0000) OR
     (push_bit 24 idx AND 0xff000000)"

definition win_AddHostRoute ::
  "executor \<Rightarrow> (gostring \<Rightarrow> gostring option) \<Rightarrow> gostring \<Rightarrow> gostring \<Rightarrow> command list \<Rightarrow> host_error option \<times> command list" where
  "win_AddHostRoute ex ifIndex dstIP viaDev tr =
     (case ifIndex viaDev of
        None \<Rightarrow> (Some ErrNoDevice, tr)
      | Some idx \<Rightarrow>
          let (ok, tr) = run ex (w_netsh @ [runes ''add'', w_route, dstIP @ runes ''/32'', idx]) tr
          in (if ok then None else Some ErrRoute, tr))"

definition win_DelRoute :: "executor \<Rightarrow> gostring \<Rightarrow> command list \<Rightarrow> host_error option \<times> command list" where
  "win_DelRoute ex cidr tr =
     (let (ok, tr) = run ex [runes ''powershell'', runes ''-NoProfile'', runes ''-NonInteractive'', runes ''-Command'',
            runes ''Remove-NetRoute -DestinationPrefix '' @ cidr @ runes '' -Confirm:$false''] tr
      in (if ok then None else Some ErrRoute, tr))"

fun win_route_loop :: "executor \<Rightarrow> gostring \<Rightarrow> gostring list \<Rightarrow> command list \<Rightarrow> host_error option \<times> command list" where
  "win_route_loop ex ifName [] tr = (None, tr)"
| "win_route_loop ex ifName (r # rs) tr =
     (let (ok, tr) = run ex (w_netsh @ [runes ''add'', w_route, r, ifName]) tr
      in if \<not> ok then (Some (ErrRouteAdd r), tr) else win_route_loop ex ifName rs tr)"

definition win_Configure ::
  "executor \<Rightarrow> (gostring \<times> gostring) option \<Rightarrow> gostring \<Rightarrow> gostring list \<Rightarrow> command list \<Rightarrow> host_error option \<times> command list" where
  "win_Configure ex parsed ifName routes tr =
     (case parsed of
        None \<Rightarrow> (Some ErrAddrAdd, tr)
      | Some (ip, netmask) \<Rightarrow>
          let (ok, tr) = run ex (w_netsh @ [runes ''set'', runes ''address'', runes ''name='' @ ifName, runes ''static'', ip, netmask]) tr
          in if \<not> ok then (Some ErrAddrAdd, tr) else win_route_loop ex ifName routes tr)"

section \<open>Lemmas\<close>

text \<open>\<^verbatim>\<open>htonl\<close> reverses the bytes.\<close>

lemma htonl_bytes: "put_be 4 (htonl x) = rev (put_be 4 x)"
proof -
  have m: "(0xff :: u32) = mask 8" "(0xff00 :: u32) = push_bit 8 (mask 8)" "(0xff0000 :: u32) = push_bit 16 (mask 8)"
    "(0xff000000 :: u32) = push_bit 24 (mask 8)"
    by (simp_all add: mask_eq_exp_minus_1 push_bit_eq_mult)
  note h = htonl_def [unfolded m]
  have "ucast (htonl x) = (ucast (drop_bit 24 x) :: byte)" "ucast (drop_bit 8 (htonl x)) = (ucast (drop_bit 16 x) :: byte)"
    "ucast (drop_bit 16 (htonl x)) = (ucast (drop_bit 8 x) :: byte)" "ucast (drop_bit 24 (htonl x)) = (ucast x :: byte)"
    unfolding h by (rule bit_word_eqI; auto simp: bit_simps)+
  then show ?thesis by (simp add: put_be_def upt_rec numeral_eq_Suc)
qed


text \<open>The commands of \<^verbatim>\<open>Configure\<close>, when all goes well.\<close>

definition config_cmds :: "gostring \<Rightarrow> gostring \<Rightarrow> gostring list \<Rightarrow> command list" where
  "config_cmds ifName localCIDR routes =
     cmd_link_up ifName # cmd_addr_add localCIDR ifName # map (\<lambda>r. cmd_route_add r ifName) routes"

lemma route_loop_trace:
  "\<exists>n \<le> length rs. snd (route_loop ex ifName rs tr) = tr @ map (\<lambda>r. cmd_route_add r ifName) (take n rs) \<and>
     (fst (route_loop ex ifName rs tr) = None \<longrightarrow> n = length rs)"
proof (induction rs arbitrary: tr)
  case (Cons r rs)
  let ?tr = "tr @ [cmd_route_add r ifName]"
  show ?case
  proof (cases "ex tr (cmd_route_add r ifName)")
    case True
    obtain n where "n \<le> length rs"
      "snd (route_loop ex ifName rs ?tr) = ?tr @ map (\<lambda>r. cmd_route_add r ifName) (take n rs)"
      "fst (route_loop ex ifName rs ?tr) = None \<longrightarrow> n = length rs"
      using Cons [of ?tr] by (elim exE conjE) (rule that)
    with True show ?thesis by (intro exI [of _ "Suc n"]) (simp add: run_def)
  next
    case False
    then show ?thesis by (intro exI [of _ 1]) (simp add: run_def)
  qed
qed simp

lemma Configure_trace:
  "\<exists>n. snd (Configure ex ifName localCIDR routes tr) = tr @ take n (config_cmds ifName localCIDR routes) \<and>
     (fst (Configure ex ifName localCIDR routes tr) = None \<longrightarrow> n = length (config_cmds ifName localCIDR routes))"
proof -
  let ?t1 = "tr @ [cmd_link_up ifName]" and ?t2 = "tr @ [cmd_link_up ifName, cmd_addr_add localCIDR ifName]"
  consider "\<not> ex tr (cmd_link_up ifName)" | "ex tr (cmd_link_up ifName)" "\<not> ex ?t1 (cmd_addr_add localCIDR ifName)"
    | "ex tr (cmd_link_up ifName)" "ex ?t1 (cmd_addr_add localCIDR ifName)" by blast
  then show ?thesis
  proof cases
    case 1
    then show ?thesis by (intro exI [of _ 1]) (simp add: Configure_def run_def config_cmds_def)
  next
    case 2
    then show ?thesis by (intro exI [of _ 2]) (simp add: Configure_def run_def config_cmds_def)
  next
    case 3
    obtain n where "n \<le> length routes" "snd (route_loop ex ifName routes ?t2) = ?t2 @ map (\<lambda>r. cmd_route_add r ifName) (take n routes)"
      "fst (route_loop ex ifName routes ?t2) = None \<longrightarrow> n = length routes"
      using route_loop_trace [of routes ex ifName ?t2] by (elim exE conjE) (rule that)
    with 3 show ?thesis by (intro exI [of _ "Suc (Suc n)"]) (simp add: Configure_def run_def config_cmds_def take_map)
  qed
qed

text \<open>The first word after \<^verbatim>\<open>dev\<close>.\<close>

lemma dev_field_first: "w_dev \<notin> set pre \<Longrightarrow> dev_field (pre @ w_dev # d # post) = Some d"
proof (induction pre)
  case (Cons p pre)
  then show ?case by (cases pre) auto
qed simp

end
