(* ===== verification/Tray.thy ===== *)
theory Tray
  imports Host
begin

text \<open>
  The tray icon of the desktop client on Windows, \<^verbatim>\<open>desktop/cmd/bondify/tray_windows.go\<close>: the window procedure, the
  context menu and the message loop, on a 64-bit system. Win32 is not code of the repository: the results of
  its calls are arguments, and the two calls that make further messages (\<^verbatim>\<open>TrackPopupMenu\<close> and
  \<^verbatim>\<open>DefWindowProcW\<close>) are functions the model takes. On other platforms \<^verbatim>\<open>tray_other.go\<close> does nothing.
\<close>

section \<open>Constants\<close>

definition wmDestroy :: u32 where "wmDestroy = 0x0002"
definition wmCommand :: u32 where "wmCommand = 0x0111"
definition wmLButtonDblClk :: u64 where "wmLButtonDblClk = 0x0203"
definition wmRButtonUp :: u64 where "wmRButtonUp = 0x0205"
definition wmAppTrayMsg :: u32 where "wmAppTrayMsg = 0x8000 + 1"
definition nifMessage :: u32 where "nifMessage = 0x00000001"
definition nifIcon :: u32 where "nifIcon = 0x00000002"
definition nifTip :: u32 where "nifTip = 0x00000004"
definition tpmRightButton :: u32 where "tpmRightButton = 0x0002"
definition tpmReturnCmd :: u32 where "tpmReturnCmd = 0x0100"
definition menuIDQuit :: u32 where "menuIDQuit = 1001"

lemmas tray_consts = wmDestroy_def wmCommand_def wmLButtonDblClk_def wmRButtonUp_def wmAppTrayMsg_def nifMessage_def
  nifIcon_def nifTip_def tpmRightButton_def tpmReturnCmd_def menuIDQuit_def

section \<open>Structures\<close>

text \<open>A structure handed to Win32 starts with its size. The compiler places each field, given by its size and alignment,
  at the next multiple of its alignment, and rounds the whole up to the largest; \<open>w\<close> is the size of a handle.\<close>

definition align_up :: "nat \<Rightarrow> nat \<Rightarrow> nat" where
  "align_up n a = (n + a - 1) div a * a"

fun place :: "(nat \<times> nat) list \<Rightarrow> nat \<Rightarrow> nat" where
  "place [] off = off"
| "place ((sz, a) # fs) off = place fs (align_up off a + sz)"

definition Sizeof :: "(nat \<times> nat) list \<Rightarrow> nat" where
  "Sizeof fs = align_up (place fs 0) (foldr max (map snd fs) 1)"

definition wndClassExW :: "nat \<Rightarrow> (nat \<times> nat) list" where
  "wndClassExW w = [(4, 4), (4, 4), (w, w), (4, 4), (4, 4), (w, w), (w, w), (w, w), (w, w), (w, w), (w, w), (w, w)]"

definition notifyIconDataW :: "nat \<Rightarrow> (nat \<times> nat) list" where
  "notifyIconDataW w =
     [(4, 4), (w, w), (4, 4), (4, 4), (4, 4), (w, w), (128 * 2, 2), (4, 4), (4, 4), (256 * 2, 2), (4, 4), (64 * 2, 2), (4, 4),
      (16, 4), (w, w)]"

text \<open>The sizes are those the Windows headers give on 64-bit and on 32-bit systems, so \<^verbatim>\<open>Shell_NotifyIconW\<close> recognises the
  structure.\<close>

lemma struct_sizes:
  "Sizeof (wndClassExW 8) = 80" "Sizeof (wndClassExW 4) = 48" "Sizeof (notifyIconDataW 8) = 976" "Sizeof (notifyIconDataW 4) = 956"
  by (simp_all add: Sizeof_def wndClassExW_def notifyIconDataW_def align_up_def)

text \<open>The fields of the icon that are set; the text is an array of 128 units.\<close>

record iconData =
  id_cbSize :: nat
  id_hWnd :: u64
  id_uID :: u32
  id_uFlags :: u32
  id_uCallbackMessage :: u32
  id_hIcon :: u64
  id_szTip :: "nat list"

record wmsg =
  m_message :: u32
  m_wParam :: u64
  m_lParam :: u64

section \<open>State\<close>

text \<open>The package's variables, and what has been done so far: the icon the shell was asked to show, the messages Win32 posted
  because of our calls, whether \<^verbatim>\<open>PostQuitMessage\<close> and the cancel function were called, the commands started and the
  lines logged.\<close>

datatype tray_log = LogClassName | LogRegister | LogWindow | LogBrowser

record tray =
  tr_Cancel :: bool
  tr_DiagURL :: gostring
  tr_HWND :: u64
  tr_icon :: "iconData option"
  tr_posted :: "wmsg list"
  tr_quit :: bool
  tr_cancelled :: bool
  tr_started :: "command list"
  tr_log :: "tray_log list"

definition noTray :: tray where
  "noTray = \<lparr> tr_Cancel = False, tr_DiagURL = [], tr_HWND = 0, tr_icon = None, tr_posted = [], tr_quit = False,
     tr_cancelled = False, tr_started = [], tr_log = [] \<rparr>"

text \<open>\<^verbatim>\<open>TrackPopupMenu\<close> with its flags, the items of the menu and what the user picks, and \<^verbatim>\<open>DefWindowProcW\<close>: the result and the
  messages posted to the window.\<close>

record win32 =
  w_TrackPopupMenu :: "u32 \<Rightarrow> u32 list \<Rightarrow> u32 \<Rightarrow> u64 \<times> wmsg list"
  w_DefWindowProcW :: "wmsg \<Rightarrow> u64 \<times> wmsg list"

text \<open>A call of the window procedure: the message, and, should it need them, the handle of a new menu, what the user picks
  from it, and whether a command starts. A turn of the message loop: the calls the system makes while it waits
  inside \<^verbatim>\<open>GetMessageW\<close> (messages sent rather than posted, those of an open menu included), the result of
  \<^verbatim>\<open>GetMessageW\<close>, and the call that \<^verbatim>\<open>DispatchMessageW\<close> makes for the message it gave.\<close>

record wnd_call =
  wc_msg :: wmsg
  wc_menu :: u64
  wc_choice :: u32
  wc_start :: bool

record turn =
  tn_sent :: "wnd_call list"
  tn_ret :: u64
  tn_call :: wnd_call

section \<open>Operations\<close>

definition loWord :: "u32 \<Rightarrow> u32" where
  "loWord v = v AND 0xffff"

definition openBrowser :: "bool \<Rightarrow> gostring \<Rightarrow> tray \<Rightarrow> tray" where
  "openBrowser ok url s =
     (if \<not> ok then s\<lparr>tr_log := tr_log s @ [LogBrowser]\<rparr>
      else s\<lparr>tr_started := tr_started s @ [[runes ''rundll32'', runes ''url.dll,FileProtocolHandler'', url]]\<rparr>)"

text \<open>The result of \<^verbatim>\<open>TrackPopupMenu\<close> is dropped.\<close>

definition showTrayMenu :: "win32 \<Rightarrow> wnd_call \<Rightarrow> tray \<Rightarrow> tray" where
  "showTrayMenu W c s =
     (if wc_menu c = 0 then s
      else let (_, posts) = w_TrackPopupMenu W (tpmRightButton OR tpmReturnCmd) [menuIDQuit] (wc_choice c)
           in s\<lparr>tr_posted := tr_posted s @ posts\<rparr>)"

definition trayWndProc :: "win32 \<Rightarrow> wnd_call \<Rightarrow> tray \<Rightarrow> u64 \<times> tray" where
  "trayWndProc W c s =
     (let m = wc_msg c
      in if m_message m = wmAppTrayMsg
         then (0, if m_lParam m = wmLButtonDblClk
                  then (if tr_DiagURL s \<noteq> [] then openBrowser (wc_start c) (tr_DiagURL s) s else s)
                  else if m_lParam m = wmRButtonUp then showTrayMenu W c s
                  else s)
         else if m_message m = wmCommand
         then (0, if loWord (ucast (m_wParam m)) = menuIDQuit
                  then (let s = (if tr_Cancel s then s\<lparr>tr_cancelled := True\<rparr> else s) in s\<lparr>tr_quit := True\<rparr>)
                  else s)
         else if m_message m = wmDestroy then (0, s\<lparr>tr_quit := True\<rparr>)
         else let (ret, posts) = w_DefWindowProcW W m in (ret, s\<lparr>tr_posted := tr_posted s @ posts\<rparr>))"

definition wnd_calls :: "win32 \<Rightarrow> wnd_call list \<Rightarrow> tray \<Rightarrow> tray" where
  "wnd_calls W cs s = foldl (\<lambda>s c. snd (trayWndProc W c s)) s cs"

text \<open>The loop over the turns taken so far, and whether it has returned.\<close>

definition loop_returns :: "u64 \<Rightarrow> bool" where
  "loop_returns ret \<longleftrightarrow> ret = 0 \<or> (ucast ret :: 32 word) = -1"

fun message_loop :: "win32 \<Rightarrow> turn list \<Rightarrow> tray \<Rightarrow> bool \<times> tray" where
  "message_loop W [] s = (False, s)"
| "message_loop W (n # ns) s =
     (let s = wnd_calls W (tn_sent n) s
      in if loop_returns (tn_ret n) then (True, s) else message_loop W ns (snd (trayWndProc W (tn_call n) s)))"

text \<open>The outcomes of setting the window up; \<^verbatim>\<open>CreateWindowExW\<close> calls the window procedure too.\<close>

record tray_setup =
  su_className :: bool
  su_register :: u64
  su_sent :: "wnd_call list"
  su_hwnd :: u64
  su_hIcon :: u64

definition tip_text :: "nat list" where
  "tip_text = put_at 0 (runes ''Bondify'' @ [0]) (replicate 128 0)"

text \<open>\<^verbatim>\<open>defer\<close> takes the icon away when the loop returns.\<close>

definition startTray :: "win32 \<Rightarrow> tray_setup \<Rightarrow> bool \<Rightarrow> gostring \<Rightarrow> turn list \<Rightarrow> bool \<times> tray" where
  "startTray W su cancel diagURL ns =
     (let s = noTray\<lparr>tr_Cancel := cancel, tr_DiagURL := diagURL\<rparr>
      in if \<not> su_className su then (True, s\<lparr>tr_log := tr_log s @ [LogClassName]\<rparr>)
         else if su_register su = 0 then (True, s\<lparr>tr_log := tr_log s @ [LogRegister]\<rparr>)
         else let s = wnd_calls W (su_sent su) s
              in if su_hwnd su = 0 then (True, s\<lparr>tr_log := tr_log s @ [LogWindow]\<rparr>)
                 else let s = s\<lparr>tr_HWND := su_hwnd su,
                            tr_icon := Some \<lparr> id_cbSize = Sizeof (notifyIconDataW 8), id_hWnd = su_hwnd su, id_uID = 1,
                              id_uFlags = nifMessage OR nifIcon OR nifTip, id_uCallbackMessage = wmAppTrayMsg,
                              id_hIcon = su_hIcon su, id_szTip = tip_text \<rparr>\<rparr>;
                          (ret, s) = message_loop W ns s
                      in (ret, if ret then s\<lparr>tr_icon := None\<rparr> else s))"

section \<open>Runs\<close>

text \<open>The calls of a run in their order, and the state reached: an \<open>inductive\<close> relation in which every message is one that
  Win32 posted because of an earlier call, or one that satisfies \<open>ext\<close>: the shell, other programs and the system.\<close>

inductive tray_run :: "win32 \<Rightarrow> (wmsg \<Rightarrow> bool) \<Rightarrow> tray \<Rightarrow> wnd_call list \<Rightarrow> tray \<Rightarrow> bool" for W ext where
  run_Nil [intro]: "tray_run W ext s [] s"
| run_Cons [intro]: "wc_msg c \<in> set (tr_posted s) \<or> ext (wc_msg c) \<Longrightarrow> tray_run W ext (snd (trayWndProc W c s)) cs s' \<Longrightarrow>
     tray_run W ext s (c # cs) s'"

inductive_simps tray_run_simps [simp]: "tray_run W ext s [] s'" "tray_run W ext s (c # cs) s'"

code_pred (modes: i \<Rightarrow> i \<Rightarrow> i \<Rightarrow> i \<Rightarrow> o \<Rightarrow> bool) tray_run .

lemma tray_run_append: "tray_run W ext s (cs @ cs') s' \<longleftrightarrow> (\<exists>t. tray_run W ext s cs t \<and> tray_run W ext t cs' s')"
  by (induction cs arbitrary: s) auto

lemma tray_run_calls: "tray_run W ext s cs s' \<Longrightarrow> s' = wnd_calls W cs s"
  by (induction rule: tray_run.induct) (simp_all add: wnd_calls_def)

text \<open>The calls the loop makes.\<close>

fun loop_calls :: "turn list \<Rightarrow> wnd_call list" where
  "loop_calls [] = []"
| "loop_calls (n # ns) = tn_sent n @ (if loop_returns (tn_ret n) then [] else tn_call n # loop_calls ns)"

lemma message_loop_calls: "snd (message_loop W ns s) = wnd_calls W (loop_calls ns) s"
  by (induction ns arbitrary: s) (simp_all add: wnd_calls_def Let_def)

section \<open>Lemmas\<close>

text \<open>The window and the icon play no part in the calls.\<close>

definition with_icon :: "u64 \<Rightarrow> iconData option \<Rightarrow> tray \<Rightarrow> tray" where
  "with_icon h i s = s\<lparr>tr_HWND := h, tr_icon := i\<rparr>"

lemma with_icon_sel [simp]:
  "tr_Cancel (with_icon h i s) = tr_Cancel s" "tr_DiagURL (with_icon h i s) = tr_DiagURL s" "tr_posted (with_icon h i s) = tr_posted s"
  "tr_cancelled (with_icon h i s) = tr_cancelled s" "tr_started (with_icon h i s) = tr_started s" "tr_icon (with_icon h i s) = i"
  by (simp_all add: with_icon_def)

lemma wndProc_icon: "snd (trayWndProc W c (with_icon h i s)) = with_icon h i (snd (trayWndProc W c s))"
  by (simp add: trayWndProc_def openBrowser_def showTrayMenu_def with_icon_def Let_def split_beta)

lemma calls_icon: "wnd_calls W cs (with_icon h i s) = with_icon h i (wnd_calls W cs s)"
  by (induction cs arbitrary: s) (simp_all add: wnd_calls_def wndProc_icon)

text \<open>What a call adds: it cancels, or starts a browser, or neither.\<close>

definition quit_command :: "wmsg \<Rightarrow> bool" where
  "quit_command m \<longleftrightarrow> m_message m = wmCommand \<and> loWord (ucast (m_wParam m)) = menuIDQuit"

definition double_click :: "wmsg \<Rightarrow> bool" where
  "double_click m \<longleftrightarrow> m_message m = wmAppTrayMsg \<and> m_lParam m = wmLButtonDblClk"

definition browser_cmd :: "gostring \<Rightarrow> command" where
  "browser_cmd url = [runes ''rundll32'', runes ''url.dll,FileProtocolHandler'', url]"

lemma messages_differ [simp]: "wmAppTrayMsg \<noteq> wmCommand" "wmCommand \<noteq> wmAppTrayMsg" "wmRButtonUp \<noteq> wmLButtonDblClk"
  by (simp_all add: tray_consts)

lemma wndProc_sel [simp]:
  "tr_Cancel (snd (trayWndProc W c s)) = tr_Cancel s" "tr_DiagURL (snd (trayWndProc W c s)) = tr_DiagURL s"
  "tr_cancelled (snd (trayWndProc W c s)) \<longleftrightarrow> tr_cancelled s \<or> tr_Cancel s \<and> quit_command (wc_msg c)"
  "tr_started (snd (trayWndProc W c s)) =
     tr_started s @ (if double_click (wc_msg c) \<and> wc_start c \<and> tr_DiagURL s \<noteq> [] then [browser_cmd (tr_DiagURL s)] else [])"
  by (auto simp: trayWndProc_def openBrowser_def showTrayMenu_def quit_command_def double_click_def browser_cmd_def Let_def split_beta)

lemma calls_sel:
  "tr_Cancel (wnd_calls W cs s) = tr_Cancel s" "tr_DiagURL (wnd_calls W cs s) = tr_DiagURL s"
  "tr_cancelled (wnd_calls W cs s) \<longleftrightarrow> tr_cancelled s \<or> tr_Cancel s \<and> (\<exists>c \<in> set cs. quit_command (wc_msg c))"
  "tr_started (wnd_calls W cs s) = tr_started s @
     (if tr_DiagURL s = [] then [] else map (\<lambda>_. browser_cmd (tr_DiagURL s)) (filter (\<lambda>c. double_click (wc_msg c) \<and> wc_start c) cs))"
  by (induction cs arbitrary: s) (auto simp: wnd_calls_def)

lemma message_loop_returns: "fst (message_loop W ns s) \<longleftrightarrow> (\<exists>n \<in> set ns. loop_returns (tn_ret n))"
  by (induction ns arbitrary: s) (simp_all add: Let_def)

text \<open>The state after the calls of a tray that was set up.\<close>

lemma startTray_calls:
  assumes "su_className su" and "su_register su \<noteq> 0" and "su_hwnd su \<noteq> 0" and "startTray W su cancel url ns = (ret, s)"
  obtains i where "s = with_icon (su_hwnd su) (if ret then None else Some i)
      (wnd_calls W (su_sent su @ loop_calls ns) (noTray\<lparr>tr_Cancel := cancel, tr_DiagURL := url\<rparr>))"
    and "ret \<longleftrightarrow> (\<exists>n \<in> set ns. loop_returns (tn_ret n))"
proof -
  let ?s = "wnd_calls W (su_sent su) (noTray\<lparr>tr_Cancel := cancel, tr_DiagURL := url\<rparr>)"
  obtain i where i: "startTray W su cancel url ns = (let (ret, s) = message_loop W ns (with_icon (su_hwnd su) (Some i) ?s)
      in (ret, if ret then s\<lparr>tr_icon := None\<rparr> else s))"
    using assms(1-3) by (simp add: startTray_def with_icon_def Let_def)
  have "snd (message_loop W ns (with_icon (su_hwnd su) (Some i) ?s)) = with_icon (su_hwnd su) (Some i) (wnd_calls W (loop_calls ns) ?s)"
    by (simp add: message_loop_calls calls_icon)
  moreover have "wnd_calls W (loop_calls ns) ?s = wnd_calls W (su_sent su @ loop_calls ns) (noTray\<lparr>tr_Cancel := cancel, tr_DiagURL := url\<rparr>)"
    by (simp add: wnd_calls_def)
  ultimately show ?thesis
    using assms(4) i message_loop_returns [of W ns "with_icon (su_hwnd su) (Some i) ?s"]
    by (intro that [of i]) (auto simp: split_beta with_icon_def)
qed

section \<open>Properties\<close>

text \<open>What the tray icon does, over the whole life of its window: it ends the tunnel just when some call brings a \<^verbatim>\<open>WM_COMMAND\<close>
  for the Quit item, it opens the diagnostics page once for each double click, if there is one and the browser
  starts, and the icon is there as long as the message loop runs, which is until \<^verbatim>\<open>GetMessageW\<close> gives 0 or fails.\<close>

theorem tray_effects:
  assumes "su_className su" and "su_register su \<noteq> 0" and "su_hwnd su \<noteq> 0" and "startTray W su cancel url ns = (ret, s)"
  shows "(tr_cancelled s \<longleftrightarrow> cancel \<and> (\<exists>c \<in> set (su_sent su @ loop_calls ns). quit_command (wc_msg c))) \<and>
    tr_started s = (if url = [] then []
      else map (\<lambda>_. browser_cmd url) (filter (\<lambda>c. double_click (wc_msg c) \<and> wc_start c) (su_sent su @ loop_calls ns))) \<and>
    (tr_icon s = None \<longleftrightarrow> ret) \<and> (ret \<longleftrightarrow> (\<exists>n \<in> set ns. loop_returns (tn_ret n)))"
  by (rule startTray_calls [OF assms]) (simp add: calls_sel noTray_def del: filter_append)

text \<open>What Win32 documents of the two calls: with \<^verbatim>\<open>TPM_RETURNCMD\<close> the choice is the result of \<^verbatim>\<open>TrackPopupMenu\<close> and no message
  tells the window; \<^verbatim>\<open>DefWindowProcW\<close> makes no command messages.\<close>

definition returns_choice :: "win32 \<Rightarrow> bool" where
  "returns_choice W \<longleftrightarrow> (\<forall>fl items c. fl AND tpmReturnCmd \<noteq> 0 \<longrightarrow> (c \<in> set items \<longrightarrow> fst (w_TrackPopupMenu W fl items c) = ucast c) \<and>
     snd (w_TrackPopupMenu W fl items c) = [])"

definition no_commands :: "win32 \<Rightarrow> bool" where
  "no_commands W \<longleftrightarrow> (\<forall>m. \<forall>p \<in> set (snd (w_DefWindowProcW W m)). m_message p \<noteq> wmCommand)"

lemma menu_flags: "(tpmRightButton OR tpmReturnCmd) AND tpmReturnCmd \<noteq> 0"
  by (simp add: tray_consts)

lemma run_without_commands:
  assumes "tray_run W ext s cs s'" and "returns_choice W" and "no_commands W" and "\<forall>m. ext m \<longrightarrow> m_message m \<noteq> wmCommand"
    and "\<forall>p \<in> set (tr_posted s). m_message p \<noteq> wmCommand"
  shows "\<forall>c \<in> set cs. m_message (wc_msg c) \<noteq> wmCommand"
  using assms
proof (induction rule: tray_run.induct)
  case (run_Cons c s cs s')
  have "snd (w_TrackPopupMenu W (tpmRightButton OR tpmReturnCmd) [menuIDQuit] k) = []" for k
    using run_Cons.prems(1) menu_flags by (simp add: returns_choice_def)
  then have "\<forall>p \<in> set (tr_posted (snd (trayWndProc W c s))). m_message p \<noteq> wmCommand"
    using run_Cons.prems(2,4)
    by (auto simp: trayWndProc_def openBrowser_def showTrayMenu_def no_commands_def Let_def split_beta split: if_splits)
  with run_Cons show ?case by auto
qed simp

text \<open>C38. The Quit item does nothing: whatever the user picks from the menu and whenever, as long as no other program sends the
  window a command, the tray never ends the tunnel. The menu is opened with \<^verbatim>\<open>TPM_RETURNCMD\<close>, and its result is
  dropped.\<close>

theorem tray_quit_lost:
  assumes "returns_choice W" and "no_commands W" and "\<forall>m. ext m \<longrightarrow> m_message m \<noteq> wmCommand"
    and "su_className su" and "su_register su \<noteq> 0" and "su_hwnd su \<noteq> 0"
    and "tray_run W ext (noTray\<lparr>tr_Cancel := cancel, tr_DiagURL := url\<rparr>) (su_sent su @ loop_calls ns) s'"
    and "startTray W su cancel url ns = (ret, s)"
  shows "\<not> tr_cancelled s"
  by (rule startTray_calls [OF assms(4-6,8)])
    (use run_without_commands [OF assms(7,1-3)] in \<open>auto simp: calls_sel noTray_def quit_command_def\<close>)

definition ex_win :: win32 where
  "ex_win = \<lparr> w_TrackPopupMenu = (\<lambda>fl items c. if c \<notin> set items then (0, [])
       else if fl AND tpmReturnCmd \<noteq> 0 then (ucast c, []) else (1, [\<lparr> m_message = wmCommand, m_wParam = ucast c, m_lParam = 0 \<rparr>])),
     w_DefWindowProcW = (\<lambda>_. (0, [])) \<rparr>"

definition ex_icon_call :: "u64 \<Rightarrow> wnd_call" where
  "ex_icon_call l = \<lparr> wc_msg = \<lparr> m_message = wmAppTrayMsg, m_wParam = 1, m_lParam = l \<rparr>, wc_menu = 5, wc_choice = menuIDQuit, wc_start = True \<rparr>"

definition ex_setup :: tray_setup where
  "ex_setup = \<lparr> su_className = True, su_register = 1, su_sent = [], su_hwnd = 9, su_hIcon = 3 \<rparr>"

definition ex_turns :: "turn list" where
  "ex_turns = map (\<lambda>l. \<lparr> tn_sent = [], tn_ret = 1, tn_call = ex_icon_call l \<rparr>) [wmLButtonDblClk, wmRButtonUp]"

theorem tray_effects_witness:
  "tr_started (snd (startTray ex_win ex_setup True (runes ''u'') ex_turns)) = [browser_cmd (runes ''u'')]"
proof -
  have n: "\<not> loop_returns 1" by (simp add: loop_returns_def)
  show ?thesis
    using tray_effects [OF _ _ _ prod.collapse [symmetric], of ex_setup ex_win True "runes ''u''" ex_turns] n
    by (simp add: ex_setup_def ex_turns_def ex_icon_call_def double_click_def runes_def)
qed

theorem tray_quit_lost_witness:
  "\<not> tr_cancelled (snd (startTray ex_win ex_setup True [] ex_turns))"
proof -
  have w: "returns_choice ex_win" "no_commands ex_win" by (simp_all add: returns_choice_def no_commands_def ex_win_def)
  have n: "\<not> loop_returns 1" by (simp add: loop_returns_def)
  have run: "tray_run ex_win (\<lambda>m. m_message m = wmAppTrayMsg) (noTray\<lparr>tr_Cancel := True, tr_DiagURL := []\<rparr>)
      (su_sent ex_setup @ loop_calls ex_turns)
      (wnd_calls ex_win (su_sent ex_setup @ loop_calls ex_turns) (noTray\<lparr>tr_Cancel := True, tr_DiagURL := []\<rparr>))"
    by (simp add: ex_setup_def ex_turns_def ex_icon_call_def n wnd_calls_def)
  from tray_quit_lost [OF w _ _ _ _ run prod.collapse [symmetric]] show ?thesis by (simp add: ex_setup_def)
qed

end
