(* ===== verification/Diag.thy ===== *)
theory Diag
  imports EndToEnd
begin

text \<open>
  The diagnostics snapshots of \<^verbatim>\<open>core/bond/diag.go\<close>, on the client and on the relay. Reading the round-trip time
  of a path drops its expired samples, so a snapshot returns the state it leaves behind. The order of the
  sessions and of the paths of a relay's snapshot is that of ranging over the maps.
\<close>

section \<open>Snapshots\<close>

record PathDiag =
  pd_ID :: u8
  pd_Role :: string
  pd_State :: string
  pd_RTTMinMS :: rat
  pd_LossPct :: rat
  pd_InFlight :: int
  pd_CWND :: int
  pd_TxPackets :: u64
  pd_RxPackets :: u64
  pd_TxBytes :: u64
  pd_RxBytes :: u64
  pd_LastActive :: rat

definition pathDiagOf :: "instant \<Rightarrow> 'a path \<Rightarrow> PathDiag \<times> 'a path" where
  "pathDiagOf now p =
     (let (rtt, p) = RTTMin now p
      in (\<lparr> pd_ID = pt_id p, pd_Role = Role_String (pt_role p), pd_State = State_String (pt_state p),
            pd_RTTMinMS = fl64 (i2f rtt / i2f millisecond), pd_LossPct = fl64 (Loss p * 100),
            pd_InFlight = pt_inflight p, pd_CWND = Path_CWND p,
            pd_TxPackets = st_TxPackets (pt_Stats p), pd_RxPackets = st_RxPackets (pt_Stats p),
            pd_TxBytes = st_TxBytes (pt_Stats p), pd_RxBytes = st_RxBytes (pt_Stats p),
            pd_LastActive = Seconds (LastActivity now p) \<rparr>, p))"

record AggregateDiag =
  ag_TxPackets :: u64
  ag_RxPackets :: u64
  ag_TxBytes :: u64
  ag_RxBytes :: u64
  ag_RxErrors :: u64
  ag_ReorderOccupancyBytes :: int
  ag_ReorderMaxBytes :: int
  ag_ReorderForcedReleases :: u64
  ag_UptimeSec :: rat

record SessionDiag =
  sd_SessionIndex :: string
  sd_TunnelIP :: string
  sd_Scheduler :: string
  sd_Paths :: "PathDiag list"
  sd_Aggregate :: AggregateDiag

definition aggregate :: "instant \<Rightarrow> Stats \<Rightarrow> buffer \<Rightarrow> instant \<Rightarrow> AggregateDiag" where
  "aggregate now st b startedAt =
     \<lparr> ag_TxPackets = st_TxPackets st, ag_RxPackets = st_RxPackets st, ag_TxBytes = st_TxBytes st,
       ag_RxBytes = st_RxBytes st, ag_RxErrors = st_RxErrors st,
       ag_ReorderOccupancyBytes = Occupancy b, ag_ReorderMaxBytes = MaxBytes b,
       ag_ReorderForcedReleases = ForcedReleases b, ag_UptimeSec = Seconds (time_Sub now startedAt) \<rparr>"

text \<open>\<^verbatim>\<open>sessionIndexHex\<close> fills the eight digits from the last one.\<close>

definition hexdigits :: string where "hexdigits = ''0123456789abcdef''"

fun hex_loop :: "nat \<Rightarrow> u32 \<Rightarrow> string \<Rightarrow> string" where
  "hex_loop 0 idx b = b"
| "hex_loop (Suc i) idx b = hex_loop i (drop_bit 4 idx) (b[i := hexdigits ! unat (idx AND 0xf)])"

definition sessionIndexHex :: "u32 \<Rightarrow> string" where
  "sessionIndexHex idx = hex_loop 8 idx (replicate 8 (char_of (0 :: nat)))"

definition client_Diagnostics :: "instant \<Rightarrow> ClientTunnel \<Rightarrow> SessionDiag \<times> ClientTunnel" where
  "client_Diagnostics now t =
     (let pd = map (pathDiagOf now) (ct_paths t)
      in (\<lparr> sd_SessionIndex = sessionIndexHex (ct_sessionIndex t), sd_TunnelIP = ct_tunnelIP t,
            sd_Scheduler = sched_Name (ct_sched t), sd_Paths = map fst pd,
            sd_Aggregate = aggregate now (ct_Stats t) (ct_reorderBuf t) (ct_startedAt t) \<rparr>,
          t\<lparr>ct_paths := map snd pd\<rparr>))"

definition session_diag :: "tunnel_env \<Rightarrow> instant \<Rightarrow> relaySession \<Rightarrow> SessionDiag \<times> relaySession" where
  "session_diag E now s =
     (\<lparr> sd_SessionIndex = sessionIndexHex (rs_sessionIndex s), sd_TunnelIP = ip_String (rs_tunnelIP s),
        sd_Scheduler = sched_Name (rs_sched s), sd_Paths = map (\<lambda>(i, p). fst (pathDiagOf now p)) (pathSlice E s),
        sd_Aggregate = aggregate now (rs_Stats s) (rs_reorderBuf s) (rs_startedAt s) \<rparr>,
      s\<lparr>rs_paths := (\<lambda>i. map_option (\<lambda>p. snd (pathDiagOf now p)) (rs_paths s i))\<rparr>)"

fun diag_loop :: "tunnel_env \<Rightarrow> instant \<Rightarrow> nat list \<Rightarrow> Relay \<Rightarrow> SessionDiag list \<times> Relay" where
  "diag_loop E now [] r = ([], r)"
| "diag_loop E now (j # js) r =
     (let (d, s) = session_diag E now (r_sessions r ! j);
          (ds, r) = diag_loop E now js (set_sess j s r)
      in (d # ds, r))"

definition relay_Diagnostics :: "tunnel_env \<Rightarrow> instant \<Rightarrow> Relay \<Rightarrow> SessionDiag list \<times> Relay" where
  "relay_Diagnostics E now r = diag_loop E now (live_sessions r) r"

section \<open>The index in hexadecimal\<close>

definition hex_val :: "string \<Rightarrow> nat" where
  "hex_val s = foldl (\<lambda>a c. 16 * a + length (takeWhile (\<lambda>d. d \<noteq> c) hexdigits)) 0 s"

lemma hex_digit: "n < 16 \<Longrightarrow> length (takeWhile (\<lambda>d. d \<noteq> hexdigits ! n) hexdigits) = n"
proof -
  assume "n < 16"
  then have "n \<in> set [0..<16]" by simp
  then show ?thesis unfolding hexdigits_def by (auto simp: upt_rec)
qed

lemma hex_loop_append: "n \<le> length b \<Longrightarrow> hex_loop n idx (b @ c) = hex_loop n idx b @ c"
  by (induction n idx b arbitrary: c rule: hex_loop.induct) (auto simp: list_update_append)

lemma hex_loop_val:
  "length b = n \<Longrightarrow> length (hex_loop n idx b) = n \<and> hex_val (hex_loop n idx b) = unat idx mod 16 ^ n"
proof (induction n arbitrary: idx b)
  case (Suc n)
  let ?d = "hexdigits ! unat (idx AND 0xf)" and ?b = "take n b"
  have b: "b[n := ?d] = ?b @ [?d]" "length ?b = n" using Suc.prems by (simp_all add: upd_conv_take_nth_drop)
  have step: "hex_loop (Suc n) idx b = hex_loop n (drop_bit 4 idx) ?b @ [?d]"
    using hex_loop_append [of n ?b] b by simp
  have low: "unat (idx AND 0xf) = unat idx mod 16"
    using take_bit_eq_mask [of 4 idx] unsigned_take_bit_eq [of 4 idx] by (simp add: mask_eq_exp_minus_1 take_bit_eq_mod)
  have high: "unat (drop_bit 4 idx) = unat idx div 16"
    by (simp add: drop_bit_eq_div unat_div_distrib)
  have "hex_val (hex_loop (Suc n) idx b) = 16 * (unat idx div 16 mod 16 ^ n) + unat idx mod 16"
    unfolding step
    using Suc.IH [OF b(2), of "drop_bit 4 idx"] hex_digit [of "unat idx mod 16"] by (simp add: hex_val_def low high)
  moreover have "unat idx mod 16 ^ Suc n = 16 * (unat idx div 16 mod 16 ^ n) + unat idx mod 16"
    using mod_mult2_eq [of "unat idx" 16 "16 ^ n"] by simp
  ultimately show ?case using Suc.IH [OF b(2), of "drop_bit 4 idx"] unfolding step by simp
qed (simp add: hex_val_def)


section \<open>The counters of a relay's session\<close>

definition tx_of :: "relaySession \<Rightarrow> u64 \<times> u64" where
  "tx_of rs = (st_TxPackets (rs_Stats rs), st_TxBytes (rs_Stats rs))"

lemma tx_of_simps [simp]:
  "tx_of (rs\<lparr>rs_sess := s\<rparr>) = tx_of rs" "tx_of (rs\<lparr>rs_reorderBuf := b\<rparr>) = tx_of rs"
  "tx_of (rs\<lparr>rs_fecRecv := fr\<rparr>) = tx_of rs" "tx_of (rs\<lparr>rs_fecSend := fs\<rparr>) = tx_of rs"
  "tx_of (rs\<lparr>rs_sched := sc\<rparr>) = tx_of rs" "tx_of (rs\<lparr>rs_sendGSN := g\<rparr>) = tx_of rs"
  "tx_of (rs\<lparr>rs_paths := ps\<rparr>) = tx_of rs" "tx_of (set_rpath i p rs) = tx_of rs"
  "tx_of (rs\<lparr>rs_Stats := count_rx payload (rs_Stats rs)\<rparr>) = tx_of rs"
  "tx_of (rs\<lparr>rs_Stats := count_err (rs_Stats rs)\<rparr>) = tx_of rs"
  "tx_of (rs\<lparr>rs_sess := s, rs_Stats := count_err (rs_Stats rs)\<rparr>) = tx_of rs"
  by (simp_all add: tx_of_def set_rpath_def count_rx_def count_err_def)

lemma tx_of_countAll [simp]:
  "tx_of (rs\<lparr>rs_fecRecv := fr, rs_Stats := countAll recs (rs_Stats rs)\<rparr>) = tx_of rs"
proof -
  have "st_TxPackets (countAll recs st) = st_TxPackets st \<and> st_TxBytes (countAll recs st) = st_TxBytes st" for st
    by (induction recs arbitrary: st) (auto simp: countAll_def count_rx_def)
  then show ?thesis by (simp add: tx_of_def)
qed

lemma tx_getOrCreatePath [simp]: "tx_of (snd (snd (getOrCreatePath i a rs))) = tx_of rs"
  by (auto simp: getOrCreatePath_def Let_def split: option.splits)

lemma tx_arrival [simp]: "tx_of (snd (relay_arrival now i src rs)) = tx_of rs"
  by (simp add: relay_arrival_def Let_def split_beta)

lemma tx_sendFECParity: "tx_of (snd (relay_sendFECParity E wr now c rs)) = tx_of rs"
  by (simp add: relay_sendFECParity_def Let_def split_beta split: option.split sum.split)

lemma tx_sendParities: "tx_of (snd (relay_sendParities E wr now cs rs)) = tx_of rs"
  by (induction cs arbitrary: rs) (simp_all add: Let_def split_beta tx_sendFECParity)

lemma tx_record: "tx_of (snd (relay_record E wr now slot rs)) = tx_of rs"
  by (simp add: relay_record_def Let_def split_beta tx_sendParities split: option.split)

lemma tx_dup_loop: "tx_of (snd (relay_dup_loop E wr gsn pkt k ps rs)) = tx_of rs"
proof (induction ps arbitrary: k rs)
  case (Cons ip ps)
  then show ?case by (cases ip) (simp add: Let_def split_beta split: option.split sum.split)
qed simp

lemma tx_sends:
  "tx_of (fst (snd (relay_sendSpeed E wr now pkt rs st))) = tx_of rs"
  "tx_of (fst (snd (relay_sendRedundant E wr now pkt rs st))) = tx_of rs"
  "tx_of (snd (maintain_session E wr now rs)) = tx_of rs"
  by (simp_all add: send_defs maintain_session_def tx_record tx_dup_loop tx_sendParities split: option.split sum.split)

definition tx_zero :: "Relay \<Rightarrow> bool" where
  "tx_zero r \<longleftrightarrow> (\<forall>rs \<in> set (r_sessions r). tx_of rs = (0, 0))"


lemma tx_zero_set_sess [intro!]:
  assumes "tx_zero r" and "tx_of rs = tx_of (r_sessions r ! j)"
  shows "tx_zero (set_sess j rs r)"
proof (cases "j < length (r_sessions r)")
  case True
  with assms have "tx_of rs = (0, 0)" by (simp add: tx_zero_def)
  with assms(1) show ?thesis using set_update_subset_insert [of "r_sessions r" j rs] by (auto simp: tx_zero_def set_sess_def)
next
  case False
  with assms(1) show ?thesis by (simp add: set_sess_def list_update_beyond)
qed

lemma tx_zero_stats [simp]: "tx_zero (r\<lparr>r_Stats := st\<rparr>) = tx_zero r" "tx_zero (r\<lparr>r_pool := p\<rparr>) = tx_zero r"
  by (simp_all add: tx_zero_def)

lemma tx_zero_install: "tx_zero r \<Longrightarrow> tx_of rs = (0, 0) \<Longrightarrow> tx_zero (install rs k r)"
  by (auto simp: tx_zero_def install_simps)

lemma tx_zero_handshake:
  assumes "tx_zero r"
  shows "tx_zero (snd (relay_handleHandshakeInit N E wr now draws msg src r))"
proof -
  have a: "tx_zero (snd (assign_address draws k r))" for k
    using assms by (auto simp: assign_address_def split: option.split prod.split sum.split)
  have new: "tx_of (newRelaySession now i s ip cfg) = (0, 0)" for i s ip cfg
    by (simp add: tx_of_def newRelaySession_def zeroStats_def Let_def)
  show ?thesis
    unfolding relay_handleHandshakeInit_def using assms a tx_zero_install [OF a] new
    by (auto simp: Let_def split_beta split: sum.split prod.split option.split)
qed

lemma tx_zero_handlers:
  assumes "tx_zero r"
  shows "tx_zero (relay_handleData E now oh c src r)" and "tx_zero (relay_handleFEC E now oh c src r)"
    and "tx_zero (relay_handleProbeAck E now oh c r)" and "tx_zero (snd (relay_handlePathAdd E wr oh c src r))"
    and "tx_zero (snd (relay_handleProbe E wr now oh c src r))" and "tx_zero (snd (serveTUN E wr now pkt r))"
    and "tx_zero (snd (drainSessionReorder j r))" and "tx_zero (relay_deadline j g r)"
  using assms
  by (auto simp: relay_handleData_def relay_handleFEC_def control_handlers serveTUN_def drainSessionReorder_def relay_deadline_def tx_sends
      Let_def split_beta split: option.split sum.split list.split)

lemma tx_zero_liveness: "tx_zero r \<Longrightarrow> tx_zero (livenessTick now r)"
proof -
  have "tx_zero r \<Longrightarrow> tx_zero (fold (\<lambda>j r. let rs = r_sessions r ! j
      in set_sess j (rs\<lparr>rs_paths := (\<lambda>i. map_option (expire now) (rs_paths rs i))\<rparr>) r) js r)" for js
    by (induction js arbitrary: r) (simp_all add: Let_def tx_zero_set_sess)
  then show "tx_zero r \<Longrightarrow> tx_zero (livenessTick now r)" by (simp add: livenessTick_def)
qed

lemma tx_zero_maintain: "tx_zero r \<Longrightarrow> tx_zero (snd (maintain_all E wr now js r))"
  by (induction js arbitrary: r) (simp_all add: Let_def split_beta tx_sends tx_zero_set_sess)

interpretation txrun: step_system "relay_step N E wr" tx_zero "\<lambda>_. True"
proof
  fix r e
  assume z: "tx_zero r"
  have "tx_zero (snd (handleUDP N E wr now draws buf src r))" for now draws buf src
    using z tx_zero_handshake [OF z] tx_zero_handlers [OF z] by (auto simp: handleUDP_def Let_def split: sum.split prod.split)
  then show "tx_zero (relay_step N E wr r e)"
    using tx_zero_handlers [OF z] tx_zero_liveness [OF z] tx_zero_maintain [OF z] by (cases e) (auto simp: FECMaintenanceTick_def)
qed

lemma diag_loop_tx:
  assumes "tx_zero r" and "\<forall>j \<in> set js. j < length (r_sessions r)" and "d \<in> set (fst (diag_loop E now js r))"
  shows "ag_TxPackets (sd_Aggregate d) = 0 \<and> ag_TxBytes (sd_Aggregate d) = 0"
  using assms
proof (induction js arbitrary: r)
  case (Cons j js)
  let ?s = "session_diag E now (r_sessions r ! j)"
  have z: "tx_zero (set_sess j (snd ?s) r)" using Cons.prems(1) by (auto simp: session_diag_def)
  have "tx_of (r_sessions r ! j) = (0, 0)" using Cons.prems(1,2) by (simp add: tx_zero_def)
  then have "ag_TxPackets (sd_Aggregate (fst ?s)) = 0 \<and> ag_TxBytes (sd_Aggregate (fst ?s)) = 0"
    by (simp add: session_diag_def aggregate_def tx_of_def)
  with Cons.IH [OF z] Cons.prems show ?case by (auto simp: Let_def split_beta set_sess_def)
qed simp


section \<open>Properties\<close>

text \<open>The index a snapshot shows identifies the session: it has eight hexadecimal digits, and reading them as a
  number gives the index back.\<close>

theorem session_index_hex: "length (sessionIndexHex idx) = 8 \<and> hex_val (sessionIndexHex idx) = unat idx"
proof -
  have "unat idx < 2 ^ LENGTH(32)" by (rule unsigned_less)
  then show ?thesis
    using hex_loop_val [of "replicate 8 (char_of (0 :: nat))" 8 idx] by (simp add: sessionIndexHex_def)
qed

text \<open>Taking a snapshot does not disturb the tunnel: it changes nothing but the expired round-trip samples of
  the paths, and what any scheduler reads of the paths afterwards is what it would have read without it.\<close>

theorem diagnostics_harmless:
  assumes "now \<le> later"
  shows "ct_paths (snd (client_Diagnostics now t)) = map (\<lambda>p. p\<lparr>pt_rttSamples := pruneOld (pt_rttSamples p) now\<rparr>) (ct_paths t) \<and>
    (snd (client_Diagnostics now t))\<lparr>ct_paths := ct_paths t\<rparr> = t \<and>
    client_schedPaths later (snd (client_Diagnostics now t)) = client_schedPaths later t"
  by (simp add: pruneOld_pruneOld [OF assms] client_Diagnostics_def pathDiagOf_def client_schedPaths_def sched_view_def RTTMin_def Path_CWND_def
      Path_Goodput_def Let_def split_beta)

theorem diagnostics_harmless_witness:
  "client_schedPaths 5 (snd (client_Diagnostics 3 ex_tunnel)) = client_schedPaths 5 ex_tunnel"
  using diagnostics_harmless [of 3 5 ex_tunnel] by simp

text \<open>A relay's snapshot never shows what it sent to a client: whatever happens to the relay, the aggregate
  of every session reports zero packets and zero bytes transmitted, since the relay counts what it sends for
  itself and for the path but not for the session.\<close>

theorem session_tx_always_zero:
  assumes "NewRelay True cfg = Some r0" and "rc_PoolCIDR cfg = Some (ip, net)" and "pool_net base h net"
    and "To4 ip = Some ip4" and "d \<in> set (fst (relay_Diagnostics E now (foldl (relay_step N E' wr) r0 evs)))"
  shows "ag_TxPackets (sd_Aggregate d) = 0 \<and> ag_TxBytes (sd_Aggregate d) = 0"
proof -
  let ?r = "foldl (relay_step N E' wr) r0 evs"
  have "tx_zero r0" using assms(1) by (auto simp: NewRelay_def tx_zero_def split: if_splits sum.splits)
  then have z: "tx_zero ?r" by (rule txrun.inv_run) (simp add: list_all_iff)
  have "tables_ok ?r" using relay_run_ok [OF assms(1-4), of N E' wr evs] by (simp add: relay_ok_def)
  then have "\<forall>j \<in> set (live_sessions ?r). j < length (r_sessions ?r)"
    using tables_byIndexD by (fastforce simp: live_sessions_def)
  from diag_loop_tx [OF z this] assms(5) show ?thesis by (simp add: relay_Diagnostics_def)
qed

theorem session_tx_always_zero_witness:
  "let ds = fst (relay_Diagnostics ex_env 9 (foldl (relay_step plain_noise ex_env (\<lambda>_ _. True)) ex_relay [EvUDP 0 [7] ex_init ex_src]))
   in length ds = 1 \<and> ag_TxPackets (sd_Aggregate (ds ! 0)) = 0"
proof -
  let ?ds = "fst (relay_Diagnostics ex_env 9 (foldl (relay_step plain_noise ex_env (\<lambda>_ _. True)) ex_relay [EvUDP 0 [7] ex_init ex_src]))"
  have l: "length ?ds = 1"
    using ex_relay1_def ex_relay1_fields by (simp add: relay_Diagnostics_def live_sessions_def Let_def split_beta)
  then have "?ds ! 0 \<in> set ?ds" by (intro nth_mem) simp
  from session_tx_always_zero [OF ex_relay_new _ ex_net_ok ex_To4 this] l show ?thesis by (simp add: ex_cfg_def Let_def)
qed

end
