(* ===== verification/Keys.thy ===== *)
theory Keys
  imports Session
begin

text \<open>
  Keys as text and on disk: \<^verbatim>\<open>core/crypto/encoding.go\<close>, key generation of \<^verbatim>\<open>core/crypto/handshake.go\<close>, and the key
  files of the two commands. The standard encoding of \<^verbatim>\<open>encoding/base64\<close> is written out; the curve is a
  parameter, and a file system is a map from paths to contents.
\<close>

section \<open>Base64\<close>

definition b64_pad :: rune where "b64_pad = 61"

definition b64_val :: "rune \<Rightarrow> nat option" where
  "b64_val r =
     (if 65 \<le> r \<and> r < 91 then Some (r - 65) else if 97 \<le> r \<and> r < 123 then Some (r - 71)
      else if 48 \<le> r \<and> r < 58 then Some (r + 4) else if r = 43 then Some 62 else if r = 47 then Some 63 else None)"

definition b64_char :: "nat \<Rightarrow> rune" where
  "b64_char n = (if n < 26 then 65 + n else if n < 52 then 71 + n else if n < 62 then n - 4 else if n = 62 then 43 else 47)"

text \<open>A group of 24 bits.\<close>

definition join3 :: "byte \<Rightarrow> byte \<Rightarrow> byte \<Rightarrow> nat" where
  "join3 a b c = (unat a * 256 + unat b) * 256 + unat c"

definition sextets :: "nat \<Rightarrow> rune list" where
  "sextets v = map b64_char [v div 64 div 64 div 64, v div 64 div 64 mod 64, v div 64 mod 64, v mod 64]"

fun b64_encode :: "bytes \<Rightarrow> gostring" where
  "b64_encode [] = []"
| "b64_encode [a] = take 2 (sextets (join3 a 0 0)) @ [b64_pad, b64_pad]"
| "b64_encode [a, b] = take 3 (sextets (join3 a b 0)) @ [b64_pad]"
| "b64_encode (a # b # c # rest) = sextets (join3 a b c) @ b64_encode rest"

definition octets :: "nat \<Rightarrow> bytes" where
  "octets v = [of_nat (v div 256 div 256), of_nat (v div 256), of_nat v]"

definition join4 :: "nat \<Rightarrow> nat \<Rightarrow> nat \<Rightarrow> nat \<Rightarrow> nat" where
  "join4 p q r s = ((p * 64 + q) * 64 + r) * 64 + s"

text \<open>Decoding without the line breaks, which are skipped wherever they stand. The bits a padded last group does
  not use are ignored.\<close>

fun b64_groups :: "gostring \<Rightarrow> bytes option" where
  "b64_groups [] = Some []"
| "b64_groups (w # x # y # z # rest) =
     (case (b64_val w, b64_val x, b64_val y, b64_val z) of
        (Some p, Some q, Some r, Some s) \<Rightarrow> map_option (\<lambda>bs. octets (join4 p q r s) @ bs) (b64_groups rest)
      | (Some p, Some q, Some r, None) \<Rightarrow>
          if z = b64_pad \<and> rest = [] then Some (take 2 (octets (join4 p q r 0))) else None
      | (Some p, Some q, None, _) \<Rightarrow>
          if y = b64_pad \<and> z = b64_pad \<and> rest = [] then Some (take 1 (octets (join4 p q 0 0))) else None
      | _ \<Rightarrow> None)"
| "b64_groups _ = None"

definition b64_decode :: "gostring \<Rightarrow> bytes option" where
  "b64_decode s = b64_groups (filter (\<lambda>r. r \<noteq> 10 \<and> r \<noteq> 13) s)"

section \<open>Keys\<close>

datatype key_error = ErrDecode | ErrKeyLength nat | ErrGenerate | ErrWriteFile

definition EncodeKey :: "bytes \<Rightarrow> gostring" where
  "EncodeKey k = b64_encode k"

definition DecodeKey :: "gostring \<Rightarrow> key_error + bytes" where
  "DecodeKey s =
     (case b64_decode s of
        None \<Rightarrow> Inl ErrDecode
      | Some b \<Rightarrow> if length b \<noteq> KeyLen then Inl (ErrKeyLength (length b)) else Inr (put_at 0 b (replicate KeyLen 0)))"

text \<open>\<open>curve\<close> is the multiplication of the base point, \<open>dh\<close> a key pair the library drew, or its failure.\<close>

definition DerivePublic :: "(bytes \<Rightarrow> bytes) \<Rightarrow> bytes \<Rightarrow> bytes" where
  "DerivePublic curve priv = curve priv"

definition GenerateKeypair :: "(bytes \<times> bytes) option \<Rightarrow> key_error + Keypair" where
  "GenerateKeypair dh =
     (case dh of
        None \<Rightarrow> Inl ErrGenerate
      | Some (priv, pub) \<Rightarrow>
          Inr \<lparr> kp_Private = put_at 0 (take KeyLen priv) (replicate KeyLen 0),
                kp_Public = put_at 0 (take KeyLen pub) (replicate KeyLen 0) \<rparr>)"

section \<open>Key files\<close>

type_synonym files = "gostring \<Rightarrow> gostring option"

text \<open>\<^verbatim>\<open>loadOrGenerateKey\<close>: \<open>written\<close> says whether the new file can be written.\<close>

definition loadOrGenerateKey ::
  "(bytes \<Rightarrow> bytes) \<Rightarrow> (bytes \<times> bytes) option \<Rightarrow> bool \<Rightarrow> gostring \<Rightarrow> files \<Rightarrow> (key_error + Keypair) \<times> files" where
  "loadOrGenerateKey curve dh written path fs =
     (case fs path of
        Some b \<Rightarrow>
          (case DecodeKey (TrimSpace b) of
             Inl e \<Rightarrow> (Inl e, fs)
           | Inr priv \<Rightarrow> (Inr \<lparr> kp_Private = priv, kp_Public = DerivePublic curve priv \<rparr>, fs))
      | None \<Rightarrow>
          (case GenerateKeypair dh of
             Inl e \<Rightarrow> (Inl e, fs)
           | Inr kp \<Rightarrow>
               if \<not> written then (Inl ErrWriteFile, fs)
               else (Inr kp, fs(path \<mapsto> EncodeKey (kp_Private kp) @ [10]))))"

text \<open>The directory of a path, which the relay creates before it writes the file.\<close>

definition parentDir :: "gostring \<Rightarrow> gostring" where
  "parentDir path = (if 47 \<in> set path then rev (drop 1 (dropWhile (\<lambda>r. r \<noteq> 47) (rev path))) else [])"

text \<open>The relay's version also returns the directory it creates before writing; that a directory cannot be created
  shows when the file is written.\<close>

definition relay_loadOrGenerateKey ::
  "(bytes \<Rightarrow> bytes) \<Rightarrow> (bytes \<times> bytes) option \<Rightarrow> bool \<Rightarrow> gostring \<Rightarrow> files \<Rightarrow> (key_error + Keypair) \<times> files \<times> gostring option" where
  "relay_loadOrGenerateKey curve dh written path fs =
     (case fs path of
        Some b \<Rightarrow>
          (case DecodeKey (TrimSpace b) of
             Inl e \<Rightarrow> (Inl e, fs, None)
           | Inr priv \<Rightarrow> (Inr \<lparr> kp_Private = priv, kp_Public = DerivePublic curve priv \<rparr>, fs, None))
      | None \<Rightarrow>
          (case GenerateKeypair dh of
             Inl e \<Rightarrow> (Inl e, fs, None)
           | Inr kp \<Rightarrow>
               let dir = parentDir path;
                   created = (if dir \<noteq> [] then Some dir else None)
               in if \<not> written then (Inl ErrWriteFile, fs, created)
                  else (Inr kp, fs(path \<mapsto> EncodeKey (kp_Private kp) @ [10]), created)))"

section \<open>Lemmas\<close>

lemma relay_key_same:
  "(fst (relay_loadOrGenerateKey curve dh written path fs), fst (snd (relay_loadOrGenerateKey curve dh written path fs))) =
     loadOrGenerateKey curve dh written path fs"
  by (simp add: relay_loadOrGenerateKey_def loadOrGenerateKey_def Let_def split: option.split sum.split)


lemma b64_char_val: "n < 64 \<Longrightarrow> b64_val (b64_char n) = Some n"
  by (auto simp: b64_char_def b64_val_def)

lemma b64_char_clean: "b64_char n \<noteq> 10 \<and> b64_char n \<noteq> 13 \<and> \<not> IsSpace (b64_char n)" if "n < 64"
  using that by (auto simp: b64_char_def IsSpace_def)

lemma b64_pad_val: "b64_val b64_pad = None"
  by (simp add: b64_val_def b64_pad_def)

lemma byte_less: "unat b < 256" for b :: byte
  using unsigned_less [where 'a = nat, of b] by simp

lemma div_byte: "(x * 256 + unat b) div 256 = x" for b :: byte
  using byte_less [of b] by simp

lemma of_nat_byte: "(of_nat (x * 256 + unat b) :: byte) = b"
proof -
  have "(of_nat 256 :: byte) = 0" by simp
  then show ?thesis by (simp only: of_nat_add of_nat_mult mult_zero_right add_0_left of_nat_unat ucast_id)
qed

lemma octets_join3: "octets (join3 a b c) = [a, b, c]"
  unfolding octets_def join3_def div_byte of_nat_byte by simp

abbreviation sx0 :: "nat \<Rightarrow> nat" where "sx0 v \<equiv> v div 64 div 64 div 64"
abbreviation sx1 :: "nat \<Rightarrow> nat" where "sx1 v \<equiv> v div 64 div 64 mod 64"
abbreviation sx2 :: "nat \<Rightarrow> nat" where "sx2 v \<equiv> v div 64 mod 64"
abbreviation sx3 :: "nat \<Rightarrow> nat" where "sx3 v \<equiv> v mod 64"

lemma join4_sextets: "join4 (sx0 v) (sx1 v) (sx2 v) (sx3 v) = v"
  unfolding join4_def div_mult_mod_eq by (rule refl)

lemma join3_top: "sx0 (join3 a b c) < 64"
proof -
  have "join3 a b c < 64 * 64 * 64 * 64" using byte_less [of a] byte_less [of b] byte_less [of c] by (simp add: join3_def)
  then show ?thesis by (intro less_mult_imp_div_less)
qed

lemma sextet_vals:
  "b64_val (b64_char (sx0 (join3 a b c))) = Some (sx0 (join3 a b c))"
  "b64_val (b64_char (sx1 v)) = Some (sx1 v)" "b64_val (b64_char (sx2 v)) = Some (sx2 v)" "b64_val (b64_char (sx3 v)) = Some (sx3 v)"
  by (rule b64_char_val, rule join3_top) (rule b64_char_val, simp)+

lemma join3_low: "sx3 (join3 a 0 0) = 0" "sx2 (join3 a 0 0) = 0" "sx3 (join3 a b 0) = 0"
proof -
  have "join3 a 0 0 = unat a * 1024 * 64" "join3 a b 0 = ((unat a * 256 + unat b) * 4) * 64" by (simp_all add: join3_def)
  moreover have "(x * 64) mod 64 = 0" "(x * 1024 * 64) div 64 mod 64 = 0" for x :: nat by simp_all
  ultimately show "sx3 (join3 a 0 0) = 0" "sx2 (join3 a 0 0) = 0" "sx3 (join3 a b 0) = 0" by (simp_all only:)
qed

lemma b64_roundtrip: "b64_groups (b64_encode bs) = Some bs"
proof (induction bs rule: b64_encode.induct)
  case (2 a)
  have "join4 (sx0 (join3 a 0 0)) (sx1 (join3 a 0 0)) 0 0 = join3 a 0 0"
    using join4_sextets [of "join3 a 0 0"] by (simp only: join3_low)
  then show ?case
    using octets_join3 [of a 0 0] by (simp add: sextets_def sextet_vals b64_pad_val)
next
  case (3 a b)
  have "join4 (sx0 (join3 a b 0)) (sx1 (join3 a b 0)) (sx2 (join3 a b 0)) 0 = join3 a b 0"
    using join4_sextets [of "join3 a b 0"] by (simp only: join3_low)
  then show ?case using octets_join3 [of a b 0] by (simp add: sextets_def sextet_vals b64_pad_val)
next
  case (4 a b c rest)
  then show ?case using octets_join3 [of a b c] by (simp add: sextets_def sextet_vals join4_sextets)
qed simp

text \<open>Encoded text has no white space.\<close>

abbreviation clean :: "rune \<Rightarrow> bool" where "clean r \<equiv> r \<noteq> 10 \<and> r \<noteq> 13 \<and> \<not> IsSpace r"

lemma sextets_clean: "\<forall>r \<in> set (sextets (join3 a b c)). clean r"
  using join3_top [of a b c] b64_char_clean by (simp add: sextets_def)

lemma b64_encode_clean: "\<forall>r \<in> set (b64_encode bs). clean r"
proof (induction bs rule: b64_encode.induct)
  case (2 a)
  then show ?case using sextets_clean [of a 0 0] by (auto dest: in_set_takeD simp: b64_pad_def IsSpace_def)
next
  case (3 a b)
  then show ?case using sextets_clean [of a b 0] by (auto dest: in_set_takeD simp: b64_pad_def IsSpace_def)
next
  case (4 a b c rest)
  then show ?case using sextets_clean [of a b c] by auto
qed simp

lemma length_b64_encode: "length (b64_encode bs) = 4 * ((length bs + 2) div 3)"
proof (induction bs rule: b64_encode.induct)
  case (4 a b c rest)
  have "(length (a # b # c # rest) + 2) div 3 = (length rest + 2 + 3) div 3" by simp
  also have "\<dots> = (length rest + 2) div 3 + 1" by (rule div_add_self2) simp
  finally show ?case using 4 by (simp add: sextets_def)
qed (simp_all add: sextets_def)


lemma DecodeKey_length: "DecodeKey s = Inr k \<Longrightarrow> length k = KeyLen"
  by (auto simp: DecodeKey_def put_at_def split: option.splits if_splits)

lemma decode_encode: "length k = KeyLen \<Longrightarrow> DecodeKey (EncodeKey k) = Inr k"
proof -
  have "filter (\<lambda>r. r \<noteq> 10 \<and> r \<noteq> 13) (b64_encode k) = b64_encode k"
    using b64_encode_clean [of k] by (simp add: filter_id_conv)
  then show "length k = KeyLen \<Longrightarrow> DecodeKey (EncodeKey k) = Inr k"
    by (simp add: DecodeKey_def EncodeKey_def b64_decode_def b64_roundtrip put_at_def)
qed

lemma dropWhile_none: "\<forall>x \<in> set xs. \<not> P x \<Longrightarrow> dropWhile P xs = xs"
  by (cases xs) auto

lemma TrimSpace_line:
  assumes "\<forall>r \<in> set s. \<not> IsSpace r"
  shows "TrimSpace (s @ [10]) = s"
proof (cases s)
  case Nil
  then show ?thesis by (simp add: TrimSpace_def IsSpace_def)
next
  case (Cons r rs)
  have "dropWhile IsSpace (s @ [10]) = s @ [10]" using assms Cons by simp
  then show ?thesis using assms by (simp add: TrimSpace_def IsSpace_def dropWhile_none)
qed

lemma saved_key:
  assumes "length k = KeyLen" and "fs path = Some (EncodeKey k @ [10])"
  shows "loadOrGenerateKey curve dh written path fs = (Inr \<lparr> kp_Private = k, kp_Public = curve k \<rparr>, fs)"
  using assms TrimSpace_line [of "EncodeKey k"] b64_encode_clean [of k] decode_encode [OF assms(1)]
  by (auto simp: loadOrGenerateKey_def DerivePublic_def EncodeKey_def)

section \<open>Properties\<close>

text \<open>A key written as text reads back: 32 bytes become 44 characters without white space, which decode to the
  same 32 bytes, also with line breaks inserted anywhere.\<close>

theorem key_roundtrip:
  assumes "length k = KeyLen" and "filter (\<lambda>r. r \<noteq> 10 \<and> r \<noteq> 13) s = EncodeKey k"
  shows "DecodeKey s = Inr k \<and> length (EncodeKey k) = 44 \<and> list_all (\<lambda>r. \<not> IsSpace r) (EncodeKey k)"
proof -
  have "b64_decode s = Some k" using assms(2) by (simp add: b64_decode_def EncodeKey_def b64_roundtrip)
  then show ?thesis
    using assms(1) b64_encode_clean [of k] length_b64_encode [of k]
    by (simp add: DecodeKey_def put_at_def EncodeKey_def list_all_iff KeyLen_def)
qed

theorem key_roundtrip_witness:
  "DecodeKey ([10] @ EncodeKey (replicate 32 200) @ [13, 10]) = Inr (replicate 32 200)"
proof -
  have "filter (\<lambda>r. r \<noteq> 10 \<and> r \<noteq> 13) (EncodeKey (replicate 32 200)) = EncodeKey (replicate 32 200)"
    using b64_encode_clean [of "replicate 32 200"] by (simp add: filter_id_conv EncodeKey_def)
  then show ?thesis
    using key_roundtrip [of "replicate 32 200" "[10] @ EncodeKey (replicate 32 200) @ [13, 10]"] by (simp add: KeyLen_def)
qed


text \<open>C32. An identity survives a restart: once \<^verbatim>\<open>loadOrGenerateKey\<close> has returned a key pair, with a key freshly
  generated and saved or one loaded from the file, every later run returns the same pair and leaves the
  files alone, whatever the random source would then produce.\<close>

theorem key_persistent:
  assumes "\<forall>priv pub. dh = Some (priv, pub) \<longrightarrow> length priv = KeyLen \<and> pub = curve priv \<and> length pub = KeyLen"
    and "loadOrGenerateKey curve dh written path fs = (Inr kp, fs')"
  shows "loadOrGenerateKey curve dh' written' path fs' = (Inr kp, fs')"
proof (cases "fs path")
  case (Some b)
  then show ?thesis using assms(2) by (auto simp: loadOrGenerateKey_def split: sum.splits)
next
  case None
  then obtain priv pub where d: "dh = Some (priv, pub)" "kp = \<lparr> kp_Private = priv, kp_Public = curve priv \<rparr>"
      "fs' = fs(path \<mapsto> EncodeKey priv @ [10])" "length priv = KeyLen"
    using assms by (auto simp: loadOrGenerateKey_def GenerateKeypair_def put_at_def split: option.splits if_splits)
  then show ?thesis using saved_key [OF d(4), of fs' path] by simp
qed

theorem key_persistent_witness:
  "let fs' = snd (loadOrGenerateKey (map (\<lambda>b. b + 1)) (Some (replicate 32 5, replicate 32 6)) True [47] Map.empty)
   in loadOrGenerateKey (map (\<lambda>b. b + 1)) None False [47] fs' = (Inr \<lparr> kp_Private = replicate 32 5, kp_Public = replicate 32 6 \<rparr>, fs')"
proof -
  let ?c = "map (\<lambda>b. b + 1) :: bytes \<Rightarrow> bytes" and ?d = "Some (replicate 32 5, replicate 32 6) :: (bytes \<times> bytes) option"
  let ?fs = "snd (loadOrGenerateKey ?c ?d True [47] Map.empty)"
  have "loadOrGenerateKey ?c ?d True [47] Map.empty = (Inr \<lparr> kp_Private = replicate 32 5, kp_Public = replicate 32 6 \<rparr>, ?fs)"
    by (simp add: loadOrGenerateKey_def GenerateKeypair_def put_at_def KeyLen_def)
  from key_persistent [OF _ this, of None False] show ?thesis by (simp add: KeyLen_def)
qed

end
