(* ===== verification/Frontend.thy ===== *)
theory Frontend
  imports Diag Keys Host
begin

text \<open>
  The programs around the tunnel: the desktop client \<^verbatim>\<open>desktop/cmd/bondify/main.go\<close>, the relay
  \<^verbatim>\<open>relay/cmd/bondify-relay/main.go\<close> and the binding for Android, \<^verbatim>\<open>mobile/mobile.go\<close>, up to the point where the
  packet loops of the tunnel and the relay take over. What a program meets outside (resolver, sockets, the
  TUN device, external commands, files, randomness) is in a record of outcomes; what the programs run beside the
  packet loops, and how they end, is in \<open>Programs\<close>.
\<close>

section \<open>Text\<close>

text \<open>\<^verbatim>\<open>%d\<close> of an integer.\<close>

fun dec_nat :: "nat \<Rightarrow> gostring" where
  "dec_nat n = (if n < 10 then [48 + n] else dec_nat (n div 10) @ [48 + n mod 10])"

declare dec_nat.simps [simp del]

definition dec_int :: "int \<Rightarrow> gostring" where
  "dec_int i = (if i < 0 then 45 # dec_nat (nat (- i)) else dec_nat (nat i))"

definition cidr_String :: "string \<Rightarrow> int \<Rightarrow> gostring" where
  "cidr_String ip prefix = runes ip @ 47 # dec_int prefix"

text \<open>A comma-separated list: the parts without surrounding white space, those left empty dropped.\<close>

definition comma_list :: "gostring \<Rightarrow> gostring list" where
  "comma_list s = filter (\<lambda>a. a \<noteq> []) (map TrimSpace (strings_Split s 44))"

text \<open>A path: an address, or an address and a device after the first \<^verbatim>\<open>@\<close>.\<close>

definition parse_spec :: "gostring \<Rightarrow> PathSpec" where
  "parse_spec a =
     (if 64 \<in> set a
      then \<lparr> sp_LocalAddr = takeWhile (\<lambda>r. r \<noteq> 64) a, sp_Device = drop 1 (dropWhile (\<lambda>r. r \<noteq> 64) a), sp_Conn = False \<rparr>
      else \<lparr> sp_LocalAddr = a, sp_Device = [], sp_Conn = False \<rparr>)"

definition parse_paths :: "gostring \<Rightarrow> PathSpec list" where
  "parse_paths s = map parse_spec (comma_list s)"

section \<open>Outcomes of the outside world\<close>

record 'hs host =
  h_curve :: "bytes \<Rightarrow> bytes"
  h_dh :: "(bytes \<times> bytes) option"
  h_written :: bool
  h_split :: bool
  h_relayIP :: "gostring option"
  h_routeGet :: gostring
  h_exec :: executor
  h_tun :: bool
  h_noise :: "'hs noise_impl"
  h_env :: tunnel_env
  h_now :: instant
  h_resolved :: bool
  h_dial :: "PathSpec \<Rightarrow> bool"
  h_attempts :: "nat \<Rightarrow> nat \<Rightarrow> attempt"
  h_forward :: bool
  h_listen :: bool

datatype fatal = FUsage | FRelayKey key_error | FKey key_error | FRelayAddr | FResolve | FTun | FMode | FDial dial_error
  | FConfigure host_error | FPool | FForwarding | FNat host_error | FRelay | FNoPaths

section \<open>The desktop client\<close>

record client_flags =
  cl_relay :: gostring
  cl_relayPubKey :: gostring
  cl_keyFile :: gostring
  cl_tun :: gostring
  cl_defRoute :: bool
  cl_extraRoutes :: gostring
  cl_localAddrs :: gostring
  cl_scheduler :: string
  cl_mode :: string
  cl_fec :: bool

definition client_key :: "'hs host \<Rightarrow> client_flags \<Rightarrow> files \<Rightarrow> (key_error + Keypair) \<times> files" where
  "client_key h fl fs =
     (if cl_keyFile fl \<noteq> [] then loadOrGenerateKey (h_curve h) (h_dh h) (h_written h) (cl_keyFile fl) fs
      else (GenerateKeypair (h_dh h), fs))"

text \<open>The guard against routing the tunnel's own packets into the tunnel; its failures are only warnings.\<close>

definition pin_relay :: "'hs host \<Rightarrow> gostring \<Rightarrow> command list \<Rightarrow> command list" where
  "pin_relay h ip tr =
     (case EgressDevice (h_exec h) (h_routeGet h) ip tr of
        (Inl e, tr) \<Rightarrow> tr
      | (Inr egressDev, tr) \<Rightarrow> snd (AddHostRoute (h_exec h) ip egressDev tr))"

definition client_config :: "client_flags \<Rightarrow> bytes \<Rightarrow> Keypair \<Rightarrow> Mode \<Rightarrow> ClientConfig" where
  "client_config fl relayPub clientKey sendMode =
     \<lparr> cf_RelayPubKey = relayPub, cf_ClientKey = clientKey, cf_Paths = parse_paths (cl_localAddrs fl), cf_HandshakeTO = 0,
       cf_HandshakeTry = 0, cf_Scheduler = cl_scheduler fl, cf_Mode = sendMode,
       cf_FEC = (if cl_fec fl \<and> sendMode = ModeRedundant then False else cl_fec fl) \<rparr>"

definition client_routes :: "client_flags \<Rightarrow> gostring list" where
  "client_routes fl = (if cl_defRoute fl then [runes ''0.0.0.0/0''] else []) @ comma_list (cl_extraRoutes fl)"

text \<open>The result is the running tunnel, with the files and the commands run on the way.\<close>

definition client_main ::
  "'hs host \<Rightarrow> client_flags \<Rightarrow> files \<Rightarrow> (fatal + (ClientTunnel \<times> HandshakeRespPayload)) \<times> files \<times> command list" where
  "client_main h fl fs =
     (if cl_relay fl = [] \<or> cl_relayPubKey fl = [] then (Inl FUsage, fs, [])
      else case DecodeKey (cl_relayPubKey fl) of
             Inl e \<Rightarrow> (Inl (FRelayKey e), fs, [])
           | Inr relayPub \<Rightarrow>
               (case client_key h fl fs of
                  (Inl e, fs) \<Rightarrow> (Inl (FKey e), fs, [])
                | (Inr clientKey, fs) \<Rightarrow>
                    if \<not> h_split h then (Inl FRelayAddr, fs, [])
                    else case h_relayIP h of
                           None \<Rightarrow> (Inl FResolve, fs, [])
                         | Some relayIP \<Rightarrow>
                             let tr = pin_relay h relayIP []
                             in if \<not> h_tun h then (Inl FTun, fs, tr)
                                else case ModeFromString (cl_mode fl) of
                                       None \<Rightarrow> (Inl FMode, fs, tr)
                                     | Some sendMode \<Rightarrow>
                                         (case DialHandshake (h_noise h) (h_env h) (h_now h) (h_resolved h) (h_dial h)
                                                 (h_attempts h) (client_config fl relayPub clientKey sendMode) of
                                            Inl e \<Rightarrow> (Inl (FDial e), fs, tr)
                                          | Inr (t, resp) \<Rightarrow>
                                              (case Configure (h_exec h) (cl_tun fl)
                                                      (cidr_String (hr_TunnelIP resp) (hr_Prefix resp)) (client_routes fl) tr of
                                                 (Some e, tr) \<Rightarrow> (Inl (FConfigure e), fs, tr)
                                               | (None, tr) \<Rightarrow> (Inr (t, resp), fs, tr)))))"

section \<open>The relay\<close>

record relay_flags =
  rl_pool :: gostring
  rl_poolCIDR :: "(bytes \<times> ipnet) option"
  rl_tun :: gostring
  rl_mtu :: int
  rl_keyFile :: gostring
  rl_dns :: gostring
  rl_natIface :: gostring
  rl_keepalive :: int
  rl_scheduler :: string
  rl_mode :: string
  rl_fec :: bool

definition relay_config :: "relay_flags \<Rightarrow> Keypair \<Rightarrow> Mode \<Rightarrow> RelayConfig" where
  "relay_config fl key sendMode =
     \<lparr> rc_RelayKey = key, rc_PoolCIDR = rl_poolCIDR fl, rc_DNS = comma_list (rl_dns fl), rc_MTU = rl_mtu fl,
       rc_KeepAlive = rl_keepalive fl, rc_Scheduler = rl_scheduler fl, rc_Mode = sendMode,
       rc_FEC = (if rl_fec fl \<and> sendMode = ModeRedundant then False else rl_fec fl) \<rparr>"

text \<open>Forwarding and address translation, when an interface is named; the command that takes the rule back.\<close>

definition relay_nat :: "'hs host \<Rightarrow> relay_flags \<Rightarrow> command list \<Rightarrow> (fatal + command option) \<times> command list" where
  "relay_nat h fl tr =
     (if rl_natIface fl = [] then (Inr None, tr)
      else if \<not> h_forward h then (Inl FForwarding, tr)
      else case Masquerade (h_exec h) (rl_pool fl) (rl_natIface fl) tr of
             (Inl e, tr) \<Rightarrow> (Inl (FNat e), tr)
           | (Inr cleanup, tr) \<Rightarrow> (Inr (Some cleanup), tr))"

text \<open>The result is the relay before its loops start, and the clean-up that its end runs.\<close>

definition relay_main ::
  "'hs host \<Rightarrow> relay_flags \<Rightarrow> files \<Rightarrow> (fatal + (Relay \<times> command option)) \<times> files \<times> command list" where
  "relay_main h fl fs =
     (case relay_loadOrGenerateKey (h_curve h) (h_dh h) (h_written h) (rl_keyFile fl) fs of
        (Inl e, fs, _) \<Rightarrow> (Inl (FKey e), fs, [])
      | (Inr key, fs, _) \<Rightarrow>
          if \<not> h_tun h then (Inl FTun, fs, [])
          else case NewIPPool (rl_poolCIDR fl) of
                 Inl e \<Rightarrow> (Inl FPool, fs, [])
               | Inr pool \<Rightarrow>
                   (case Configure (h_exec h) (rl_tun fl) (cidr_String (gateway_String pool) (int (Prefix pool))) [] [] of
                      (Some e, tr) \<Rightarrow> (Inl (FConfigure e), fs, tr)
                    | (None, tr) \<Rightarrow>
                        (case relay_nat h fl tr of
                           (Inl e, tr) \<Rightarrow> (Inl e, fs, tr)
                         | (Inr cleanup, tr) \<Rightarrow>
                             (case ModeFromString (rl_mode fl) of
                                None \<Rightarrow> (Inl FMode, fs, tr)
                              | Some sendMode \<Rightarrow>
                                  (case NewRelay (h_listen h) (relay_config fl key sendMode) of
                                     None \<Rightarrow> (Inl FRelay, fs, tr)
                                   | Some r \<Rightarrow> (Inr (r, cleanup), fs, tr))))))"


text \<open>The end of the relay: a cancellation runs the deferred clean-up, a failed loop ends in \<^verbatim>\<open>log.Fatalf\<close>, which does not.\<close>

definition relay_exit :: "executor \<Rightarrow> command option \<Rightarrow> bool \<Rightarrow> command list \<Rightarrow> command list" where
  "relay_exit ex cleanup failed tr =
     (if failed then tr else case cleanup of None \<Rightarrow> tr | Some c \<Rightarrow> snd (run ex c tr))"

section \<open>The binding for Android\<close>

definition GenerateKey :: "'hs host \<Rightarrow> key_error + gostring" where
  "GenerateKey h = (case GenerateKeypair (h_dh h) of Inl e \<Rightarrow> Inl e | Inr kp \<Rightarrow> Inr (EncodeKey (kp_Private kp)))"

definition PublicKeyFor :: "'hs host \<Rightarrow> gostring \<Rightarrow> key_error + gostring" where
  "PublicKeyFor h privB64 =
     (case DecodeKey privB64 of Inl e \<Rightarrow> Inl e | Inr priv \<Rightarrow> Inr (EncodeKey (DerivePublic (h_curve h) priv)))"

record TunnelBuilder =
  tb_relayAddr :: gostring
  tb_relayPubKey :: bytes
  tb_clientKey :: Keypair
  tb_scheduler :: string
  tb_mode :: string
  tb_fec :: bool
  tb_paths :: "PathSpec list"

definition NewTunnelBuilder ::
  "'hs host \<Rightarrow> gostring \<Rightarrow> gostring \<Rightarrow> gostring \<Rightarrow> string \<Rightarrow> string \<Rightarrow> bool \<Rightarrow> fatal + TunnelBuilder" where
  "NewTunnelBuilder h relayAddr relayPubKeyB64 clientKeyB64 sch mode fec =
     (case DecodeKey relayPubKeyB64 of
        Inl e \<Rightarrow> Inl (FRelayKey e)
      | Inr relayPub \<Rightarrow>
          (case DecodeKey clientKeyB64 of
             Inl e \<Rightarrow> Inl (FKey e)
           | Inr priv \<Rightarrow>
               Inr \<lparr> tb_relayAddr = relayAddr, tb_relayPubKey = relayPub,
                     tb_clientKey = \<lparr> kp_Private = priv, kp_Public = DerivePublic (h_curve h) priv \<rparr>,
                     tb_scheduler = sch, tb_mode = mode, tb_fec = fec, tb_paths = [] \<rparr>))"

text \<open>What a file descriptor turns out to be.\<close>

datatype fd_kind = FdInvalid | FdNotAdopted | FdNotUDP | FdUDP

definition AddPathFD :: "fd_kind \<Rightarrow> TunnelBuilder \<Rightarrow> (fd_kind + unit) \<times> TunnelBuilder" where
  "AddPathFD fd b =
     (case fd of
        FdUDP \<Rightarrow> (Inr (), b\<lparr>tb_paths := tb_paths b @ [\<lparr> sp_LocalAddr = [], sp_Device = [], sp_Conn = True \<rparr>]\<rparr>)
      | k \<Rightarrow> (Inl k, b))"

text \<open>A session and the life of its packet pump: whether shutdown was requested, and how the pump ended. A
  shutdown that was requested is no failure.\<close>

record mobile_tunnel =
  mt_SessionIndexHex :: string
  mt_TunnelIP :: string
  mt_Prefix :: int
  mt_GatewayIP :: string
  mt_MTU :: int
  mt_PathErrors :: gostring
  mt_cancelled :: bool
  mt_t :: ClientTunnel
  mt_running :: bool
  mt_done :: bool
  mt_runErr :: "gostring option"

fun join_lines :: "gostring list \<Rightarrow> gostring" where
  "join_lines [] = []"
| "join_lines [l] = l"
| "join_lines (l # ls) = l @ 10 # join_lines ls"

definition builder_config :: "TunnelBuilder \<Rightarrow> Mode \<Rightarrow> ClientConfig" where
  "builder_config b sendMode =
     \<lparr> cf_RelayPubKey = tb_relayPubKey b, cf_ClientKey = tb_clientKey b, cf_Paths = tb_paths b, cf_HandshakeTO = 0,
       cf_HandshakeTry = 0, cf_Scheduler = tb_scheduler b, cf_Mode = sendMode,
       cf_FEC = (if tb_fec b \<and> sendMode = ModeRedundant then False else tb_fec b) \<rparr>"

text \<open>\<open>msg\<close> is the text of an error.\<close>

definition Handshake :: "'hs host \<Rightarrow> (dial_error \<Rightarrow> gostring) \<Rightarrow> TunnelBuilder \<Rightarrow> fatal + mobile_tunnel" where
  "Handshake h msg b =
     (if length (tb_paths b) = 0 then Inl FNoPaths
      else case ModeFromString (tb_mode b) of
             None \<Rightarrow> Inl FMode
           | Some sendMode \<Rightarrow>
               (case DialHandshake (h_noise h) (h_env h) (h_now h) (h_resolved h) (h_dial h) (h_attempts h)
                       (builder_config b sendMode) of
                  Inl e \<Rightarrow> Inl (FDial e)
                | Inr (t, resp) \<Rightarrow>
                    Inr \<lparr> mt_SessionIndexHex = sessionIndexHex (hr_SessionIndex resp), mt_TunnelIP = hr_TunnelIP resp,
                          mt_Prefix = hr_Prefix resp, mt_GatewayIP = hr_GatewayIP resp, mt_MTU = hr_MTU resp,
                          mt_PathErrors = join_lines (map msg (ct_pathErrs t)), mt_cancelled = False, mt_t = t,
                          mt_running = False, mt_done = False, mt_runErr = None \<rparr>))"

text \<open>\<open>adopted\<close> says whether the descriptor of the interface could be adopted; \<^verbatim>\<open>pump_ends\<close> is the end of the goroutine
  that \<^verbatim>\<open>AttachTUN\<close> starts, with the error of \<^verbatim>\<open>Run\<close>.\<close>

definition AttachTUN :: "bool \<Rightarrow> mobile_tunnel \<Rightarrow> bool \<times> mobile_tunnel" where
  "AttachTUN adopted tu = (if \<not> adopted then (False, tu) else (True, tu\<lparr>mt_running := True\<rparr>))"

definition pump_ends :: "gostring option \<Rightarrow> mobile_tunnel \<Rightarrow> mobile_tunnel" where
  "pump_ends err tu =
     (if mt_running tu \<and> \<not> mt_done tu
      then tu\<lparr>mt_runErr := (if mt_cancelled tu then None else err), mt_done := True\<rparr> else tu)"

text \<open>\<open>None\<close> while the call blocks.\<close>

definition AwaitExit :: "mobile_tunnel \<Rightarrow> gostring option" where
  "AwaitExit tu =
     (if \<not> mt_done tu then None else Some (case mt_runErr tu of Some e \<Rightarrow> e | None \<Rightarrow> []))"

definition Close :: "mobile_tunnel \<Rightarrow> mobile_tunnel" where
  "Close tu = tu\<lparr>mt_cancelled := True\<rparr>"


section \<open>Lemmas\<close>

lemma split_at_word: "\<forall>r \<in> set w. \<not> sep r \<Longrightarrow> split_at sep w = [w]"
  by (induction w) auto

lemma split_at_append:
  "\<forall>r \<in> set w. \<not> sep r \<Longrightarrow> sep c \<Longrightarrow> split_at sep (w @ c # rest) = w # split_at sep rest"
  by (induction w) auto

definition join_comma :: "gostring list \<Rightarrow> gostring" where
  "join_comma ws = (case ws of [] \<Rightarrow> [] | w # ws \<Rightarrow> w @ concat (map (\<lambda>w. 44 # w) ws))"

lemma split_join:
  "\<forall>w \<in> set (w # ws). 44 \<notin> set w \<Longrightarrow> strings_Split (join_comma (w # ws)) 44 = w # ws"
proof (induction ws arbitrary: w)
  case Nil
  then show ?case by (auto simp: strings_Split_def join_comma_def intro: split_at_word)
next
  case (Cons v vs)
  have "strings_Split (join_comma (w # v # vs)) 44 = w # strings_Split (join_comma (v # vs)) 44"
    unfolding strings_Split_def join_comma_def using Cons.prems
    by (simp, intro split_at_append) auto
  then show ?case using Cons by simp
qed

lemma TrimSpace_none: "\<forall>r \<in> set s. \<not> IsSpace r \<Longrightarrow> TrimSpace s = s"
  by (simp add: TrimSpace_def dropWhile_none)

text \<open>A path as an operator writes it.\<close>

definition show_spec :: "PathSpec \<Rightarrow> gostring" where
  "show_spec sp = sp_LocalAddr sp @ (if sp_Device sp = [] then [] else 64 # sp_Device sp)"

definition plain_text :: "gostring \<Rightarrow> bool" where
  "plain_text s \<longleftrightarrow> list_all (\<lambda>r. \<not> IsSpace r \<and> r \<noteq> 44) s"

definition writable_spec :: "PathSpec \<Rightarrow> bool" where
  "writable_spec sp \<longleftrightarrow> sp_LocalAddr sp \<noteq> [] \<and> plain_text (sp_LocalAddr sp) \<and> 64 \<notin> set (sp_LocalAddr sp) \<and>
     plain_text (sp_Device sp) \<and> \<not> sp_Conn sp"

lemma writable_show:
  assumes "writable_spec sp"
  shows "show_spec sp \<noteq> []" and "\<forall>r \<in> set (show_spec sp). \<not> IsSpace r \<and> r \<noteq> 44" and "parse_spec (show_spec sp) = sp"
proof -
  let ?a = "sp_LocalAddr sp" and ?d = "sp_Device sp"
  have a: "\<forall>r \<in> set ?a. r \<noteq> 64" using assms by (auto simp: writable_spec_def)
  then have "takeWhile (\<lambda>r. r \<noteq> 64) (?a @ 64 # ?d) = ?a" "dropWhile (\<lambda>r. r \<noteq> 64) (?a @ 64 # ?d) = 64 # ?d" by auto
  then show "parse_spec (show_spec sp) = sp"
    using assms a by (auto simp: parse_spec_def show_spec_def writable_spec_def)
  show "show_spec sp \<noteq> []" "\<forall>r \<in> set (show_spec sp). \<not> IsSpace r \<and> r \<noteq> 44"
    using assms by (auto simp: show_spec_def writable_spec_def plain_text_def list_all_iff IsSpace_def)
qed

section \<open>A concrete host\<close>

definition ex_host :: "plain_hs host" where
  "ex_host = \<lparr> h_curve = id, h_dh = Some (replicate 32 1, ex_key), h_written = True, h_split = True, h_relayIP = Some [49],
     h_routeGet = runes ''1 dev e'', h_exec = (\<lambda>_ _. True), h_tun = True, h_noise = plain_noise, h_env = ex_env2, h_now = 0,
     h_resolved = True, h_dial = (\<lambda>_. True), h_attempts = (\<lambda>_ _. Reads ex_out), h_forward = True, h_listen = True \<rparr>"

definition ex_flags :: client_flags where
  "ex_flags = \<lparr> cl_relay = [49], cl_relayPubKey = EncodeKey (replicate 32 4), cl_keyFile = [], cl_tun = [98], cl_defRoute = True,
     cl_extraRoutes = [], cl_localAddrs = [], cl_scheduler = '''', cl_mode = '''', cl_fec = False \<rparr>"

lemma ex_dial: "\<exists>t resp. DialHandshake plain_noise ex_env2 0 True (\<lambda>_. True) (\<lambda>_ _. Reads ex_out) ex_client = Inr (t, resp)"
proof -
  obtain hs where i: "initPacket plain_noise ex_client = Inr (ex_init, hs)" using ex_initPacket by blast
  have k: "length (kp_Public (cf_ClientKey ex_client)) = KeyLen" "cf_RelayPubKey ex_client = kp_Public (rc_RelayKey (r_cfg ex_relay))"
      "resp_ok ex_env2"
    by (simp_all add: ex_client_def ex_key_def KeyLen_def ex_relay_fields ex_cfg_def ex_env2_def)
  obtain resp s where "handshake_response plain_noise ex_env2 hs ex_out = Inr (resp, s)"
    using response_read [OF plain_noise_ok k i ex_handshake2] by metis
  from dial_single [where k = 0 and att = "\<lambda>_ _. Reads ex_out" and dial = "\<lambda>_. True" and sch = "SRoundRobin NewRoundRobin",
      OF _ _ _ _ _ _ i this] show ?thesis
    by (simp add: ex_client_def dialPath_def sched_New_def dial_tries_def)
qed

lemma ex_client_config:
  "client_config ex_flags (replicate 32 4) \<lparr> kp_Private = replicate 32 1, kp_Public = ex_key \<rparr> ModeSpeed = ex_client"
  by (simp add: client_config_def ex_flags_def ex_client_def parse_paths_def comma_list_def strings_Split_def TrimSpace_def)

lemma ex_main: "\<exists>t resp tr. client_main ex_host ex_flags fs = (Inr (t, resp), fs, tr)"
proof -
  obtain t resp where d: "DialHandshake plain_noise ex_env2 0 True (\<lambda>_. True) (\<lambda>_ _. Reads ex_out) ex_client = Inr (t, resp)"
    using ex_dial by blast
  have key: "client_key ex_host ex_flags fs = (Inr \<lparr> kp_Private = replicate 32 1, kp_Public = ex_key \<rparr>, fs)"
    by (simp add: client_key_def ex_flags_def ex_host_def GenerateKeypair_def put_at_def KeyLen_def ex_key_def)
  have rp: "DecodeKey (cl_relayPubKey ex_flags) = Inr (replicate 32 4)"
    using decode_encode [of "replicate 32 4"] by (simp add: ex_flags_def KeyLen_def)
  have c: "fst (Configure (h_exec ex_host) i c rs tr) = None" for i c rs tr
  proof -
    have "fst (route_loop (h_exec ex_host) i rs tr) = None" for tr by (induction rs arbitrary: tr) (simp_all add: run_def ex_host_def)
    then show ?thesis by (simp add: Configure_def run_def ex_host_def)
  qed
  have f: "cl_relay ex_flags \<noteq> []" "cl_relayPubKey ex_flags \<noteq> []" "ModeFromString (cl_mode ex_flags) = Some ModeSpeed"
      "h_split ex_host" "h_tun ex_host" "h_relayIP ex_host = Some [49]"
    using length_b64_encode [of "replicate 32 4"] by (auto simp: ex_flags_def ex_host_def ModeFromString_def EncodeKey_def)
  have h: "DialHandshake (h_noise ex_host) (h_env ex_host) (h_now ex_host) (h_resolved ex_host) (h_dial ex_host) (h_attempts ex_host)
      (client_config ex_flags (replicate 32 4) \<lparr> kp_Private = replicate 32 1, kp_Public = ex_key \<rparr> ModeSpeed) = Inr (t, resp)"
    unfolding ex_client_config using d by (simp add: ex_host_def)
  let ?c = "Configure (h_exec ex_host) (cl_tun ex_flags) (cidr_String (hr_TunnelIP resp) (hr_Prefix resp)) (client_routes ex_flags)
    (pin_relay ex_host [49] [])"
  obtain tr where "?c = (None, tr)" using c by (metis prod.collapse)
  then have "client_main ex_host ex_flags fs = (Inr (t, resp), fs, tr)"
    using f by (simp add: client_main_def rp key h Let_def)
  then show ?thesis by blast
qed

section \<open>Properties\<close>

text \<open>The list of uplinks an operator writes is the list the client uses: any paths given by address, or address
  and device, written with commas between them, parse back to exactly those paths in that order.\<close>

theorem path_flags_roundtrip:
  assumes "list_all writable_spec specs"
  shows "parse_paths (join_comma (map show_spec specs)) = specs"
proof (cases specs)
  case Nil
  then show ?thesis by (simp add: parse_paths_def comma_list_def join_comma_def strings_Split_def TrimSpace_def)
next
  case (Cons sp sps)
  have w: "show_spec s \<noteq> []" "\<forall>r \<in> set (show_spec s). \<not> IsSpace r \<and> r \<noteq> 44" "parse_spec (show_spec s) = s" if "s \<in> set specs" for s
    using writable_show [of s] assms that by (auto simp: list_all_iff)
  have "strings_Split (join_comma (map show_spec specs)) 44 = map show_spec specs"
    unfolding Cons list.map using w(2) Cons by (intro split_join) auto
  moreover have "filter (\<lambda>a. a \<noteq> []) (map TrimSpace (map show_spec specs)) = map show_spec specs"
  proof -
    have "map TrimSpace (map show_spec specs) = map show_spec specs" using w(2) by (auto intro: TrimSpace_none)
    then show ?thesis using w(1) by (auto simp: filter_id_conv)
  qed
  ultimately show ?thesis using w(3) by (simp add: parse_paths_def comma_list_def map_idI)
qed

theorem path_flags_roundtrip_witness:
  "parse_paths (join_comma (map show_spec [\<lparr> sp_LocalAddr = [49, 48], sp_Device = [119], sp_Conn = False \<rparr>,
      \<lparr> sp_LocalAddr = [50], sp_Device = [], sp_Conn = False \<rparr>])) =
   [\<lparr> sp_LocalAddr = [49, 48], sp_Device = [119], sp_Conn = False \<rparr>, \<lparr> sp_LocalAddr = [50], sp_Device = [], sp_Conn = False \<rparr>]"
  by (rule path_flags_roundtrip) (simp add: writable_spec_def plain_text_def IsSpace_def)


text \<open>C35. The tunnel's own packets are kept out of the tunnel: when the client comes up, the commands it has run are
  the attempt to pin the relay's address to its present interface, and only after it the ones that bring the
  tunnel up and route through it. If the kernel names an interface for the relay, the host route through it
  is among the first, so it is tried before any route into the tunnel.\<close>

theorem client_pins_relay_first:
  assumes "client_main h fl fs = (Inr (t, resp), fs', tr)"
  shows "\<exists>ip. h_relayIP h = Some ip \<and>
    tr = pin_relay h ip [] @ config_cmds (cl_tun fl) (cidr_String (hr_TunnelIP resp) (hr_Prefix resp)) (client_routes fl) \<and>
    (\<forall>dev. h_exec h [] [w_ip, w_route, runes ''get'', ip] \<and> dev_line (scan_lines (h_routeGet h)) = Some dev \<longrightarrow>
       cmd_route_add (ip @ runes ''/32'') dev \<in> set (pin_relay h ip []))"
proof -
  obtain relayPub clientKey ip sendMode where
    ip: "h_relayIP h = Some ip" and
    c: "Configure (h_exec h) (cl_tun fl) (cidr_String (hr_TunnelIP resp) (hr_Prefix resp)) (client_routes fl) (pin_relay h ip []) = (None, tr)"
    using assms by (auto simp: client_main_def Let_def split: if_splits sum.splits option.splits prod.splits)
  have "tr = pin_relay h ip [] @ config_cmds (cl_tun fl) (cidr_String (hr_TunnelIP resp) (hr_Prefix resp)) (client_routes fl)"
    using Configure_trace [of "h_exec h" "cl_tun fl" "cidr_String (hr_TunnelIP resp) (hr_Prefix resp)" "client_routes fl" "pin_relay h ip []"] c
    by auto
  moreover have "cmd_route_add (ip @ runes ''/32'') dev \<in> set (pin_relay h ip [])"
    if "h_exec h [] [w_ip, w_route, runes ''get'', ip]" "dev_line (scan_lines (h_routeGet h)) = Some dev" for dev
    using that by (simp add: pin_relay_def EgressDevice_def AddHostRoute_def run_def)
  ultimately show ?thesis using ip by blast
qed

theorem client_pins_relay_first_witness:
  "\<exists>t resp fs' tr. client_main ex_host ex_flags Map.empty = (Inr (t, resp), fs', tr) \<and>
     cmd_route_add (runes ''1/32'') (runes ''e'') \<in> set tr"
proof -
  obtain t resp fs' tr where m: "client_main ex_host ex_flags Map.empty = (Inr (t, resp), fs', tr)" using ex_main by metis
  have "dev_line (scan_lines (h_routeGet ex_host)) = Some (runes ''e'')" "h_relayIP ex_host = Some [49]"
      "h_exec ex_host tr c" for tr c
    by (simp_all add: ex_host_def scan_lines_def strings_Split_def drop_cr_def strings_Fields_def runes_def IsSpace_def Let_def)
  with client_pins_relay_first [OF m] m show ?thesis by (auto simp: runes_def)
qed

text \<open>A relay that fails to start leaves its address translation behind: when an interface is named and the relay
  stops on a bad mode or on a listener or scheduler error, the rule has been added and nothing has taken it
  back, although the start-up code defers its removal.\<close>

theorem relay_nat_rule_leaks:
  assumes "relay_main h fl fs = (Inl e, fs', tr)" and "e = FMode \<or> e = FRelay" and "rl_natIface fl \<noteq> []"
  shows "masquerade_cmd ''-A'' (rl_pool fl) (rl_natIface fl) \<in> set tr \<and> masquerade_cmd ''-D'' (rl_pool fl) (rl_natIface fl) \<notin> set tr"
proof -
  obtain pool tr1 where
    c: "Configure (h_exec h) (rl_tun fl) (cidr_String (gateway_String pool) (int (Prefix pool))) [] [] = (None, tr1)" and
    tr: "tr = tr1 @ [masquerade_cmd ''-A'' (rl_pool fl) (rl_natIface fl)]"
    using assms
    by (auto simp: relay_main_def relay_nat_def Masquerade_def run_def Let_def split: if_splits sum.splits option.splits prod.splits)
  have "tr1 = config_cmds (rl_tun fl) (cidr_String (gateway_String pool) (int (Prefix pool))) []"
    using Configure_trace [of "h_exec h" "rl_tun fl" "cidr_String (gateway_String pool) (int (Prefix pool))" "[]" "[]"] c by auto
  then have "masquerade_cmd ''-D'' (rl_pool fl) (rl_natIface fl) \<notin> set tr1"
    by (simp add: config_cmds_def masquerade_cmd_def cmd_link_up_def cmd_addr_add_def)
  then show ?thesis by (simp add: tr masquerade_cmd_def runes_def)
qed

text \<open>A relay that is told to stop takes the rule back as its last command.\<close>

lemma relay_nat_rule_removed:
  assumes "relay_main h fl fs = (Inr (r, cleanup), fs', tr)" and "rl_natIface fl \<noteq> []"
  shows "relay_exit (h_exec h) cleanup False tr = tr @ [masquerade_cmd ''-D'' (rl_pool fl) (rl_natIface fl)] \<and>
    relay_exit (h_exec h) cleanup True tr = tr"
  using assms
  by (auto simp: relay_main_def relay_nat_def relay_exit_def Masquerade_def run_def Let_def split: if_splits sum.splits option.splits prod.splits)

definition ex_relay_flags :: relay_flags where
  "ex_relay_flags = \<lparr> rl_pool = [49], rl_poolCIDR = Some ([10, 77, 0, 0], ex_net), rl_tun = [98], rl_mtu = 1400, rl_keyFile = [107],
     rl_dns = [], rl_natIface = [101], rl_keepalive = 15, rl_scheduler = '''', rl_mode = ''fast'', rl_fec = False \<rparr>"

theorem relay_nat_rule_leaks_witness:
  "\<exists>fs' tr. relay_main ex_host ex_relay_flags Map.empty = (Inl FMode, fs', tr) \<and>
     masquerade_cmd ''-A'' [49] [101] \<in> set tr \<and> masquerade_cmd ''-D'' [49] [101] \<notin> set tr"
proof -
  have "\<exists>fs' tr. relay_main ex_host ex_relay_flags Map.empty = (Inl FMode, fs', tr)"
    by (simp add: relay_main_def ex_host_def ex_relay_flags_def relay_loadOrGenerateKey_def GenerateKeypair_def ex_pool Configure_def run_def
        relay_nat_def Masquerade_def ModeFromString_def Let_def)
  then obtain fs' tr where m: "relay_main ex_host ex_relay_flags Map.empty = (Inl FMode, fs', tr)" by blast
  from relay_nat_rule_leaks [OF m] m show ?thesis by (simp add: ex_relay_flags_def)
qed

end
