(* ===== verification/Sockets.thy ===== *)
theory Sockets
  imports Frontend
begin

text \<open>
  The sockets of the paths: \<^verbatim>\<open>dialPath\<close> of \<^verbatim>\<open>core/bond/client.go\<close> in full, \<^verbatim>\<open>DialUDPViaDevice\<close> of \<^verbatim>\<open>core/tun\<close> on its three
  platforms, and how the Windows client finds the adapter of a route. The operating system's answers are a
  record of outcomes. A socket is what the calls made of it: its local address, its options in the order they
  were set, and its peer.
\<close>

section \<open>The operating system\<close>

datatype sockaddr = SockaddrInet4 bytes | SockaddrInet6 bytes

text \<open>\<open>UnicastIf v\<close>: \<^verbatim>\<open>IP_UNICAST_IF\<close> with the integer \<open>v\<close>.\<close>

datatype sockopt = BindToDevice gostring | UnicastIf int

record socket =
  so_local :: "bytes option"
  so_opts :: "sockopt list"
  so_remote :: UDPAddr

record net_os =
  n_ParseIP :: "gostring \<Rightarrow> bytes option"
  n_control :: bool
  n_setsockopt :: "sockopt \<Rightarrow> bool"
  n_connect :: "bytes option \<Rightarrow> UDPAddr \<Rightarrow> bool"
  n_isUDP :: bool
  n_InterfaceByName :: "gostring \<Rightarrow> int option"
  n_InterfaceByIndex :: "int \<Rightarrow> gostring option"
  n_GetBestInterfaceEx :: "sockaddr \<Rightarrow> u32 option"

datatype net_error = ErrInterface gostring | ErrControl | ErrConnect | ErrConnType | ErrLocalAddr gostring | ErrBestInterface

datatype platform = Linux | Windows | OtherOS

section \<open>Dialling\<close>

text \<open>\<^verbatim>\<open>Dialer.DialContext\<close> runs \<^verbatim>\<open>Control\<close> on the new socket before it connects it; the type of the connection is checked
  afterwards.\<close>

definition control :: "net_os \<Rightarrow> sockopt option \<Rightarrow> net_error + sockopt list" where
  "control N opt =
     (case opt of
        None \<Rightarrow> Inr []
      | Some c \<Rightarrow> if \<not> n_control N then Inl ErrControl else if \<not> n_setsockopt N c then Inl ErrControl else Inr [c])"

definition dial_udp :: "net_os \<Rightarrow> sockopt option \<Rightarrow> bytes option \<Rightarrow> UDPAddr \<Rightarrow> net_error + socket" where
  "dial_udp N opt laddr raddr =
     (case control N opt of
        Inl e \<Rightarrow> Inl e
      | Inr opts \<Rightarrow>
          if \<not> n_connect N laddr raddr then Inl ErrConnect
          else if \<not> n_isUDP N then Inl ErrConnType
          else Inr \<lparr> so_local = laddr, so_opts = opts, so_remote = raddr \<rparr>)"

definition linux_DialUDPViaDevice :: "net_os \<Rightarrow> bytes option \<Rightarrow> UDPAddr \<Rightarrow> gostring \<Rightarrow> net_error + socket" where
  "linux_DialUDPViaDevice N laddr raddr device =
     dial_udp N (if device \<noteq> [] then Some (BindToDevice device) else None) laddr raddr"

definition win_DialUDPViaDevice :: "net_os \<Rightarrow> bytes option \<Rightarrow> UDPAddr \<Rightarrow> gostring \<Rightarrow> net_error + socket" where
  "win_DialUDPViaDevice N laddr raddr device =
     (if device \<noteq> []
      then (case n_InterfaceByName N device of
              None \<Rightarrow> Inl (ErrInterface device)
            | Some ifi \<Rightarrow> dial_udp N (Some (UnicastIf (uint (htonl (word_of_int ifi))))) laddr raddr)
      else dial_udp N None laddr raddr)"

definition other_DialUDPViaDevice :: "net_os \<Rightarrow> bytes option \<Rightarrow> UDPAddr \<Rightarrow> gostring \<Rightarrow> net_error + socket" where
  "other_DialUDPViaDevice N laddr raddr device = dial_udp N None laddr raddr"

fun DialUDPViaDevice :: "platform \<Rightarrow> net_os \<Rightarrow> bytes option \<Rightarrow> UDPAddr \<Rightarrow> gostring \<Rightarrow> net_error + socket" where
  "DialUDPViaDevice Linux = linux_DialUDPViaDevice"
| "DialUDPViaDevice Windows = win_DialUDPViaDevice"
| "DialUDPViaDevice OtherOS = other_DialUDPViaDevice"

text \<open>A path of the client; \<open>given\<close> is the socket the platform handed in, if it did.\<close>

definition dialPath_socket :: "platform \<Rightarrow> net_os \<Rightarrow> socket \<Rightarrow> UDPAddr \<Rightarrow> PathSpec \<Rightarrow> net_error + socket" where
  "dialPath_socket P N given raddr spec =
     (if sp_Conn spec then Inr given
      else if sp_LocalAddr spec \<noteq> []
      then (case n_ParseIP N (sp_LocalAddr spec) of
              None \<Rightarrow> Inl (ErrLocalAddr (sp_LocalAddr spec))
            | Some ip \<Rightarrow> DialUDPViaDevice P N (Some ip) raddr (sp_Device spec))
      else DialUDPViaDevice P N None raddr (sp_Device spec))"

section \<open>Finding an adapter\<close>

definition To16 :: "bytes \<Rightarrow> bytes option" where
  "To16 ip = (if length ip = 4 then Some (v4InV6Prefix @ ip) else if length ip = 16 then Some ip else None)"

definition bestInterfaceIndex :: "net_os \<Rightarrow> bytes \<Rightarrow> net_error + u32" where
  "bestInterfaceIndex N dst =
     (let sa = (case To4 dst of
                  Some ip4 \<Rightarrow> SockaddrInet4 (put_at 0 ip4 (replicate 4 0))
                | None \<Rightarrow> SockaddrInet6 (put_at 0 (case To16 dst of None \<Rightarrow> [] | Some ip \<Rightarrow> ip) (replicate 16 0)))
      in case n_GetBestInterfaceEx N sa of None \<Rightarrow> Inl ErrBestInterface | Some idx \<Rightarrow> Inr idx)"

definition win_EgressDevice :: "net_os \<Rightarrow> bytes \<Rightarrow> net_error + gostring" where
  "win_EgressDevice N dst =
     (case bestInterfaceIndex N dst of
        Inl e \<Rightarrow> Inl e
      | Inr idx \<Rightarrow> (case n_InterfaceByIndex N (uint idx) of None \<Rightarrow> Inl (ErrInterface []) | Some name \<Rightarrow> Inr name))"

section \<open>Lemmas\<close>

text \<open>The abstract outcome of \<^verbatim>\<open>dialPath\<close> that the dialling of the tunnel uses is whether this one gives a socket.\<close>

definition opens :: "platform \<Rightarrow> net_os \<Rightarrow> socket \<Rightarrow> UDPAddr \<Rightarrow> PathSpec \<Rightarrow> bool" where
  "opens P N given raddr spec = (case dialPath_socket P N given raddr spec of Inl e \<Rightarrow> False | Inr so \<Rightarrow> True)"

lemma dialPath_opens: "dialPath (opens P N given raddr) = opens P N given raddr"
  by (rule ext) (simp add: dialPath_def opens_def dialPath_socket_def)

lemma dial_udp_socket: "dial_udp N opt laddr raddr = Inr so \<Longrightarrow> so = \<lparr> so_local = laddr, so_opts = (case opt of None \<Rightarrow> [] | Some c \<Rightarrow> [c]), so_remote = raddr \<rparr>"
  by (auto simp: dial_udp_def control_def split: option.splits if_splits)

text \<open>What Winsock expects of \<^verbatim>\<open>IP_UNICAST_IF\<close>: an option value whose bytes, stored in the order of the processor, are the index of
  the adapter in network order.\<close>

definition selects :: "int \<Rightarrow> int \<Rightarrow> bool" where
  "selects v ifi \<longleftrightarrow> rev (put_be 4 (word_of_int v :: u32)) = put_be 4 (word_of_int ifi :: u32)"

lemma htonl_selects: "selects (uint (htonl (word_of_int ifi))) ifi"
  by (simp add: selects_def htonl_bytes)

text \<open>How a socket is tied to a device.\<close>

fun pinned :: "platform \<Rightarrow> net_os \<Rightarrow> gostring \<Rightarrow> sockopt list \<Rightarrow> bool" where
  "pinned Linux N device opts \<longleftrightarrow> opts = [BindToDevice device]"
| "pinned Windows N device opts \<longleftrightarrow> (\<exists>ifi v. n_InterfaceByName N device = Some ifi \<and> opts = [UnicastIf v] \<and> selects v ifi)"
| "pinned OtherOS N device opts \<longleftrightarrow> opts = []"

lemma DialUDPViaDevice_pins:
  assumes "DialUDPViaDevice P N laddr raddr device = Inr so"
  shows "so_local so = laddr \<and> so_remote so = raddr \<and> (if device = [] then so_opts so = [] else pinned P N device (so_opts so))"
  using assms htonl_selects
  by (cases P)
    (auto simp: linux_DialUDPViaDevice_def win_DialUDPViaDevice_def other_DialUDPViaDevice_def dest!: dial_udp_socket split: if_splits option.splits)

section \<open>Properties\<close>

text \<open>C36. Every uplink an operator names uses its own interface: for any list of paths given by address or by address and device,
  a path whose socket opens is bound to that address and connected to the relay, and tied to its device before
  it connects (by name on Linux, on Windows by the index of the adapter in network byte order), so no two
  uplinks share an interface by accident; on other systems the device is ignored.\<close>

theorem uplinks_pinned:
  assumes "list_all writable_spec specs" and "i < length specs"
    and "dialPath_socket P N given raddr (parse_paths (join_comma (map show_spec specs)) ! i) = Inr so"
  shows "so_remote so = raddr \<and> so_local so = n_ParseIP N (sp_LocalAddr (specs ! i)) \<and> so_local so \<noteq> None \<and>
    (if sp_Device (specs ! i) = [] then so_opts so = [] else pinned P N (sp_Device (specs ! i)) (so_opts so))"
proof -
  have sp: "parse_paths (join_comma (map show_spec specs)) = specs" by (rule path_flags_roundtrip [OF assms(1)])
  have w: "writable_spec (specs ! i)" using assms(1,2) by (simp add: list_all_length)
  then obtain ip where "n_ParseIP N (sp_LocalAddr (specs ! i)) = Some ip"
      "DialUDPViaDevice P N (Some ip) raddr (sp_Device (specs ! i)) = Inr so"
    using assms(3) by (auto simp: sp dialPath_socket_def writable_spec_def split: option.splits)
  with DialUDPViaDevice_pins [OF this(2)] show ?thesis by simp
qed

definition ex_os :: net_os where
  "ex_os = \<lparr> n_ParseIP = (\<lambda>_. Some [10, 60, 0, 1]), n_control = True, n_setsockopt = (\<lambda>_. True), n_connect = (\<lambda>_ _. True), n_isUDP = True,
     n_InterfaceByName = (\<lambda>_. Some 12), n_InterfaceByIndex = (\<lambda>_. None), n_GetBestInterfaceEx = (\<lambda>_. None) \<rparr>"

definition ex_specs :: "PathSpec list" where
  "ex_specs = [\<lparr> sp_LocalAddr = [49, 48], sp_Device = [119], sp_Conn = False \<rparr>, \<lparr> sp_LocalAddr = [50], sp_Device = [], sp_Conn = False \<rparr>]"

definition ex_given :: socket where
  "ex_given = \<lparr> so_local = None, so_opts = [], so_remote = ex_src \<rparr>"

theorem uplinks_pinned_witness:
  "\<exists>so. dialPath_socket Windows ex_os ex_given ex_src (parse_paths (join_comma (map show_spec ex_specs)) ! 0) = Inr so \<and>
     so_local so = Some [10, 60, 0, 1] \<and> pinned Windows ex_os [119] (so_opts so)"
proof -
  have w: "list_all writable_spec ex_specs" by (simp add: ex_specs_def writable_spec_def plain_text_def IsSpace_def)
  obtain so where so: "dialPath_socket Windows ex_os ex_given ex_src (parse_paths (join_comma (map show_spec ex_specs)) ! 0) = Inr so"
    unfolding path_flags_roundtrip [OF w]
    by (simp add: ex_specs_def dialPath_socket_def ex_os_def win_DialUDPViaDevice_def dial_udp_def control_def)
  from uplinks_pinned [OF w _ so] so show ?thesis by (auto simp: ex_specs_def ex_os_def)
qed

end
