(* ===== verification/Programs.thy ===== *)
theory Programs
  imports Goroutines Diag_Server Tray Sockets
begin

text \<open>
  The rest of both \<^verbatim>\<open>main\<close> functions. The desktop client, once its tunnel is up, starts the diagnostics server, the
  statistics loop and the tray icon beside \<^verbatim>\<open>Run\<close>, all of them sharing one context, and ends with \<^verbatim>\<open>Run\<close>; a signal
  or the tray cancels the context. The relay starts its loops and the diagnostics server and ends with the first
  loop that fails or with a signal. The steps of the parts are interleaved in any order. Lines logged are given
  by their values.
\<close>

section \<open>Attaching the device\<close>

text \<open>A tunnel with its TUN device, of any type, and its MTU; \<^verbatim>\<open>DialClient\<close> attaches both to the tunnel that was dialled.\<close>

record 'd attached = ClientTunnel +
  ct_dev :: 'd
  ct_mtu :: int

definition tunnel_AttachTUN :: "'d \<Rightarrow> int \<Rightarrow> ClientTunnel \<Rightarrow> 'd attached" where
  "tunnel_AttachTUN dev mtu t = ClientTunnel.extend t (attached.fields dev mtu)"

definition DialClient ::
  "'hs noise_impl \<Rightarrow> tunnel_env \<Rightarrow> instant \<Rightarrow> bool \<Rightarrow> (PathSpec \<Rightarrow> bool) \<Rightarrow> (nat \<Rightarrow> nat \<Rightarrow> attempt) \<Rightarrow> ClientConfig \<Rightarrow> 'd \<Rightarrow> int
     \<Rightarrow> dial_error + ('d attached \<times> HandshakeRespPayload)" where
  "DialClient N E now resolved dial att cfg dev mtu =
     (case DialHandshake N E now resolved dial att cfg of
        Inl e \<Rightarrow> Inl e
      | Inr (t, resp) \<Rightarrow> Inr (tunnel_AttachTUN dev mtu t, resp))"

text \<open>The device changes nothing of the tunnel, so what is proved of \<^verbatim>\<open>DialHandshake\<close> holds of it.\<close>

lemma DialClient_tunnel:
  "DialClient N E now resolved dial att cfg dev mtu = Inr (t, resp) \<longleftrightarrow>
     DialHandshake N E now resolved dial att cfg = Inr (ClientTunnel.truncate t, resp) \<and> ct_dev t = dev \<and> ct_mtu t = mtu"
  by (cases t)
    (auto simp: DialClient_def tunnel_AttachTUN_def ClientTunnel.extend_def ClientTunnel.truncate_def attached.fields_def split: sum.splits)

section \<open>Starting the parts\<close>

text \<open>The listener's address and its text, or an error; the address of the page is empty without a server.\<close>

definition start_diag :: "gostring \<Rightarrow> (bytes \<times> gostring) option \<Rightarrow> 'a Server option \<times> gostring" where
  "start_diag diagAddr lsn =
     (if diagAddr = [] then (None, [])
      else case core_NewServer (map_option fst lsn) of
             (Inl e, _) \<Rightarrow> (None, [])
           | (Inr srv, _) \<Rightarrow>
               (Some srv, runes ''http://'' @ (case lsn of None \<Rightarrow> [] | Some (_, text) \<Rightarrow> text) @ runes ''/api/v1/diagnostics''))"

text \<open>The tray exists on Windows alone, and only if its window does.\<close>

definition start_tray :: "platform \<Rightarrow> win32 \<Rightarrow> tray_setup \<Rightarrow> gostring \<Rightarrow> tray option" where
  "start_tray P W su url =
     (if P = Windows then (case startTray W su True url [] of (True, s) \<Rightarrow> None | (False, s) \<Rightarrow> Some s) else None)"

section \<open>Statistics\<close>

record path_stats =
  ps_id :: u8
  ps_state :: state
  ps_Stats :: Stats
  ps_rttMin :: duration
  ps_lossPercent :: rat

text \<open>One tick of \<^verbatim>\<open>statsLoop\<close>; asking a path for its minimal round trip time drops its old samples.\<close>

fun stats_paths :: "instant \<Rightarrow> 'a path list \<Rightarrow> path_stats list \<times> 'a path list" where
  "stats_paths now [] = ([], [])"
| "stats_paths now (p # ps) =
     (let (r, p') = RTTMin now p;
          (ls, ps') = stats_paths now ps
      in (\<lparr> ps_id = pt_id p, ps_state = pt_state p, ps_Stats = pt_Stats p, ps_rttMin = r, ps_lossPercent = Loss p' * 100 \<rparr> # ls, p' # ps'))"

definition stats_tick :: "instant \<Rightarrow> ClientTunnel \<Rightarrow> (Stats \<times> path_stats list) \<times> ClientTunnel" where
  "stats_tick now t = (let (ls, ps) = stats_paths now (ct_paths t) in ((ct_Stats t, ls), t\<lparr>ct_paths := ps\<rparr>))"

section \<open>The running program\<close>

record 'a desktop =
  dk_run :: run_state
  dk_srv :: "'a Server option"
  dk_tray :: "tray option"
  dk_stats :: bool
  dk_log :: "(Stats \<times> path_stats list) list"

text \<open>\<open>Tunnel\<close>: a step of \<^verbatim>\<open>Run\<close> and its goroutines; \<open>StatsDone\<close> and \<open>DiagDone\<close>: the statistics loop, or the goroutine that closes
  the server, sees that the context is done.\<close>

datatype desktop_event = Tunnel run_event | Signal | TrayCall wnd_call | StatsTick instant | StatsDone | DiagDone

definition stop :: "'a desktop \<Rightarrow> 'a desktop" where
  "stop s = s\<lparr>dk_run := (dk_run s)\<lparr>rn_ctx := True\<rparr>\<rparr>"

definition desktop_start :: "platform \<Rightarrow> win32 \<Rightarrow> tray_setup \<Rightarrow> gostring \<Rightarrow> (bytes \<times> gostring) option \<Rightarrow> ClientTunnel \<Rightarrow> 'a desktop" where
  "desktop_start P W su diagAddr lsn t =
     (let (srv, diagURL) = start_diag diagAddr lsn;
          tr = start_tray P W su diagURL;
          s = \<lparr> dk_run = Run t, dk_srv = srv, dk_tray = tr, dk_stats = True, dk_log = [] \<rparr>
      in case tr of None \<Rightarrow> s | Some x \<Rightarrow> if tr_cancelled x then stop s else s)"

fun desktop_step :: "tunnel_env \<Rightarrow> writer \<Rightarrow> win32 \<Rightarrow> 'a desktop \<Rightarrow> desktop_event \<Rightarrow> 'a desktop" where
  "desktop_step E wr W s (Tunnel e) = s\<lparr>dk_run := run_step E wr (dk_run s) e\<rparr>"
| "desktop_step E wr W s Signal = stop s"
| "desktop_step E wr W s (TrayCall c) =
     (case dk_tray s of
        None \<Rightarrow> s
      | Some tr \<Rightarrow>
          let tr = snd (trayWndProc W c tr);
              s = s\<lparr>dk_tray := Some tr\<rparr>
          in if tr_cancelled tr then stop s else s)"
| "desktop_step E wr W s (StatsTick now) =
     (if \<not> dk_stats s then s
      else let (l, t) = stats_tick now (rn_t (dk_run s))
           in s\<lparr>dk_run := (dk_run s)\<lparr>rn_t := t\<rparr>, dk_log := dk_log s @ [l]\<rparr>)"
| "desktop_step E wr W s StatsDone = (if rn_ctx (dk_run s) then s\<lparr>dk_stats := False\<rparr> else s)"
| "desktop_step E wr W s DiagDone = (if rn_ctx (dk_run s) then s\<lparr>dk_srv := None\<rparr> else s)"

text \<open>How the program ends, with the error of \<^verbatim>\<open>Run\<close> and whether the context is cancelled.\<close>

datatype exit_kind = ShutDown | TunnelError run_error

definition desktop_exit :: "run_error option \<Rightarrow> bool \<Rightarrow> exit_kind" where
  "desktop_exit err cancelled =
     (case err of None \<Rightarrow> ShutDown | Some e \<Rightarrow> if \<not> cancelled then TunnelError e else ShutDown)"

section \<open>The running relay\<close>

text \<open>The two loops that report to \<^verbatim>\<open>errCh\<close>, and the relay with the drains of its reorder buffers.\<close>

datatype reporting_loop = LoopUDP | LoopTUN

datatype relayd_phase = Serving | Fatal reporting_loop | Stopped

record 'a relayd =
  rd_sup :: "Relay \<times> drains"
  rd_live :: "reporting_loop list"
  rd_errCh :: "reporting_loop list"
  rd_ctx :: bool
  rd_srv :: "'a Server option"
  rd_phase :: relayd_phase
  rd_cmds :: "command list"

datatype relayd_event = Serves sup_event | LoopFails reporting_loop | RelaySignal | RelayDiagDone | RelaySelect bool

definition relayd_start :: "gostring \<Rightarrow> (bytes \<times> gostring) option \<Rightarrow> Relay \<Rightarrow> command list \<Rightarrow> 'a relayd" where
  "relayd_start diagAddr lsn r cmds =
     \<lparr> rd_sup = (r, noDrains), rd_live = [LoopUDP, LoopTUN], rd_errCh = [], rd_ctx = False, rd_srv = fst (start_diag diagAddr lsn),
       rd_phase = Serving, rd_cmds = cmds \<rparr>"

text \<open>A datagram or a packet is handled by the loop that reads it, as long as that loop runs.\<close>

fun served :: "reporting_loop list \<Rightarrow> sup_event \<Rightarrow> bool" where
  "served ls (SupRelay (EvUDP now draws buf src)) \<longleftrightarrow> LoopUDP \<in> set ls"
| "served ls (SupRelay (EvTUN now pkt)) \<longleftrightarrow> LoopTUN \<in> set ls"
| "served ls _ \<longleftrightarrow> True"

text \<open>The final \<^verbatim>\<open>select\<close>: a report ends the process at once, a cancellation by way of the deferred calls.\<close>

definition relayd_select :: "executor \<Rightarrow> command option \<Rightarrow> bool \<Rightarrow> 'a relayd \<Rightarrow> 'a relayd" where
  "relayd_select ex cleanup ctxDone s =
     (if ctxDone
      then (if rd_ctx s then s\<lparr>rd_phase := Stopped, rd_cmds := relay_exit ex cleanup False (rd_cmds s)\<rparr> else s)
      else (case rd_errCh s of
              [] \<Rightarrow> s
            | g # _ \<Rightarrow> s\<lparr>rd_phase := Fatal g, rd_cmds := relay_exit ex cleanup True (rd_cmds s)\<rparr>))"

definition relayd_step ::
  "'hs noise_impl \<Rightarrow> tunnel_env \<Rightarrow> sender \<Rightarrow> executor \<Rightarrow> command option \<Rightarrow> 'a relayd \<Rightarrow> relayd_event \<Rightarrow> 'a relayd" where
  "relayd_step N E wr ex cleanup s e =
     (if rd_phase s \<noteq> Serving then s
      else case e of
             Serves v \<Rightarrow> (if served (rd_live s) v then s\<lparr>rd_sup := sup_step N E wr (rd_sup s) v\<rparr> else s)
           | LoopFails g \<Rightarrow>
               (if g \<in> set (rd_live s) then s\<lparr>rd_live := remove1 g (rd_live s), rd_errCh := rd_errCh s @ [g]\<rparr> else s)
           | RelaySignal \<Rightarrow> s\<lparr>rd_ctx := True\<rparr>
           | RelayDiagDone \<Rightarrow> (if rd_ctx s then s\<lparr>rd_srv := None\<rparr> else s)
           | RelaySelect ctxDone \<Rightarrow> relayd_select ex cleanup ctxDone s)"

section \<open>The parts together\<close>

text \<open>The context is cancelled just when a signal came or the tray cancelled it; the tunnel keeps its invariant.\<close>

definition stop_asked :: "desktop_event list \<Rightarrow> 'a desktop \<Rightarrow> bool" where
  "stop_asked evs s \<longleftrightarrow> Signal \<in> set evs \<or> (\<exists>tr. dk_tray s = Some tr \<and> tr_cancelled tr)"

definition desktop_inv :: "nat \<Rightarrow> desktop_event list \<Rightarrow> 'a desktop \<Rightarrow> bool" where
  "desktop_inv cap evs s \<longleftrightarrow> run_inv cap (dk_run s) \<and> (rn_ctx (dk_run s) \<longleftrightarrow> stop_asked evs s)"

lemma run_inv_cancel: "run_inv cap s \<Longrightarrow> run_inv cap (s\<lparr>rn_ctx := True\<rparr>)"
  by (simp add: run_inv_def chan_inv_def quiet_inv_def)

lemma run_step_ctx: "e \<noteq> Cancel \<Longrightarrow> rn_ctx (run_step E wr s e) = rn_ctx s"
  by (cases e)
    (auto simp: tunToNet_step_def drain_step_def fec_tick_def pathRead_step_def probe_step_def select_step_def closeAll_def returns_def
      Let_def split: option.split prod.split run_phase.split list.split)

lemma desktop_inv_step:
  assumes "desktop_inv cap evs s" and "e \<noteq> Tunnel Cancel"
  shows "desktop_inv cap (evs @ [e]) (desktop_step E wr W s e)"
proof (cases e)
  case (Tunnel r)
  then show ?thesis using assms runs.inv_step [where s = "dk_run s" and e = r and cap = cap and E = E and wr = wr] run_step_ctx [of r E wr "dk_run s"]
    by (auto simp: desktop_inv_def stop_asked_def)
next
  case (TrayCall c)
  then show ?thesis using assms run_inv_cancel
    by (auto simp: desktop_inv_def stop_asked_def stop_def Let_def split: option.split)
qed (use assms run_inv_cancel in \<open>auto simp: desktop_inv_def stop_asked_def stop_def Let_def split_beta\<close>)

lemma desktop_inv_start: "desktop_inv (errCap t) [] (desktop_start P W su diagAddr lsn t)"
  using start_inv [of t] run_inv_cancel [OF start_inv [of t]]
  by (auto simp: desktop_inv_def desktop_start_def stop_asked_def stop_def Run_def Let_def split_beta split: option.split)

lemma desktop_run_inv:
  assumes "Tunnel Cancel \<notin> set evs"
  shows "desktop_inv (errCap t) evs (foldl (desktop_step E wr W) (desktop_start P W su diagAddr lsn t) evs)"
  using assms by (induction evs rule: rev_induct) (auto simp: desktop_inv_start intro: desktop_inv_step)

section \<open>Properties\<close>



text \<open>What holds of the relay at any time: why it ended, if it did, and which commands it has run.\<close>

definition relayd_inv :: "executor \<Rightarrow> command option \<Rightarrow> command list \<Rightarrow> relayd_event list \<Rightarrow> 'a relayd \<Rightarrow> bool" where
  "relayd_inv ex cleanup tr evs s \<longleftrightarrow> (rd_ctx s \<longrightarrow> RelaySignal \<in> set evs) \<and> (\<forall>g \<in> set (rd_errCh s). LoopFails g \<in> set evs) \<and>
     (case rd_phase s of
        Serving \<Rightarrow> rd_cmds s = tr
      | Fatal g \<Rightarrow> LoopFails g \<in> set evs \<and> rd_cmds s = tr
      | Stopped \<Rightarrow> RelaySignal \<in> set evs \<and> rd_cmds s = relay_exit ex cleanup False tr)"

lemma relayd_inv_step:
  "relayd_inv ex cleanup tr evs s \<Longrightarrow> relayd_inv ex cleanup tr (evs @ [e]) (relayd_step N E wr ex cleanup s e)"
  by (auto simp: relayd_inv_def relayd_step_def relayd_select_def relay_exit_def split: relayd_event.split relayd_phase.splits list.split)

lemma relayd_run_inv: "relayd_inv ex cleanup tr evs (foldl (relayd_step N E wr ex cleanup) (relayd_start diagAddr lsn r tr) evs)"
  by (induction evs rule: rev_induct) (simp add: relayd_inv_def relayd_start_def, simp add: relayd_inv_step)

text \<open>The relay's address translation lives as long as the relay, if nothing goes wrong: over any events the commands run are
  those of the start and, once the relay has stopped on a signal, the one that takes the rule back. When a loop
  fails instead, the process ends and the rule stays.\<close>

theorem relay_rule_life:
  assumes "relay_main h fl fs = (Inr (r, cleanup), fs', tr)" and "rl_natIface fl \<noteq> []"
    and "s = foldl (relayd_step N E wr (h_exec h) cleanup) (relayd_start diagAddr lsn r tr) evs"
  shows "case rd_phase s of
      Serving \<Rightarrow> rd_cmds s = tr
    | Fatal g \<Rightarrow> LoopFails g \<in> set evs \<and> rd_cmds s = tr
    | Stopped \<Rightarrow> RelaySignal \<in> set evs \<and> rd_cmds s = tr @ [masquerade_cmd ''-D'' (rl_pool fl) (rl_natIface fl)]"
  using relayd_run_inv [of "h_exec h" cleanup tr evs N E wr diagAddr lsn r] relay_nat_rule_removed [OF assms(1,2)] assms(3)
  by (auto simp: relayd_inv_def split: relayd_phase.splits)

end
