(* ===== verification/Downstream.thy ===== *)
theory Downstream
  imports EndToEnd
begin

text \<open>
  The way back: packets the relay reads from its TUN device for a client's tunnel address go out over the paths
  the session knows and come out of the client's reorder buffer complete and in order. The contracts are those of
  \<open>Streams\<close>, here with the relay as the sender and the client as the receiver.
\<close>

section \<open>The relay as a sender\<close>

lemma set_rpath_sel [simp]:
  "rs_sess (set_rpath i p rs) = rs_sess rs" "rs_sessionIndex (set_rpath i p rs) = rs_sessionIndex rs"
  "rs_fecSend (set_rpath i p rs) = rs_fecSend rs" "rs_sendGSN (set_rpath i p rs) = rs_sendGSN rs"
  "rs_mode (set_rpath i p rs) = rs_mode rs"
  by (simp_all add: set_rpath_def)

text \<open>A session without FEC that seals with \<open>key\<close> for index \<open>si\<close>.\<close>

definition session_sends :: "tunnel_env \<Rightarrow> aead_impl \<Rightarrow> bytes \<Rightarrow> u32 \<Rightarrow> relaySession \<Rightarrow> bool" where
  "session_sends E A key si rs \<longleftrightarrow> te_aead E = A \<and> ae_new A key \<and> sendKey (rs_sess rs) = key \<and> rs_sessionIndex rs = si \<and> rs_fecSend rs = None"

lemma relay_dup_numbered:
  assumes "session_sends E A key si rs"
  shows "session_sends E A key si (snd (relay_dup_loop E wr gsn pkt n ps rs)) \<and>
    numbered A key si (length ps) gsn pkt (rs_sess rs) (map snd (fst (relay_dup_loop E wr gsn pkt n ps rs)))
      (rs_sess (snd (relay_dup_loop E wr gsn pkt n ps rs))) \<and>
    rs_sendGSN (snd (relay_dup_loop E wr gsn pkt n ps rs)) = rs_sendGSN rs"
  using assms
proof (induction ps arbitrary: n rs)
  case (Cons q ps)
  obtain i p where q: "q = (i, p)" by (cases q)
  show ?case
  proof (cases "pt_remoteAddr p")
    case None
    with Cons.IH [OF Cons.prems, of "n + 1"] show ?thesis by (auto simp: q intro: numbered_mono)
  next
    case (Some addr)
    let ?p = "snd (NextSendPSN p)" and ?psn = "fst (NextSendPSN p)"
    let ?h = "dataHeader gsn ?psn (pt_id ?p) (if n > 0 then 0 OR FlagDUP else 0) pkt"
    have t: "te_aead E = A" "ae_new A (sendKey (rs_sess rs))" "sendKey (rs_sess rs) = key" "rs_sessionIndex rs = si" "rs_fecSend rs = None"
      using Cons.prems by (simp_all add: session_sends_def)
    obtain out s where seal: "sealPacket A TypeData si (pt_id ?p) ?h pkt (rs_sess rs) = (Inr out, s)"
      using sealPacket_ok [OF t(2)] by blast
    define w where "w = (if \<not> wr addr out then [] else [(addr, out)])"
    define rs1 where "rs1 = (if \<not> wr addr out then (set_rpath i ?p rs)\<lparr>rs_sess := s\<rparr>
      else set_rpath i (path_tx pkt ?p) ((set_rpath i ?p rs)\<lparr>rs_sess := s\<rparr>))"
    have step: "relay_dup_loop E wr gsn pkt n (q # ps) rs =
        (w @ fst (relay_dup_loop E wr gsn pkt (n + 1) ps rs1), snd (relay_dup_loop E wr gsn pkt (n + 1) ps rs1))"
      using seal t Some by (simp add: q Let_def split_beta w_def rs1_def)
    have one: "numbered A (sendKey (rs_sess rs)) si 1 gsn pkt (rs_sess rs) (map snd w) s"
      by (rule numbered_one [OF t(2) _ _ seal]) (auto simp: w_def no_push)
    have rs1: "rs_sess rs1 = s" "rs_sendGSN rs1 = rs_sendGSN rs" "session_sends E A key si rs1"
      using t seal_keeps_key [OF t(2) seal] by (simp_all add: rs1_def session_sends_def)
    show ?thesis
      using Cons.IH [OF rs1(3), of "n + 1"] numbered_trans [OF one, where ws' = "map snd (fst (relay_dup_loop E wr gsn pkt (n + 1) ps rs1))"]
        t(3) rs1
      unfolding step by simp
  qed
qed simp

text \<open>What one packet does to the session it is for.\<close>

definition session_send :: "tunnel_env \<Rightarrow> sender \<Rightarrow> instant \<Rightarrow> bytes \<Rightarrow> relaySession \<Rightarrow> Stats \<Rightarrow> sends \<times> relaySession \<times> Stats" where
  "session_send E wr now pkt rs st =
     (if rs_mode rs = ModeRedundant then relay_sendRedundant E wr now pkt rs st else relay_sendSpeed E wr now pkt rs st)"

lemma session_numbered:
  assumes "session_sends E A key si rs" and "session_send E wr now pkt rs st = (ws, rs', st')"
  shows "session_sends E A key si rs' \<and> numbered A key si DupFactor (rs_sendGSN rs) pkt (rs_sess rs) (map snd ws) (rs_sess rs') \<and>
    (ws \<noteq> [] \<longrightarrow> rs_sendGSN rs' = rs_sendGSN rs + 1)"
proof (cases "rs_mode rs = ModeRedundant")
  case True
  let ?ps = "selectRedundantPaths now (pathSlice E rs) DupFactor" and ?rs = "rs\<lparr>rs_sendGSN := rs_sendGSN rs + 1\<rparr>"
  have "session_sends E A key si ?rs" using assms(1) by (simp add: session_sends_def)
  note loop = relay_dup_numbered [OF this, of wr "rs_sendGSN rs" pkt 0 ?ps]
  have "length ?ps \<le> DupFactor" by (simp add: select_length)
  with loop numbered_mono show ?thesis
    using True assms by (auto simp: session_send_def relay_sendRedundant_def session_sends_def Let_def split_beta split: if_splits)
next
  case False
  let ?n = "sched_Next (te_arch E) (rs_sched rs) (relay_schedPaths E now rs) (int (length pkt))"
  show ?thesis
  proof (cases "Option.bind (fst ?n) (\<lambda>sp. rs_paths rs (sp_ID sp))")
    case None
    then show ?thesis
      using False assms by (auto simp: session_send_def relay_sendSpeed_def session_sends_def Let_def split_beta)
  next
    case (Some p)
    show ?thesis
    proof (cases "pt_remoteAddr p")
      case None
      then show ?thesis
        using Some False assms by (auto simp: session_send_def relay_sendSpeed_def session_sends_def Let_def split_beta)
    next
      case (Some addr)
      let ?p = "snd (NextSendPSN p)" and ?psn = "fst (NextSendPSN p)"
      let ?h = "dataHeader (rs_sendGSN rs) ?psn (pt_id ?p) 0 pkt"
      have t: "te_aead E = A" "ae_new A (sendKey (rs_sess rs))" "sendKey (rs_sess rs) = key" "rs_sessionIndex rs = si" "rs_fecSend rs = None"
        using assms(1) by (simp_all add: session_sends_def)
      obtain out s where seal: "sealPacket A TypeData si (pt_id ?p) ?h pkt (rs_sess rs) = (Inr out, s)"
        using sealPacket_ok [OF t(2)] by blast
      have eq: "rs_sessionIndex rs' = si" "rs_sess rs' = s" "rs_fecSend rs' = None" "set (map snd ws) \<subseteq> {out}"
          "rs_sendGSN rs' = rs_sendGSN rs + 1"
        using Some \<open>Option.bind _ _ = Some p\<close> seal t False assms(2)
        by (auto simp: session_send_def relay_sendSpeed_def Let_def split_beta fecStamp_def relay_record_def split: if_splits)
      have "numbered A (sendKey (rs_sess rs)) si DupFactor (rs_sendGSN rs) pkt (rs_sess rs) (map snd ws) s"
        by (rule numbered_one [OF t(2) _ _ seal eq(4)]) (simp_all add: no_push DupFactor_def)
      with eq t seal_keeps_key [OF t(2) seal] show ?thesis by (simp add: session_sends_def)
    qed
  qed
qed

text \<open>A relay that keeps session \<open>j\<close> for the tunnel address \<open>ip\<close>, and a packet for that address.\<close>

definition relay_sends :: "tunnel_env \<Rightarrow> aead_impl \<Rightarrow> bytes \<Rightarrow> u32 \<Rightarrow> string \<Rightarrow> nat \<Rightarrow> Relay \<Rightarrow> bool" where
  "relay_sends E A key si ip j r \<longleftrightarrow> r_byTunnelIP r ip = Some j \<and> j < length (r_sessions r) \<and> session_sends E A key si (r_sessions r ! j)"

definition addressed :: "string \<Rightarrow> bytes \<Rightarrow> bool" where
  "addressed ip pkt \<longleftrightarrow> (case destIPv4 pkt of None \<Rightarrow> False | Some dst \<Rightarrow> ip_String dst = ip)"

definition relay_send :: "tunnel_env \<Rightarrow> sender \<Rightarrow> Relay \<Rightarrow> instant \<times> bytes \<Rightarrow> sends \<times> Relay" where
  "relay_send E wr r x = serveTUN E wr (fst x) (snd x) r"

lemma relay_tun_numbered:
  assumes "relay_sends E A key si ip j r" and "addressed ip (snd x)"
  shows "relay_sends E A key si ip j (snd (relay_send E wr r x)) \<and>
    numbered A key si DupFactor (rs_sendGSN (r_sessions r ! j)) (snd x) (rs_sess (r_sessions r ! j))
      (map snd (fst (relay_send E wr r x))) (rs_sess (r_sessions (snd (relay_send E wr r x)) ! j)) \<and>
    (fst (relay_send E wr r x) \<noteq> [] \<longrightarrow>
       rs_sendGSN (r_sessions (snd (relay_send E wr r x)) ! j) = rs_sendGSN (r_sessions r ! j) + 1)"
proof -
  let ?rs = "r_sessions r ! j"
  obtain dst where d: "destIPv4 (snd x) = Some dst" "ip_String dst = ip" using assms(2) by (auto simp: addressed_def split: option.splits)
  obtain ws rs st where s: "session_send E wr (fst x) (snd x) ?rs (r_Stats r) = (ws, rs, st)" by (metis prod_cases3)
  have "relay_send E wr r x = (ws, (set_sess j rs r)\<lparr>r_Stats := st\<rparr>)"
    using d s assms(1) unfolding session_send_def by (simp add: relay_send_def serveTUN_def relay_sends_def Let_def split_beta)
  with session_numbered [OF _ s, of A key si] assms(1) show ?thesis by (simp add: relay_sends_def set_sess_def)
qed

definition relay_writes :: "tunnel_env \<Rightarrow> sender \<Rightarrow> (instant \<times> bytes) list \<Rightarrow> Relay \<Rightarrow> nat \<Rightarrow> bytes list" where
  "relay_writes E wr xs r = datagrams (relay_send E wr) snd xs r"

interpretation rsend: stream_sender "relay_send E wr" snd snd "\<lambda>r. rs_sess (r_sessions r ! j)" "\<lambda>r. rs_sendGSN (r_sessions r ! j)"
    "\<lambda>x. addressed ip (snd x)" "relay_sends E A key si ip j" A key si DupFactor
  for E wr A key si ip j
  by unfold_locales (use relay_tun_numbered in auto)

section \<open>The client as a receiver\<close>

text \<open>A client whose paths have the identifiers \<open>ids\<close>; a datagram arrives on the path it was sealed for.\<close>

definition client_hears :: "tunnel_env \<Rightarrow> aead_impl \<Rightarrow> bytes \<Rightarrow> u8 list \<Rightarrow> ClientTunnel \<Rightarrow> bool" where
  "client_hears E A key ids t \<longleftrightarrow> te_aead E = A \<and> aead_ok A \<and> length key = KeyLen \<and> recvKey (ct_sess t) = key \<and> map pt_id (ct_paths t) = ids"

definition on_path :: "u8 list \<Rightarrow> instant \<times> nat \<Rightarrow> bytes \<Rightarrow> bool" where
  "on_path ids e pkt \<longleftrightarrow> snd e < length ids \<and> ids ! snd e = dgram_path pkt"

definition client_recv :: "tunnel_env \<Rightarrow> writer \<Rightarrow> ClientTunnel \<Rightarrow> instant \<times> nat \<Rightarrow> bytes \<Rightarrow> ClientTunnel" where
  "client_recv E wr t e pkt = snd (client_pathRead E wr (fst e) (snd e) pkt t)"

lemma client_takes:
  assumes t: "client_hears E A key ids t" and e: "on_path ids e pkt" and pkt: "carries A key si gsn payload i c pkt"
    and R: "sess_rel (ct_sess t) R"
  shows "client_hears E A key ids (client_recv E wr t e pkt) \<and>
    sess_rel (ct_sess (client_recv E wr t e pkt)) (if fresh c (R i) then R(i := R i @ [c]) else R) \<and>
    ct_reorderBuf (client_recv E wr t e pkt) =
      (if fresh c (R i) then Push (stream_packet gsn payload) (ct_reorderBuf t) else ct_reorderBuf t)"
proof -
  have k: "te_aead E = A" "aead_ok A" "length key = KeyLen" "recvKey (ct_sess t) = key" "map pt_id (ct_paths t) = ids"
    using t by (simp_all add: client_hears_def)
  have id: "snd e < length (ct_paths t)" "pt_id (ct_paths t ! snd e) = i"
    using e carries_path [OF pkt] k(5) by (auto simp: on_path_def)
  obtain oh h s' where o: "UnmarshalOuter pkt = Inr (oh, OuterPrefixLen)" "oh_Type oh = TypeData"
    "openPacket A oh i (drop OuterPrefixLen pkt) (ct_sess t) = (if fresh c (R i) then Inr (h, payload) else Inl (BCrypto ErrReplay), s')"
    "ih_GSN h = gsn" "\<not> HasFlag (ih_Flags h) FlagPUSH" "sess_rel s' (if fresh c (R i) then R(i := R i @ [c]) else R)" "recvKey s' = key"
    by (rule open_carried [OF k(2,3) pkt k(4) R])
  have data: "client_recv E wr t e pkt = client_onData E (fst e) (snd e) oh (drop OuterPrefixLen pkt) t"
    using o(1,2) by (simp add: client_recv_def client_pathRead_def)
  have ids: "map pt_id ((ct_paths t)[snd e := path_rx payload (snd (RecordRecv (fst e) (ct_paths t ! snd e)))]) = ids"
    using k(5) by (simp add: map_update path_rx_def RecordRecv_def list_update_id flip: nth_map [OF id(1), of pt_id])
  show ?thesis
    using o k id ids
    by (auto simp: data client_onData_def client_hears_def Let_def set_path_def reorderPacket_def stream_packet_def)
qed

definition client_receives ::
  "tunnel_env \<Rightarrow> writer \<Rightarrow> (nat \<Rightarrow> bytes list) \<Rightarrow> ((instant \<times> nat) \<times> nat \<times> nat) list \<Rightarrow> ClientTunnel \<Rightarrow> ClientTunnel" where
  "client_receives E wr out ds t = after_receiving (client_recv E wr) out ds t"

interpretation down: stream "relay_send E wr" snd snd "\<lambda>r. rs_sess (r_sessions r ! j)" "\<lambda>r. rs_sendGSN (r_sessions r ! j)"
    "\<lambda>x. addressed ip (snd x)" "relay_sends E A key si ip j" A key si DupFactor
    "client_recv E' wr'" "on_path ids" ct_sess ct_reorderBuf "client_hears E' A key ids"
  for E wr A key si ip j E' wr' ids
  by unfold_locales (use client_takes in blast)+

section \<open>Properties\<close>


text \<open>A session with one usable path, whose every packet goes out as one datagram on that path.\<close>

lemma pathSlice_single:
  assumes "rs_paths rs = [i \<mapsto> p]" and "te_pathOrder E = xs @ i # ys" and "i \<notin> set xs" and "i \<notin> set ys"
  shows "pathSlice E rs = [(i, p)]"
proof -
  have "List.map_filter (\<lambda>q. map_option (Pair q) ([i \<mapsto> p] q)) zs = []" if "i \<notin> set zs" for zs
    using that by (induction zs) (auto simp: List.map_filter_def)
  with assms show ?thesis by (simp add: pathSlice_def List.map_filter_def)
qed

definition session_ready :: "u8 \<Rightarrow> relaySession \<Rightarrow> bool" where
  "session_ready i rs \<longleftrightarrow> rs_mode rs = ModeSpeed \<and> rs_fecSend rs = None \<and> length (sendKey (rs_sess rs)) = KeyLen \<and>
     (\<exists>rr. rs_sched rs = SRoundRobin rr) \<and>
     (\<exists>p addr. rs_paths rs = [i \<mapsto> p] \<and> pt_id p = i \<and> pt_remoteAddr p = Some addr \<and> path_sendable p)"

lemma session_ready_send:
  assumes "session_ready i rs" and "aead_ok (te_aead E)" and "te_pathOrder E = xs @ i # ys" "i \<notin> set xs" "i \<notin> set ys"
    and "session_send E (\<lambda>_ _. True) now pkt rs st = (ws, rs', st')"
  shows "session_ready i rs'" and "\<exists>w. map snd ws = [w] \<and> dgram_path w = i"
proof -
  obtain p addr rr where p: "rs_paths rs = [i \<mapsto> p]" "pt_id p = i" "pt_remoteAddr p = Some addr" "path_sendable p" "rs_sched rs = SRoundRobin rr"
    using assms(1) unfolding session_ready_def by blast
  have new: "ae_new (te_aead E) (sendKey (rs_sess rs))" using assms(1,2) by (simp add: session_ready_def aead_ok_def)
  have "sendable (sched_view now p)" using p(4) by (simp add: path_sendable_def sendable_def sched_view_def)
  then have n: "RoundRobin_Next rr [sched_view now p] sz = (Some (sched_view now p), rr\<lparr>rr_cursor := 0\<rparr>)" for sz
    by (simp add: RoundRobin_Next_eq)
  note sent = assms(1,6) p new n pathSlice_single [OF p(1) assms(3-5)]
  show "session_ready i rs'" "\<exists>w. map snd ws = [w] \<and> dgram_path w = i"
    using sent
    by (auto simp: session_send_def session_ready_def relay_sendSpeed_def relay_schedPaths_def sched_view_def Let_def
        sealPacket_eq fecStamp_def relay_record_def set_rpath_def NextSendPSN_def path_tx_def path_sendable_def Path_CWND_def
        ModeSpeed_def ModeRedundant_def dgram_path_def outer_bytes_def nth_append len_simps)
qed

lemma ex_order: "\<exists>ys. te_pathOrder ex_env = [] @ PathZero # ys \<and> PathZero \<notin> set ys"
proof -
  have "[0..<256] = 0 # [1..<256::nat]" by (simp add: upt_conv_Cons)
  moreover have "of_nat n \<noteq> (0 :: u8)" if "1 \<le> n" "n < 256" for n
    using that by (simp add: word_of_nat_eq_0_iff nat_dvd_not_less)
  ultimately show ?thesis
    by (intro exI [of _ "map of_nat [1..<256]"]) (auto simp: ex_env_def PathZero_def)
qed

definition ex_ip :: string where "ex_ip = ip_String [10, 77, 0, 2]"

definition relay_ready :: "Relay \<Rightarrow> bool" where
  "relay_ready r \<longleftrightarrow> relay_sends ex_env sum_aead (replicate 32 2) 7 ex_ip 0 r \<and> session_ready PathZero (r_sessions r ! 0)"

lemma relay_ready_send:
  assumes "relay_ready r" and "addressed ex_ip (snd x)"
  shows "relay_ready (snd (relay_send ex_env (\<lambda>_ _. True) r x))"
    and "\<exists>w. map snd (fst (relay_send ex_env (\<lambda>_ _. True) r x)) = [w] \<and> dgram_path w = PathZero"
proof -
  let ?rs = "r_sessions r ! 0" and ?wr = "\<lambda>_ _. True"
  obtain ys where ys: "te_pathOrder ex_env = [] @ PathZero # ys" "PathZero \<notin> set ys" using ex_order by blast
  obtain ws rs st where s: "session_send ex_env ?wr (fst x) (snd x) ?rs (r_Stats r) = (ws, rs, st)" by (metis prod_cases3)
  have k: "relay_sends ex_env sum_aead (replicate 32 2) 7 ex_ip 0 r" "session_ready PathZero ?rs"
    using assms(1) by (simp_all add: relay_ready_def)
  have eq: "relay_send ex_env ?wr r x = (ws, (set_sess 0 rs r)\<lparr>r_Stats := st\<rparr>)"
    using assms(2) k(1) s unfolding session_send_def
    by (auto simp: addressed_def relay_send_def serveTUN_def relay_sends_def Let_def split_beta split: option.splits)
  have A: "aead_ok (te_aead ex_env)" using sum_aead_ok by (simp add: ex_env_def)
  note ready = session_ready_send [OF k(2) A ys(1) _ ys(2) s]
  show "relay_ready (snd (relay_send ex_env ?wr r x))"
    using relay_tun_numbered [OF k(1) assms(2), of ?wr] ready(1) k(1)
    by (auto simp: relay_ready_def eq set_sess_def relay_sends_def nth_list_update)
  show "\<exists>w. map snd (fst (relay_send ex_env ?wr r x)) = [w] \<and> dgram_path w = PathZero"
    using ready(2) by (simp add: eq)
qed

lemma relay_ready_after:
  "relay_ready r \<Longrightarrow> \<forall>x \<in> set xs. addressed ex_ip (snd x) \<Longrightarrow> relay_ready (after_sending (relay_send ex_env (\<lambda>_ _. True)) xs r)"
  by (induction xs arbitrary: r) (auto simp: after_sending_def intro: relay_ready_send(1))

lemma ex_relay_ready: "relay_ready ex_relay1"
proof -
  have s: "rs_mode ex_session = ModeSpeed" "rs_fecSend ex_session = None" "\<exists>rr. rs_sched ex_session = SRoundRobin rr"
    by (simp_all add: ex_session_def fresh_session_def newRelaySession_def set_rpath_def ex_cfg_def sched_New_def Let_def)
  have p: "path_sendable (SetActive (SetRemoteAddr ex_src (NewPath PathZero)))"
    by (simp add: path_sendable_def SetActive_def SetRemoteAddr_def NewPath_def Path_CWND_def NewController_def CWND_def initialCWND_def)
  have ip: "r_byTunnelIP ex_relay1 ex_ip = Some 0"
    by (simp add: ex_relay1_eq install_def ex_relay_fields ex_session_def ex_ip_def Let_def)
  have E: "te_aead ex_env = sum_aead" by (simp add: ex_env_def)
  show ?thesis
    using s p ip E sum_aead_ok
    by (auto simp: relay_ready_def relay_sends_def session_sends_def session_ready_def ex_relay1_fields ex_session_def ex_keys_def
        KeyLen_def aead_ok_def SetActive_def SetRemoteAddr_def NewPath_def)
qed

definition ex_ip_packet :: "byte \<Rightarrow> bytes" where
  "ex_ip_packet b = 0x45 # replicate 15 0 @ [10, 77, 0, 2, b]"

lemma ex_addressed: "addressed ex_ip (ex_ip_packet b)" "length (ex_ip_packet b) = 21"
  by (simp_all add: addressed_def destIPv4_def ex_ip_packet_def sub_slice_def ex_ip_def)

lemma ex_paired_back: "paired_back ex_tunnel ex_relay1 0"
proof -
  have "ct_tunnelIP ex_tunnel = ex_ip" by (simp add: ex_tunnel_def newTunnel_def ex_resp_def respPayload_def ex_ip_def)
  then show ?thesis
    using sess_rel_new ex_relay_ready
    by (auto simp: paired_back_def relay_ready_def relay_sends_def ex_tunnel_def newTunnel_def ex_relay1_fields ex_session_def ex_keys_def
        intro!: exI [of _ "\<lambda>_. []"])
qed


end
