(* ===== verification/Client_Props.thy ===== *)
theory Client_Props
  imports EndToEnd
begin

text \<open>
  Properties of the client on its own: what it does with datagrams it cannot authenticate, and the pace of
  its probes. A last section is on the relay's choice of session indices.
\<close>

section \<open>Datagrams that do not authenticate\<close>

definition unchanged_tunnel :: "ClientTunnel \<Rightarrow> ClientTunnel \<Rightarrow> bool" where
  "unchanged_tunnel t t' \<longleftrightarrow>
     t' = t\<lparr>ct_sess := ct_sess t', ct_Stats := (ct_Stats t)\<lparr>st_RxErrors := st_RxErrors (ct_Stats t')\<rparr>\<rparr> \<and>
     sendKey (ct_sess t') = sendKey (ct_sess t) \<and> sendCtrs (ct_sess t') = sendCtrs (ct_sess t) \<and>
     recvKey (ct_sess t') = recvKey (ct_sess t) \<and> win_of (ct_sess t') = win_of (ct_sess t)"

lemma unchanged_tunnel_refl: "unchanged_tunnel t t"
  by (simp add: unchanged_tunnel_def)

abbreviation client_opens :: "tunnel_env \<Rightarrow> nat \<Rightarrow> OuterHeader \<Rightarrow> bytes \<Rightarrow> ClientTunnel \<Rightarrow> (crypto_error + bytes) \<times> session" where
  "client_opens E k oh c t \<equiv> Open (te_aead E) (pt_id (ct_paths t ! k)) c
     (adBuf (oh_Type oh) (oh_Version oh) (oh_SessionIndex oh)) (oh_Nonce oh) (ct_sess t)"

lemma client_refused_inert:
  assumes "isl (fst (client_opens E k oh c t))"
  shows "unchanged_tunnel t (client_onData E now k oh c t)" and "unchanged_tunnel t (client_onFEC E now k oh c t)"
    and "unchanged_tunnel t (client_onProbeAck E now k oh c t)"
    and "fst (client_onProbe E wr now k oh c t) = [] \<and> unchanged_tunnel t (snd (client_onProbe E wr now k oh c t))"
proof -
  let ?s = "snd (client_opens E k oh c t)"
  have s: "win_of ?s = win_of (ct_sess t)" "recvKey ?s = recvKey (ct_sess t)" "sendKey ?s = sendKey (ct_sess t)"
      "sendCtrs ?s = sendCtrs (ct_sess t)"
    using Open_fail_win [OF assms] Open_send_side by simp_all
  obtain e e' where o: "openPacket (te_aead E) oh (pt_id (ct_paths t ! k)) c (ct_sess t) = (Inl e, ?s)"
      "openControl (te_aead E) oh (pt_id (ct_paths t ! k)) c (ct_sess t) = (Inl e', ?s)"
    using openPacket_refused [OF assms] openControl_refused [OF assms] by metis
  show "unchanged_tunnel t (client_onData E now k oh c t)" and "unchanged_tunnel t (client_onFEC E now k oh c t)"
    and "unchanged_tunnel t (client_onProbeAck E now k oh c t)"
    and "fst (client_onProbe E wr now k oh c t) = [] \<and> unchanged_tunnel t (snd (client_onProbe E wr now k oh c t))"
    using o s by (simp_all add: client_onData_def client_onFEC_def client_onProbeAck_def client_onProbe_def unchanged_tunnel_def count_err_def)
qed

section \<open>Properties\<close>

text \<open>C15. A datagram on one of the client's sockets that its session cannot authenticate is inert, whatever its
  type: the client answers nothing, delivers nothing and keeps everything but its error counter.\<close>

theorem client_unauthenticated_inert:
  assumes "UnmarshalOuter buf = Inr (oh, n)" and "isl (fst (client_opens E k oh (drop n buf) t))"
  shows "fst (client_pathRead E wr now k buf t) = [] \<and> unchanged_tunnel t (snd (client_pathRead E wr now k buf t))"
  using client_refused_inert [OF assms(2)] assms(1) unchanged_tunnel_refl by (simp add: client_pathRead_def)

theorem client_unauthenticated_inert_witness:
  "let buf = outer_bytes TypeData 7 (buildNonce 0 0) @ [1, 2, 3]
   in unchanged_tunnel ex_tunnel (snd (client_pathRead ex_env (\<lambda>_ _. True) 5 0 buf ex_tunnel))"
proof -
  let ?buf = "outer_bytes TypeData 7 (buildNonce 0 0) @ [1, 2, 3]"
  let ?oh = "\<lparr> oh_Type = TypeData, oh_Version = Version, oh_SessionIndex = 7, oh_Nonce = buildNonce 0 0 \<rparr>"
  have u: "UnmarshalOuter ?buf = Inr (?oh, 20)" by simp
  have "isl (fst (client_opens ex_env 0 ?oh (drop 20 ?buf) ex_tunnel))"
    by (auto simp: Open_def recvWindow_eq Let_def ex_tunnel_def newTunnel_def ex_env_def sum_aead_def sum_tag_def
        SetActive_def NewPath_def dest: arg_cong [of _ _ length])
  from client_unauthenticated_inert [OF u this] show ?thesis by (simp add: Let_def)
qed

text \<open>The probe loop never slows down: it notes the time of its own probe as the last send just before it
  measures how long the path has been idle, so unless that takes longer than the idle limit itself, every
  tick of a living path leaves the interval at its short setting, however long the path carries no traffic.\<close>

theorem probe_never_backs_off:
  assumes "pt_state (ct_paths t ! k) \<noteq> StateDead" and "time_Sub idleAt sentAt \<le> ProbeIdleAfter"
  shows "\<exists>ws pl' t'. client_probeTick E wr now sentAt idleAt k pl t = (ws, Some pl', t') \<and> pl_interval pl' = ProbeInterval"
  using assms by (simp add: client_probeTick_def Let_def split_beta not_less [symmetric])

theorem probe_never_backs_off_witness:
  "\<exists>ws pl' t'. client_probeTick ex_env (\<lambda>_ _. True) (100 * second) (100 * second) (100 * second + 50) 0
     (probe_start\<lparr>pl_interval := ProbeIdleInterval\<rparr>) ex_tunnel = (ws, Some pl', t') \<and> pl_interval pl' = ProbeInterval"
  by (rule probe_never_backs_off)
    (simp_all add: ex_tunnel_def newTunnel_def SetActive_def time_Sub_def ProbeIdleAfter_def min_i64_def max_i64_def)



end
