(* ===== verification/PairBond.thy ===== *)
theory PairBond
  imports Prelude "HOL-Library.AList"
begin

text \<open>
  Pairing with a LAN peer, \<^verbatim>\<open>core/pairbond/pairbond.go\<close>: the short-lived pairing codes, the message
  header, and the registry of paired peers. The clock and the random bytes are arguments; peers are
  shared through pointers, so the registry maps identifiers to addresses of a store. The code store is
  shown to refine a specification in which a code is either outstanding until its expiry or unknown.
\<close>

section \<open>Pairing codes\<close>

definition CodeLen :: nat where "CodeLen = 6"
definition CodeTTL :: duration where "CodeTTL = 5 * 60 * second"
definition MaxPeers :: nat where "MaxPeers = 4"
definition codeAlphabet :: string where "codeAlphabet = ''0123456789ABCDEFGHJKMNPQRSTVWXYZ''"

datatype pair_error = ErrRand | ErrBadCode | ErrCodeUsed | ErrTooManyPeers | ErrNotPaired
  | ErrAlreadyPaired | ErrShortHeader

text \<open>\<open>rnd\<close> is the outcome of \<^verbatim>\<open>rand.Read\<close> into a buffer of \<open>CodeLen\<close> bytes.\<close>

definition GenerateCode :: "bytes option \<Rightarrow> pair_error + string" where
  "GenerateCode rnd =
     (case rnd of None \<Rightarrow> Inl ErrRand
      | Some buf \<Rightarrow> Inr (map (\<lambda>i. codeAlphabet ! (unat (buf ! i) mod length codeAlphabet)) [0..<CodeLen]))"

record codeEntry =
  ce_expires :: instant
  ce_used :: bool

type_synonym code_store = "string \<rightharpoonup> codeEntry"

definition NewCodeStore :: code_store where "NewCodeStore = Map.empty"

definition gcLocked :: "instant \<Rightarrow> code_store \<Rightarrow> code_store" where
  "gcLocked now s =
     (\<lambda>c. case s c of None \<Rightarrow> None
          | Some e \<Rightarrow> if now > ce_expires e \<or> ce_used e then None else Some e)"

definition Issue :: "bytes option \<Rightarrow> instant \<Rightarrow> instant \<Rightarrow> code_store \<Rightarrow> (pair_error + string) \<times> code_store" where
  "Issue rnd t1 t2 s =
     (case GenerateCode rnd of Inl e \<Rightarrow> (Inl e, s)
      | Inr code \<Rightarrow>
          let s = gcLocked t1 s
          in (Inr code, s(code \<mapsto> \<lparr> ce_expires = t2 + CodeTTL, ce_used = False \<rparr>)))"

definition Consume :: "string \<Rightarrow> instant \<Rightarrow> instant \<Rightarrow> code_store \<Rightarrow> (pair_error + unit) \<times> code_store" where
  "Consume code t1 t2 s =
     (let s = gcLocked t1 s
      in case s code of None \<Rightarrow> (Inl ErrBadCode, s)
         | Some ent \<Rightarrow>
             if t2 > ce_expires ent then (Inl ErrBadCode, s)
             else if ce_used ent then (Inl ErrCodeUsed, s)
             else (Inr (), s(code \<mapsto> ent\<lparr>ce_used := True\<rparr>)))"

section \<open>Messages\<close>

definition MsgPairRequest :: byte where "MsgPairRequest = 0x01"
definition MsgPairAccept :: byte where "MsgPairAccept = 0x02"
definition MsgPairReject :: byte where "MsgPairReject = 0x03"
definition MsgRevoke :: byte where "MsgRevoke = 0x04"
definition MsgKeepalive :: byte where "MsgKeepalive = 0x05"
definition MsgData :: byte where "MsgData = 0x10"

definition MarshalHeader :: "byte \<Rightarrow> u16 \<Rightarrow> bytes" where
  "MarshalHeader msgType payloadLen =
     (let buf = replicate 4 0;
          buf = buf[0 := msgType];
          buf = buf[1 := 0]
      in put_at 2 (put_be 2 payloadLen) buf)"

definition UnmarshalHeader :: "bytes \<Rightarrow> pair_error + (byte \<times> u16)" where
  "UnmarshalHeader b =
     (if length b < 4 then Inl ErrShortHeader else Inr (b ! 0, get_be (sub_slice 2 4 b)))"

section \<open>The peer registry\<close>

record Peer =
  pe_ID :: string
  pe_RemoteAddr :: string
  pe_AcceptedAt :: instant
  pe_Revoked :: bool

text \<open>\<open>rg_store\<close> is the memory holding the peers, \<open>rg_peers\<close> the map from identifiers to addresses.\<close>

record Registry =
  rg_store :: "nat \<Rightarrow> Peer"
  rg_peers :: "(string \<times> nat) list"

definition NewRegistry :: "(nat \<Rightarrow> Peer) \<Rightarrow> Registry" where
  "NewRegistry mem = \<lparr> rg_store = mem, rg_peers = [] \<rparr>"

definition Registry_Add :: "nat \<Rightarrow> Registry \<Rightarrow> (pair_error + unit) \<times> Registry" where
  "Registry_Add p r =
     (if length (rg_peers r) \<ge> MaxPeers then (Inl ErrTooManyPeers, r)
      else if map_of (rg_peers r) (pe_ID (rg_store r p)) \<noteq> None then (Inl ErrAlreadyPaired, r)
      else (Inr (), r\<lparr>rg_peers := AList.update (pe_ID (rg_store r p)) p (rg_peers r)\<rparr>))"

definition Registry_Revoke :: "string \<Rightarrow> Registry \<Rightarrow> (pair_error + unit) \<times> Registry" where
  "Registry_Revoke pid r =
     (case map_of (rg_peers r) pid of None \<Rightarrow> (Inl ErrNotPaired, r)
      | Some p \<Rightarrow>
          (Inr (), r\<lparr>rg_store := (rg_store r)(p := (rg_store r p)\<lparr>pe_Revoked := True\<rparr>),
                    rg_peers := AList.delete pid (rg_peers r)\<rparr>))"

definition Registry_Get :: "string \<Rightarrow> Registry \<Rightarrow> nat option" where
  "Registry_Get pid r = map_of (rg_peers r) pid"

definition Registry_List :: "Registry \<Rightarrow> nat list" where
  "Registry_List r = map snd (rg_peers r)"

definition Registry_Count :: "Registry \<Rightarrow> nat" where
  "Registry_Count r = length (rg_peers r)"

section \<open>Runs of the code store\<close>

datatype code_event = EvIssue "bytes option" instant instant | EvConsume string instant instant

text \<open>The answer of an event: the issued code, or the verdict on a presented one.\<close>

datatype code_answer = Issued "pair_error + string" | Verdict "pair_error + unit"

fun code_step :: "code_store \<Rightarrow> code_event \<Rightarrow> code_answer \<times> code_store" where
  "code_step s (EvIssue rnd t1 t2) = (let (r, s) = Issue rnd t1 t2 s in (Issued r, s))"
| "code_step s (EvConsume code t1 t2) = (let (r, s) = Consume code t1 t2 s in (Verdict r, s))"

fun code_run :: "code_store \<Rightarrow> code_event list \<Rightarrow> code_answer list" where
  "code_run s [] = []"
| "code_run s (e # es) = (let (a, s) = code_step s e in a # code_run s es)"

text \<open>The specification: each outstanding code with its expiry; presenting it removes it.\<close>

fun spec_step :: "(string \<rightharpoonup> instant) \<Rightarrow> code_event \<Rightarrow> code_answer \<times> (string \<rightharpoonup> instant)" where
  "spec_step m (EvIssue rnd t1 t2) =
     (case GenerateCode rnd of Inl e \<Rightarrow> (Issued (Inl e), m)
      | Inr code \<Rightarrow> (Issued (Inr code), m(code \<mapsto> t2 + CodeTTL)))"
| "spec_step m (EvConsume code t1 t2) =
     (case m code of None \<Rightarrow> (Verdict (Inl ErrBadCode), m)
      | Some e \<Rightarrow> if t2 > e then (Verdict (Inl ErrBadCode), m)
                  else (Verdict (Inr ()), m(code := None)))"

fun code_spec_run :: "(string \<rightharpoonup> instant) \<Rightarrow> code_event list \<Rightarrow> code_answer list" where
  "code_spec_run m [] = []"
| "code_spec_run m (e # es) = (let (a, m) = spec_step m e in a # code_spec_run m es)"

text \<open>A clock that never runs backwards across the events.\<close>

fun times :: "code_event \<Rightarrow> instant \<times> instant" where
  "times (EvIssue _ t1 t2) = (t1, t2)"
| "times (EvConsume _ t1 t2) = (t1, t2)"

fun clock_ok :: "instant \<Rightarrow> code_event list \<Rightarrow> bool" where
  "clock_ok t [] = True"
| "clock_ok t (e # es) = (case times e of (t1, t2) \<Rightarrow> t \<le> t1 \<and> t1 \<le> t2 \<and> clock_ok t2 es)"

definition code_rel :: "instant \<Rightarrow> code_store \<Rightarrow> (string \<rightharpoonup> instant) \<Rightarrow> bool" where
  "code_rel t s m \<longleftrightarrow>
     (\<forall>c x. t \<le> x \<longrightarrow> (m c = Some x \<longleftrightarrow> s c = Some \<lparr> ce_expires = x, ce_used = False \<rparr>))"

lemma gcLocked_rel: "code_rel t s m \<Longrightarrow> t \<le> t' \<Longrightarrow> code_rel t' (gcLocked t' s) m"
  by (auto simp: code_rel_def gcLocked_def split: option.splits)

lemma code_rel_later: "code_rel t s m \<Longrightarrow> t \<le> t' \<Longrightarrow> code_rel t' s m"
  by (auto simp: code_rel_def)

lemma gcLocked_live: "gcLocked t s c = Some e \<Longrightarrow> \<not> ce_used e \<and> t \<le> ce_expires e"
  by (auto simp: gcLocked_def split: option.splits if_splits)

lemma code_rel_dead:
  "code_rel t s m \<Longrightarrow> s c = None \<Longrightarrow> m c = Some x \<Longrightarrow> x < t"
  by (metis code_rel_def linorder_not_less option.distinct(1))

lemma Consume_rel:
  assumes "code_rel t s m" "t \<le> t1" "t1 \<le> t2"
  shows "Verdict (fst (Consume c t1 t2 s)) = fst (spec_step m (EvConsume c t1 t2))"
    and "code_rel t2 (snd (Consume c t1 t2 s)) (snd (spec_step m (EvConsume c t1 t2)))"
proof -
  note rel = gcLocked_rel [OF assms(1,2)]
  show "Verdict (fst (Consume c t1 t2 s)) = fst (spec_step m (EvConsume c t1 t2))"
  proof (cases "gcLocked t1 s c")
    case None
    then show ?thesis
      using code_rel_dead [OF rel None] assms(3) by (auto simp: Consume_def split: option.splits)
  next
    case (Some e)
    then have "e = \<lparr> ce_expires = ce_expires e, ce_used = False \<rparr>" and "t1 \<le> ce_expires e"
      using gcLocked_live [OF Some] by (simp_all)
    then have "m c = Some (ce_expires e)" using rel Some unfolding code_rel_def by metis
    with Some gcLocked_live [OF Some] show ?thesis by (simp add: Consume_def)
  qed
  show "code_rel t2 (snd (Consume c t1 t2 s)) (snd (spec_step m (EvConsume c t1 t2)))"
  proof (cases "gcLocked t1 s c")
    case None
    then show ?thesis
      using code_rel_dead [OF rel None] assms(3) code_rel_later [OF rel assms(3)]
      by (auto simp: Consume_def split: option.splits)
  next
    case (Some e)
    then have "e = \<lparr> ce_expires = ce_expires e, ce_used = False \<rparr>" and "t1 \<le> ce_expires e"
      using gcLocked_live [OF Some] by (simp_all)
    then have "m c = Some (ce_expires e)" using rel Some unfolding code_rel_def by metis
    with Some gcLocked_live [OF Some] code_rel_later [OF rel assms(3)] show ?thesis
      by (auto simp: Consume_def code_rel_def dest!: arg_cong [where f = ce_used])
  qed
qed

lemma Issue_rel:
  assumes "code_rel t s m" "t \<le> t1" "t1 \<le> t2"
  shows "Issued (fst (Issue rnd t1 t2 s)) = fst (spec_step m (EvIssue rnd t1 t2))"
    and "code_rel t2 (snd (Issue rnd t1 t2 s)) (snd (spec_step m (EvIssue rnd t1 t2)))"
  using code_rel_later [OF gcLocked_rel [OF assms(1,2)] assms(3)] code_rel_later [OF assms(1), of t2] assms(2,3)
  by (auto simp: Issue_def Let_def code_rel_def split: sum.splits)

lemma code_run_refines:
  "code_rel t s m \<Longrightarrow> clock_ok t es \<Longrightarrow> code_run s es = code_spec_run m es"
proof (induction es arbitrary: t s m)
  case (Cons e es)
  show ?case
  proof (cases e)
    case (EvIssue rnd t1 t2)
    with Cons.prems have ok: "t \<le> t1" "t1 \<le> t2" "clock_ok t2 es" by auto
    note rel = Issue_rel [OF Cons.prems(1) ok(1,2), of rnd]
    from Cons.IH [OF rel(2) ok(3)] rel(1) show ?thesis
      by (simp only: EvIssue code_run.simps code_spec_run.simps code_step.simps split_beta Let_def fst_conv snd_conv)
  next
    case (EvConsume c t1 t2)
    with Cons.prems have ok: "t \<le> t1" "t1 \<le> t2" "clock_ok t2 es" by auto
    note rel = Consume_rel [OF Cons.prems(1) ok(1,2), of c]
    from Cons.IH [OF rel(2) ok(3)] rel(1) show ?thesis
      by (simp only: EvConsume code_run.simps code_spec_run.simps code_step.simps split_beta Let_def fst_conv snd_conv)
  qed
qed simp

lemma Consume_not_used: "fst (Consume c t1 t2 s) \<noteq> Inl ErrCodeUsed"
  using gcLocked_live [of t1 s c] by (auto simp: Consume_def Let_def split: option.splits if_splits)

lemma header_roundtrip: "UnmarshalHeader (MarshalHeader t n @ rest) = Inr (t, n)"
proof -
  have "MarshalHeader t n = [t, 0] @ put_be 2 n"
    by (simp add: MarshalHeader_def put_at_def numeral_eq_Suc)
  then show ?thesis by (simp add: UnmarshalHeader_def sub_slice_def)
qed

section \<open>Runs of the registry\<close>

datatype reg_op = RAdd nat | RRevoke string

fun reg_step :: "Registry \<Rightarrow> reg_op \<Rightarrow> Registry" where
  "reg_step r (RAdd p) = snd (Registry_Add p r)"
| "reg_step r (RRevoke pid) = snd (Registry_Revoke pid r)"

text \<open>At most \<open>MaxPeers\<close> peers, one entry per identifier, each under its own identifier.\<close>

definition reg_inv :: "Registry \<Rightarrow> bool" where
  "reg_inv r \<longleftrightarrow> Registry_Count r \<le> MaxPeers \<and> distinct (map fst (rg_peers r)) \<and>
     (\<forall>(i, p) \<in> set (rg_peers r). pe_ID (rg_store r p) = i)"

lemma length_alist_delete: "length (AList.delete k xs) \<le> length xs"
  by (simp add: AList.delete_eq)

lemma update_new: "k \<notin> set (map fst xs) \<Longrightarrow> AList.update k v xs = xs @ [(k, v)]"
  by (induction xs) auto

lemma filter_key:
  "(k, v) \<in> set xs \<Longrightarrow> distinct (map fst xs) \<Longrightarrow> filter (\<lambda>(i, _). i = k) xs = [(k, v)]"
  by (induction xs) (force simp: filter_empty_conv split: if_splits)+

lemma reg_inv_Add: "reg_inv r \<Longrightarrow> reg_inv (snd (Registry_Add p r))"
  by (auto simp: reg_inv_def Registry_Add_def Registry_Count_def update_new map_of_eq_None_iff image_iff)

lemma reg_inv_Revoke: "reg_inv r \<Longrightarrow> reg_inv (snd (Registry_Revoke pid r))"
  using le_trans [OF length_alist_delete]
  by (auto simp: reg_inv_def Registry_Revoke_def Registry_Count_def AList.distinct_delete [unfolded AList.delete_eq]
           AList.delete_eq split: option.splits)

interpretation reg: step_system reg_step reg_inv "\<lambda>_. True"
proof
  fix r e assume "reg_inv r"
  then show "reg_inv (reg_step r e)" by (cases e) (simp_all add: reg_inv_Add reg_inv_Revoke)
qed

lemma reg_inv_new: "reg_inv (NewRegistry mem)"
  by (simp add: reg_inv_def NewRegistry_def Registry_Count_def)

section \<open>Properties\<close>

text \<open>C23. Pairing codes are single use and short lived: on a clock that does not run backwards, the store
  answers every sequence of issues and presentations exactly as a specification in which a code is accepted
  once, and only up to its expiry five minutes after it was issued.\<close>

theorem pair_codes_refine:
  assumes "clock_ok t es"
  shows "code_run NewCodeStore es = code_spec_run Map.empty es"
proof -
  have "code_rel t NewCodeStore Map.empty" by (simp add: code_rel_def NewCodeStore_def)
  from code_run_refines [OF this assms] show ?thesis .
qed

theorem pair_codes_refine_witness:
  "code_run NewCodeStore [EvIssue (Some [1, 2, 3, 4, 5, 42]) 10 11, EvConsume ''12345A'' 20 21, EvConsume ''12345A'' 30 31] =
     [Issued (Inr ''12345A''), Verdict (Inr ()), Verdict (Inl ErrBadCode)]"
proof -
  have "clock_ok 0 [EvIssue (Some [1, 2, 3, 4, 5, 42]) 10 11, EvConsume ''12345A'' 20 21, EvConsume ''12345A'' 30 31]"
    by simp
  from pair_codes_refine [OF this] show ?thesis by (rule trans) code_simp
qed

text \<open>\<^verbatim>\<open>ErrCodeUsed\<close> is never returned: from any state of the store, no sequence of events yields it, since
  the collection at the start of \<^verbatim>\<open>Consume\<close> removes used codes before the lookup.\<close>

theorem code_used_unreachable: "Verdict (Inl ErrCodeUsed) \<notin> set (code_run s es)"
proof (induction es arbitrary: s)
  case (Cons e es)
  show ?case
  proof (cases e)
    case (EvIssue rnd t1 t2)
    with Cons show ?thesis by (simp add: split_beta Let_def)
  next
    case (EvConsume c t1 t2)
    with Cons Consume_not_used [of c t1 t2 s] show ?thesis by (auto simp: split_beta Let_def)
  qed
qed simp

text \<open>The registry never holds more than four peers, never two under one identifier, and files each
  under its own identifier, whatever is added and revoked.\<close>

theorem registry_invariant: "reg_inv (foldl reg_step (NewRegistry mem) ops)"
  by (rule reg.inv_run [OF reg_inv_new]) (simp add: list_all_iff)

text \<open>Revocation is immediate: revoking a paired peer removes it from the registry, marks the shared
  peer object as revoked for everyone who holds a pointer to it, frees one slot, and leaves the other peers as
  they were.\<close>

theorem registry_revoke:
  assumes "reg_inv r" and "Registry_Get pid r = Some p" and "Registry_Revoke pid r = (res, r')"
  shows "res = Inr () \<and> Registry_Get pid r' = None \<and> pe_Revoked (rg_store r' p) \<and>
    Registry_Count r' + 1 = Registry_Count r \<and>
    (\<forall>q. q \<noteq> pid \<longrightarrow> Registry_Get q r' = Registry_Get q r) \<and>
    (\<forall>a. a \<noteq> p \<longrightarrow> rg_store r' a = rg_store r a)"
proof -
  have d: "distinct (map fst (rg_peers r))" and m: "map_of (rg_peers r) pid = Some p"
    using assms(1,2) by (auto simp: reg_inv_def Registry_Get_def)
  have "(pid, p) \<in> set (rg_peers r)" using m by (rule map_of_SomeD)
  then have "filter (\<lambda>(i, _). i = pid) (rg_peers r) = [(pid, p)]"
    using d by (rule filter_key)
  moreover have "length (filter (\<lambda>(i, _). i = pid) (rg_peers r)) + length (AList.delete pid (rg_peers r)) =
      length (rg_peers r)"
    using sum_length_filter_compl [of "\<lambda>(i, _). i = pid" "rg_peers r"]
    by (simp add: AList.delete_eq case_prod_unfold eq_commute [of pid])
  ultimately show ?thesis
    using assms(3) m
    by (auto simp: Registry_Revoke_def Registry_Get_def Registry_Count_def AList.delete_conv')
qed

definition ex_registry :: Registry where
  "ex_registry = foldl reg_step (NewRegistry (\<lambda>a.
     \<lparr> pe_ID = (if a = 1 then ''phone'' else ''tablet''), pe_RemoteAddr = [], pe_AcceptedAt = 0, pe_Revoked = False \<rparr>))
     [RAdd 1, RAdd 2]"

theorem registry_revoke_witness:
  "reg_inv ex_registry \<and> Registry_Get ''phone'' ex_registry = Some 1 \<and>
   pe_Revoked (rg_store (snd (Registry_Revoke ''phone'' ex_registry)) 1) \<and>
   Registry_Get ''phone'' (snd (Registry_Revoke ''phone'' ex_registry)) = None"
proof -
  have inv: "reg_inv ex_registry"
    unfolding ex_registry_def by (rule reg.inv_run [OF reg_inv_new]) (simp add: list_all_iff)
  have get: "Registry_Get ''phone'' ex_registry = Some 1" by code_simp
  from registry_revoke [OF inv get surjective_pairing] inv get show ?thesis by simp
qed

end
