(* ===== verification/Settings.thy ===== *)
theory Settings
  imports Prelude "HOL-Library.List_Lexorder"
begin

text \<open>
  User settings, \<^verbatim>\<open>core/settings/config.go\<close>. Interface identifiers come out of a JSON decoder, so they are
  valid UTF-8; they are modelled as lists of code points, whose lexicographic order is the byte order Go
  compares strings by.
\<close>

section \<open>Data\<close>

definition SchemaVersion :: int where "SchemaVersion = 1"
definition MaxInterfaces :: nat where "MaxInterfaces = 8"
definition MaxInterfaceIDRunes :: nat where "MaxInterfaceIDRunes = 64"

type_synonym user_mode = string

definition ModeSpeed :: user_mode where "ModeSpeed = ''speed''"
definition ModeRedundant :: user_mode where "ModeRedundant = ''redundant''"
definition ModeStream :: user_mode where "ModeStream = ''stream''"
definition ModeCustom :: user_mode where "ModeCustom = ''custom''"

record InterfacePreference =
  if_ID :: gostring
  if_Enabled :: bool

record Config =
  cf_SchemaVersion :: int
  cf_Mode :: user_mode
  cf_Interfaces :: "InterfacePreference list"

datatype settings_error = ErrSchema int | ErrReservedMode user_mode | ErrUnknownMode user_mode
  | ErrNoInterface | ErrTooManyInterfaces nat | ErrDuplicate gostring | ErrNoneEnabled
  | ErrEmptyID | ErrLongID | ErrControlChar | ErrPathSep | ErrReservedID

section \<open>Normalisation\<close>

fun scan_runes :: "gostring \<Rightarrow> settings_error option" where
  "scan_runes [] = None"
| "scan_runes (r # rs) =
     (if IsControl r then Some ErrControlChar
      else if r = 0x2f \<or> r = 0x5c then Some ErrPathSep
      else scan_runes rs)"

definition normalizeInterfaceID :: "gostring \<Rightarrow> settings_error + gostring" where
  "normalizeInterfaceID raw =
     (let ident = TrimSpace raw
      in if ident = [] then Inl ErrEmptyID
         else if length ident > MaxInterfaceIDRunes then Inl ErrLongID
         else case scan_runes ident of
                Some e \<Rightarrow> Inl e
              | None \<Rightarrow> if ident = [0x2e] \<or> ident = [0x2e, 0x2e] then Inl ErrReservedID else Inr ident)"

text \<open>The loop over the interfaces, with the output so far, the identifiers seen and the count of enabled ones.\<close>

fun normalize_loop :: "InterfacePreference list \<Rightarrow> InterfacePreference list \<Rightarrow> gostring list \<Rightarrow> nat \<Rightarrow>
    settings_error + (InterfacePreference list \<times> nat)" where
  "normalize_loop [] out seen enabled = Inr (out, enabled)"
| "normalize_loop (pref # prefs) out seen enabled =
     (case normalizeInterfaceID (if_ID pref) of
        Inl e \<Rightarrow> Inl e
      | Inr ident \<Rightarrow>
          if ident \<in> set seen then Inl (ErrDuplicate ident)
          else normalize_loop prefs (out @ [\<lparr> if_ID = ident, if_Enabled = if_Enabled pref \<rparr>]) (ident # seen)
                 (if if_Enabled pref then enabled + 1 else enabled))"

definition Normalize :: "Config \<Rightarrow> settings_error + Config" where
  "Normalize cin =
     (if cf_SchemaVersion cin \<noteq> SchemaVersion then Inl (ErrSchema (cf_SchemaVersion cin))
      else if cf_Mode cin = ModeStream \<or> cf_Mode cin = ModeCustom then Inl (ErrReservedMode (cf_Mode cin))
      else if \<not> (cf_Mode cin = ModeSpeed \<or> cf_Mode cin = ModeRedundant) then Inl (ErrUnknownMode (cf_Mode cin))
      else if length (cf_Interfaces cin) = 0 then Inl ErrNoInterface
      else if length (cf_Interfaces cin) > MaxInterfaces then Inl (ErrTooManyInterfaces (length (cf_Interfaces cin)))
      else case normalize_loop (cf_Interfaces cin) [] [] 0 of
             Inl e \<Rightarrow> Inl e
           | Inr (out, enabled) \<Rightarrow>
               if enabled = 0 then Inl ErrNoneEnabled
               else Inr \<lparr> cf_SchemaVersion = SchemaVersion, cf_Mode = cf_Mode cin,
                          cf_Interfaces = sort_key if_ID out \<rparr>)"

section \<open>Specification\<close>

text \<open>A canonical identifier, and what a configuration must satisfy to be accepted.\<close>

definition id_ok :: "gostring \<Rightarrow> bool" where
  "id_ok s \<longleftrightarrow> s \<noteq> [] \<and> length s \<le> 64 \<and> list_all (\<lambda>r. \<not> IsControl r \<and> r \<noteq> 0x2f \<and> r \<noteq> 0x5c) s \<and>
     s \<noteq> [0x2e] \<and> s \<noteq> [0x2e, 0x2e]"

definition canon :: "InterfacePreference \<Rightarrow> InterfacePreference" where
  "canon x = \<lparr> if_ID = TrimSpace (if_ID x), if_Enabled = if_Enabled x \<rparr>"

definition acceptable :: "Config \<Rightarrow> bool" where
  "acceptable c \<longleftrightarrow> cf_SchemaVersion c = 1 \<and> (cf_Mode c = ''speed'' \<or> cf_Mode c = ''redundant'') \<and>
     0 < length (cf_Interfaces c) \<and> length (cf_Interfaces c) \<le> 8 \<and>
     list_all (\<lambda>x. id_ok (TrimSpace (if_ID x))) (cf_Interfaces c) \<and>
     distinct (map (TrimSpace \<circ> if_ID) (cf_Interfaces c)) \<and> list_ex if_Enabled (cf_Interfaces c)"

lemma TrimSpace_idem: "TrimSpace (TrimSpace s) = TrimSpace s"
proof -
  let ?d = "dropWhile IsSpace"
  have idem: "?d (?d xs) = ?d xs" for xs by (induction xs) auto
  have hd: "?d (rev (?d (rev (?d s)))) = rev (?d (rev (?d s)))"
  proof (cases "rev (?d (rev (?d s)))")
    case (Cons x xs)
    moreover obtain ys where "?d s = rev (?d (rev (?d s))) @ ys"
      by (metis rev_append rev_rev_ident takeWhile_dropWhile_id)
    ultimately have "?d s = x # xs @ ys" by simp
    then have "\<not> IsSpace x" using hd_dropWhile [of IsSpace s] by simp
    with Cons show ?thesis by simp
  next
    case Nil
    show ?thesis unfolding Nil by simp
  qed
  show ?thesis by (simp add: TrimSpace_def hd idem)
qed

lemma scan_runes_None: "scan_runes s = None \<longleftrightarrow> list_all (\<lambda>r. \<not> IsControl r \<and> r \<noteq> 0x2f \<and> r \<noteq> 0x5c) s"
  by (induction s) auto

lemma normalizeInterfaceID_iff:
  "normalizeInterfaceID raw = Inr y \<longleftrightarrow> y = TrimSpace raw \<and> id_ok (TrimSpace raw)"
  using scan_runes_None [of "TrimSpace raw"]
  by (auto simp: normalizeInterfaceID_def id_ok_def MaxInterfaceIDRunes_def Let_def split: option.splits if_splits)

lemma normalize_loop_iff:
  "normalize_loop prefs out seen n = Inr (res, m) \<longleftrightarrow>
     list_all (\<lambda>x. id_ok (TrimSpace (if_ID x))) prefs \<and> distinct (map (TrimSpace \<circ> if_ID) prefs) \<and>
     set (map (TrimSpace \<circ> if_ID) prefs) \<inter> set seen = {} \<and>
     res = out @ map canon prefs \<and> m = n + length (filter if_Enabled prefs)"
proof (induction prefs arbitrary: out seen n)
  case (Cons x xs)
  show ?case
  proof (cases "normalizeInterfaceID (if_ID x)")
    case (Inl e)
    then have "\<not> id_ok (TrimSpace (if_ID x))" using normalizeInterfaceID_iff [of "if_ID x"] by auto
    with Inl show ?thesis by simp
  next
    case (Inr y)
    then have "y = TrimSpace (if_ID x)" "id_ok (TrimSpace (if_ID x))"
      using normalizeInterfaceID_iff [of "if_ID x"] by auto
    with Inr show ?thesis by (auto simp: Cons.IH canon_def)
  qed
qed auto

lemma list_ex_filter: "list_ex P xs \<longleftrightarrow> filter P xs \<noteq> []"
  by (induction xs) auto

lemma Normalize_iff:
  "Normalize c = Inr d \<longleftrightarrow> acceptable c \<and>
     d = \<lparr> cf_SchemaVersion = 1, cf_Mode = cf_Mode c, cf_Interfaces = sort_key if_ID (map canon (cf_Interfaces c)) \<rparr>"
proof (cases "normalize_loop (cf_Interfaces c) [] [] 0")
  case (Inl e)
  then have "\<not> (list_all (\<lambda>x. id_ok (TrimSpace (if_ID x))) (cf_Interfaces c) \<and>
      distinct (map (TrimSpace \<circ> if_ID) (cf_Interfaces c)))"
    using normalize_loop_iff [of "cf_Interfaces c" "[]" "[]" 0] by auto
  with Inl show ?thesis by (auto simp: Normalize_def acceptable_def)
next
  case (Inr p)
  then obtain res m where p: "normalize_loop (cf_Interfaces c) [] [] 0 = Inr (res, m)" by (cases p) auto
  then have "list_all (\<lambda>x. id_ok (TrimSpace (if_ID x))) (cf_Interfaces c)"
    "distinct (map (TrimSpace \<circ> if_ID) (cf_Interfaces c))" "res = map canon (cf_Interfaces c)"
    "m = length (filter if_Enabled (cf_Interfaces c))"
    by (auto simp: normalize_loop_iff)
  with p show ?thesis
    by (auto simp: Normalize_def acceptable_def list_ex_filter SchemaVersion_def MaxInterfaces_def ModeSpeed_def
        ModeRedundant_def ModeStream_def ModeCustom_def)
qed

lemma canon_idem [simp]: "canon (canon x) = canon x"
  by (simp add: canon_def TrimSpace_idem)

lemma if_ID_canon [simp]: "if_ID (canon x) = TrimSpace (if_ID x)" "if_Enabled (canon x) = if_Enabled x"
  by (simp_all add: canon_def)

lemma sort_key_distinct_perm:
  assumes "mset xs = mset ys" and "distinct (map f xs)"
  shows "sort_key f xs = sort_key f ys"
proof -
  have "inj_on f (set xs)" using assms(2) by (simp add: distinct_map)
  then show ?thesis using assms(1) by (intro sort_key_inj_key_eq) auto
qed

section \<open>Properties\<close>

text \<open>C24. Settings are accepted exactly when they meet the contract (schema 1, an implemented mode, one to eight
  interfaces, well-formed and pairwise distinct identifiers after trimming, at least one enabled), and the
  result is determined: the same mode with the trimmed interfaces in strictly ascending order of identifier.\<close>

theorem normalize_spec:
  "Normalize c = Inr d \<longleftrightarrow> acceptable c \<and> cf_SchemaVersion d = 1 \<and> cf_Mode d = cf_Mode c \<and>
     mset (cf_Interfaces d) = mset (map canon (cf_Interfaces c)) \<and> sorted_wrt (<) (map if_ID (cf_Interfaces d))"
proof (cases "acceptable c")
  case True
  let ?xs = "map canon (cf_Interfaces c)"
  have dist: "distinct (map if_ID ?xs)" using True by (simp add: acceptable_def comp_def)
  have "distinct (map if_ID (sort_key if_ID ?xs))"
    using dist mset_eq_imp_distinct_iff [of "map if_ID (sort_key if_ID ?xs)" "map if_ID ?xs"]
    by (simp add: multiset.map_comp)
  then have "sorted_wrt (<) (map if_ID (sort_key if_ID ?xs))" by (simp add: strict_sorted_iff)
  moreover have "sort_key if_ID ?xs = ys" if "mset ys = mset ?xs" "sorted_wrt (<) (map if_ID ys)" for ys
    using that dist unfolding distinct_map [of if_ID ?xs] by (intro sort_key_inj_key_eq) (auto simp: strict_sorted_iff)
  ultimately show ?thesis using True by (cases d) (auto simp: Normalize_iff)
qed (simp add: Normalize_iff)

text \<open>Normalising is stable: normalised settings normalise to themselves, and the order in which the
  interfaces are listed does not matter.\<close>

theorem normalize_stable:
  assumes "Normalize c = Inr d"
  shows "Normalize d = Inr d \<and>
    (mset xs = mset (cf_Interfaces c) \<longrightarrow> Normalize (c\<lparr>cf_Interfaces := xs\<rparr>) = Inr d)"
proof -
  let ?ys = "map canon (cf_Interfaces c)"
  have acc: "acceptable c" and d: "d = \<lparr> cf_SchemaVersion = 1, cf_Mode = cf_Mode c, cf_Interfaces = sort_key if_ID ?ys \<rparr>"
    using assms by (auto simp: Normalize_iff)
  have perm: "acceptable c' \<and> sort_key if_ID (map canon (cf_Interfaces c')) = sort_key if_ID ?ys"
    if "mset (map canon (cf_Interfaces c')) = mset ?ys" "cf_SchemaVersion c' = 1" "cf_Mode c' = cf_Mode c" for c'
  proof -
    let ?zs = "map canon (cf_Interfaces c')"
    have ok: "list_all (\<lambda>x. id_ok (if_ID x)) ?ys" "list_ex if_Enabled ?ys"
      using acc by (auto simp: acceptable_def list_all_iff list_ex_iff)
    have set: "set ?zs = set ?ys" using that(1) by (rule mset_eq_setD)
    have "distinct (map if_ID ?ys)" using acc by (simp add: acceptable_def comp_def)
    moreover have "distinct (map if_ID ?zs)"
      using calculation mset_eq_imp_distinct_iff [of "map if_ID ?zs" "map if_ID ?ys"] that(1) by (metis mset_map)
    moreover have "length ?zs = length ?ys" using that(1) by (rule mset_eq_length)
    moreover have "list_all (\<lambda>x. id_ok (if_ID x)) ?zs" "list_ex if_Enabled ?zs"
      using ok set by (simp_all only: list_all_iff list_ex_iff)
    ultimately show ?thesis
      using acc that sort_key_distinct_perm [of ?zs ?ys if_ID]
      by (simp add: acceptable_def comp_def list_all_iff list_ex_iff)
  qed
  have "mset (map canon (cf_Interfaces d)) = mset ?ys"
    by (simp add: d image_mset.compositionality comp_def)
  then have "Normalize d = Inr d" using perm [of d] by (simp add: Normalize_iff d)
  moreover have "Normalize (c\<lparr>cf_Interfaces := xs\<rparr>) = Inr d" if "mset xs = mset (cf_Interfaces c)"
    using perm [of "c\<lparr>cf_Interfaces := xs\<rparr>"] that acc by (simp add: Normalize_iff d acceptable_def)
  ultimately show ?thesis by simp
qed

theorem normalize_stable_witness:
  "let w = \<lparr> if_ID = [32, 119, 48, 9], if_Enabled = True \<rparr>; l = \<lparr> if_ID = [101, 48], if_Enabled = False \<rparr>;
       c = \<lparr> cf_SchemaVersion = 1, cf_Mode = ''speed'', cf_Interfaces = [w, l] \<rparr>;
       d = \<lparr> cf_SchemaVersion = 1, cf_Mode = ''speed'', cf_Interfaces = [l, canon w] \<rparr>
   in Normalize c = Inr d \<and> Normalize d = Inr d \<and> Normalize (c\<lparr>cf_Interfaces := [l, w]\<rparr>) = Inr d"
proof -
  let ?w = "\<lparr> if_ID = [32, 119, 48, 9], if_Enabled = True \<rparr>" and ?l = "\<lparr> if_ID = [101, 48], if_Enabled = False \<rparr>"
  let ?c = "\<lparr> cf_SchemaVersion = 1, cf_Mode = ''speed'', cf_Interfaces = [?w, ?l] \<rparr>"
  let ?d = "\<lparr> cf_SchemaVersion = 1, cf_Mode = ''speed'', cf_Interfaces = [?l, canon ?w] \<rparr>"
  have run: "Normalize ?c = Inr ?d"
    by (simp add: Normalize_def normalizeInterfaceID_def TrimSpace_def IsSpace_def IsControl_def canon_def Let_def
        SchemaVersion_def ModeSpeed_def ModeRedundant_def ModeStream_def ModeCustom_def MaxInterfaces_def
        MaxInterfaceIDRunes_def)
  from normalize_stable [OF run, of "[?l, ?w]"] run show ?thesis by (simp only: Let_def) simp
qed

end
