(* ===== verification/Budget.thy ===== *)
theory Budget
  imports Float64
begin

text \<open>
  Traffic classes, \<^verbatim>\<open>core/classify/classify.go\<close>, and their token buckets, \<^verbatim>\<open>core/budget/budget.go\<close>. The
  clock is an argument of every operation that reads it.
\<close>

section \<open>Traffic classes\<close>

type_synonym traffic_class = u8

definition Latency :: traffic_class where "Latency = 0"
definition Realtime :: traffic_class where "Realtime = 1"
definition Interactive :: traffic_class where "Interactive = 2"
definition Bulk :: traffic_class where "Bulk = 3"

definition Class_String :: "traffic_class \<Rightarrow> string" where
  "Class_String c = (if c = Latency then ''LATENCY'' else if c = Realtime then ''REALTIME''
     else if c = Interactive then ''INTERACTIVE'' else if c = Bulk then ''BULK'' else ''UNKNOWN'')"

section \<open>Buckets\<close>

record budget_config =
  bc_LatencyBPS :: int
  bc_RealtimeBPS :: int
  bc_InteractiveBPS :: int
  bc_BulkBPS :: int

definition Unlimited :: budget_config where
  "Unlimited = \<lparr> bc_LatencyBPS = 0, bc_RealtimeBPS = 0, bc_InteractiveBPS = 0, bc_BulkBPS = 0 \<rparr>"

record bucket =
  bk_rate :: rat
  bk_tokens :: rat
  bk_cap :: rat
  bk_last :: instant

type_synonym budget = "traffic_class \<rightharpoonup> bucket"

definition add_bucket :: "traffic_class \<Rightarrow> int \<Rightarrow> instant \<Rightarrow> budget \<Rightarrow> budget" where
  "add_bucket c bps now b =
     (if bps \<le> 0 then b(c \<mapsto> \<lparr> bk_rate = 0, bk_tokens = 0, bk_cap = 0, bk_last = 0 \<rparr>)
      else b(c \<mapsto> \<lparr> bk_rate = i2f bps, bk_tokens = i2f bps, bk_cap = i2f bps, bk_last = now \<rparr>))"

text \<open>\<open>t\<close> gives the reading of the clock for each class in turn.\<close>

definition budget_New :: "budget_config \<Rightarrow> (traffic_class \<Rightarrow> instant) \<Rightarrow> budget" where
  "budget_New cfg t =
     (let b = Map.empty;
          b = add_bucket Latency (bc_LatencyBPS cfg) (t Latency) b;
          b = add_bucket Realtime (bc_RealtimeBPS cfg) (t Realtime) b;
          b = add_bucket Interactive (bc_InteractiveBPS cfg) (t Interactive) b
      in add_bucket Bulk (bc_BulkBPS cfg) (t Bulk) b)"

definition Allow :: "traffic_class \<Rightarrow> int \<Rightarrow> instant \<Rightarrow> budget option \<Rightarrow> bool \<times> budget option" where
  "Allow c n now ob =
     (case ob of None \<Rightarrow> (True, ob)
      | Some b \<Rightarrow>
        (case b c of None \<Rightarrow> (True, ob)
         | Some bk \<Rightarrow>
           if bk_rate bk \<le> 0 then (True, ob)
           else let elapsed = Seconds (now - bk_last bk);
                    bk = (if elapsed > 0
                          then let tok = fl64 (bk_tokens bk + fl64 (elapsed * bk_rate bk));
                                   tok = (if tok > bk_cap bk then bk_cap bk else tok)
                               in bk\<lparr>bk_tokens := tok, bk_last := now\<rparr>
                          else bk);
                    need = i2f n
                in if bk_tokens bk < need then (False, Some (b(c \<mapsto> bk)))
                   else (True, Some (b(c \<mapsto> bk\<lparr>bk_tokens := fl64 (bk_tokens bk - need)\<rparr>)))))"

definition Remaining :: "traffic_class \<Rightarrow> instant \<Rightarrow> budget option \<Rightarrow> rat" where
  "Remaining c now ob =
     (case ob of None \<Rightarrow> 0
      | Some b \<Rightarrow>
        (case b c of None \<Rightarrow> 0
         | Some bk \<Rightarrow>
           if bk_rate bk \<le> 0 then 0
           else let elapsed = Seconds (now - bk_last bk);
                    tok = fl64 (bk_tokens bk + fl64 (elapsed * bk_rate bk))
                in if tok > bk_cap bk then bk_cap bk else tok))"

section \<open>The bucket invariant\<close>

definition bucket_ok :: "bucket \<Rightarrow> bool" where
  "bucket_ok bk \<longleftrightarrow> 0 \<le> bk_tokens bk \<and> bk_tokens bk \<le> bk_cap bk \<and> rep64 (bk_cap bk) \<and> rep64 (bk_tokens bk)"

definition budget_ok :: "budget option \<Rightarrow> bool" where
  "budget_ok ob \<longleftrightarrow> (\<forall>b c bk. ob = Some b \<longrightarrow> b c = Some bk \<longrightarrow> bucket_ok bk)"

text \<open>A request: class, size in bytes, time.\<close>

type_synonym request = "traffic_class \<times> int \<times> instant"

definition budget_step :: "budget option \<Rightarrow> request \<Rightarrow> budget option" where
  "budget_step ob r = (case r of (c, n, now) \<Rightarrow> snd (Allow c n now ob))"

lemma rep64_0: "rep64 0" using rep64_fl64 [of 0] by simp

lemma Allow_ok:
  assumes "budget_ok ob" and "0 \<le> n"
  shows "budget_ok (snd (Allow c n now ob))"
proof (cases "\<exists>b bk. ob = Some b \<and> b c = Some bk \<and> \<not> bk_rate bk \<le> 0")
  case False
  then have "snd (Allow c n now ob) = ob" by (auto simp: Allow_def split: option.splits)
  with assms show ?thesis by simp
next
  case True
  then obtain b bk where b: "ob = Some b" "b c = Some bk" and r: "0 < bk_rate bk" by auto
  define bk' where "bk' = (let elapsed = Seconds (now - bk_last bk) in
      if elapsed > 0
      then let tok = fl64 (bk_tokens bk + fl64 (elapsed * bk_rate bk));
               tok = (if tok > bk_cap bk then bk_cap bk else tok)
           in bk\<lparr>bk_tokens := tok, bk_last := now\<rparr> else bk)"
  have bk: "bucket_ok bk" using assms(1) b by (simp add: budget_ok_def)
  then have ok: "bucket_ok bk'"
    using r by (auto simp: bk'_def Let_def bucket_ok_def rep64_fl64 intro!: fl64_nonneg add_nonneg_nonneg)
  have "bucket_ok (bk'\<lparr>bk_tokens := fl64 (bk_tokens bk' - i2f n)\<rparr>)" if "i2f n \<le> bk_tokens bk'"
  proof -
    have "fl64 (bk_tokens bk' - i2f n) \<le> bk_cap bk'"
      using ok i2f_nonneg [OF assms(2)] by (intro fl64_le_rep) (auto simp: bucket_ok_def)
    then show ?thesis using ok that by (simp add: bucket_ok_def fl64_nonneg rep64_fl64)
  qed
  moreover have "snd (Allow c n now ob) = Some (b(c \<mapsto> if bk_tokens bk' < i2f n then bk'
      else bk'\<lparr>bk_tokens := fl64 (bk_tokens bk' - i2f n)\<rparr>))"
    using b r by (simp add: Allow_def bk'_def Let_def)
  ultimately show ?thesis using assms(1) ok b(1) by (auto simp: budget_ok_def)
qed

interpretation bud: step_system budget_step budget_ok "\<lambda>(c, n, now). 0 \<le> n"
  by unfold_locales (auto simp: budget_step_def Allow_ok)

lemma budget_ok_add: "budget_ok (Some b) \<Longrightarrow> budget_ok (Some (add_bucket c bps now b))"
  by (auto simp: budget_ok_def add_bucket_def bucket_ok_def rep64_0 rep64_i2f i2f_nonneg)

lemma budget_ok_New: "budget_ok (Some (budget_New cfg t))"
  unfolding budget_New_def Let_def by (intro budget_ok_add) (simp add: budget_ok_def)

section \<open>Bursts\<close>

text \<open>The bytes granted to a class over a sequence of requests.\<close>

fun granted :: "traffic_class \<Rightarrow> budget option \<Rightarrow> request list \<Rightarrow> int" where
  "granted c ob [] = 0"
| "granted c ob ((c', n, now) # rs) =
     (let (ok, ob) = Allow c' n now ob in (if ok \<and> c' = c then n else 0) + granted c ob rs)"

lemma Seconds_0 [simp]: "Seconds 0 = 0"
  by (simp add: Seconds_def)

lemma Allow_other: "c' \<noteq> c \<Longrightarrow> ob = Some b \<Longrightarrow>
    \<exists>b'. snd (Allow c' n now ob) = Some b' \<and> b' c = b c"
  by (auto simp: Allow_def Let_def split: option.splits)

lemma Allow_same:
  assumes "b c = Some bk" "0 < bk_rate bk" "bk_last bk = now" "bk_tokens bk = of_int k" "0 \<le> k" "k \<le> 2 ^ 53" "0 \<le> n" "n \<le> 2 ^ 53"
  shows "Allow c n now (Some b) =
    (if k < n then (False, Some b) else (True, Some (b(c \<mapsto> bk\<lparr>bk_tokens := of_int (k - n)\<rparr>))))"
proof -
  have n: "i2f n = of_int n" using assms(7,8) by (intro i2f_exact) simp
  have "fl64 (of_int k - of_int n) = of_int (k - n)" if "n \<le> k"
    using fl64_of_int [of "k - n"] that assms by simp
  then show ?thesis
    using assms n by (auto simp: Allow_def Let_def fun_upd_idem)
qed

lemma granted_burst:
  assumes "b c = Some bk" "0 < bk_rate bk" "bk_last bk = now" "bk_tokens bk = of_int k" "0 \<le> k" "k \<le> 2 ^ 53"
    and "list_all (\<lambda>(c', n, t). 0 \<le> n \<and> n \<le> 2 ^ 53 \<and> t = now) rs"
  shows "granted c (Some b) rs \<le> k"
  using assms
proof (induction rs arbitrary: b bk k)
  case (Cons r rs)
  obtain c' n t where r: "r = (c', n, t)" by (cases r)
  have n: "0 \<le> n" "n \<le> 2 ^ 53" "t = now" and rs: "list_all (\<lambda>(c', n, t). 0 \<le> n \<and> n \<le> 2 ^ 53 \<and> t = now) rs"
    using Cons.prems(7) by (simp_all add: r)
  show ?case
  proof (cases "c' = c")
    case False
    then obtain b' where b': "snd (Allow c' n t (Some b)) = Some b'" "b' c = b c"
      using Allow_other [OF False refl] by blast
    then have "granted c (Some b') rs \<le> k" using Cons.IH [of b' bk k] Cons.prems rs by simp
    with b' False show ?thesis by (simp add: r split_beta Let_def)
  next
    case True
    note step = Allow_same [of b c bk, OF Cons.prems(1-6) n(1,2)]
    show ?thesis
    proof (cases "k < n")
      case True
      with \<open>c' = c\<close> n(3) step Cons.IH [of b bk k] Cons.prems rs show ?thesis by (simp add: r)
    next
      case False
      let ?b = "b(c \<mapsto> bk\<lparr>bk_tokens := of_int (k - n)\<rparr>)"
      have "granted c (Some ?b) rs \<le> k - n"
        by (rule Cons.IH [where bk = "bk\<lparr>bk_tokens := of_int (k - n)\<rparr>"])
           (use Cons.prems rs n False in simp_all)
      with \<open>c' = c\<close> n(3) step False show ?thesis by (simp add: r)
    qed
  qed
qed simp

section \<open>Properties\<close>

text \<open>C29. Every bucket keeps its token count between zero and its capacity, rounding included, over any
  sequence of requests at any times, the clock running backwards included.\<close>

theorem budget_invariant:
  assumes "list_all (\<lambda>(c, n, now). 0 \<le> n) rs"
  shows "budget_ok (foldl budget_step (Some (budget_New cfg t)) rs)"
  using assms bud.inv_run [OF budget_ok_New] by simp

theorem budget_invariant_witness:
  "budget_ok (foldl budget_step (Some (budget_New (Unlimited\<lparr>bc_BulkBPS := 3000\<rparr>) (\<lambda>_. 0)))
     [(Bulk, 1500, 0), (Bulk, 1500, 1), (Bulk, 1500, 500000000)])"
  by (rule budget_invariant) simp

text \<open>A burst is bounded by the class's rate: at the instant the budget was created, the bytes granted to
  bulk traffic, interleaved with any requests of other classes, add up to at most one second's worth.\<close>

theorem budget_burst_bounded:
  assumes "0 < bc_BulkBPS cfg" and "bc_BulkBPS cfg \<le> 2 ^ 53"
    and "list_all (\<lambda>(c, n, now). 0 \<le> n \<and> n \<le> 2 ^ 53 \<and> now = t Bulk) rs"
  shows "granted Bulk (Some (budget_New cfg t)) rs \<le> bc_BulkBPS cfg"
proof (rule granted_burst)
  have bps: "i2f (bc_BulkBPS cfg) = of_int (bc_BulkBPS cfg)" using assms(1,2) by (intro i2f_exact) simp
  show "budget_New cfg t Bulk = Some \<lparr> bk_rate = of_int (bc_BulkBPS cfg), bk_tokens = of_int (bc_BulkBPS cfg),
      bk_cap = of_int (bc_BulkBPS cfg), bk_last = t Bulk \<rparr>"
    using assms(1) bps by (simp add: budget_New_def add_bucket_def Let_def)
qed (use assms in auto)

theorem budget_burst_bounded_witness:
  "granted Bulk (Some (budget_New (Unlimited\<lparr>bc_BulkBPS := 3000\<rparr>) (\<lambda>_. 5)))
     [(Bulk, 1500, 5), (Bulk, 1400, 5), (Latency, 900, 5), (Bulk, 200, 5)] \<le> 3000"
  using budget_burst_bounded [of "Unlimited\<lparr>bc_BulkBPS := 3000\<rparr>"
     "\<lambda>_. 5" "[(Bulk, 1500, 5), (Bulk, 1400, 5), (Latency, 900, 5), (Bulk, 200, 5)]"] by simp

end
